(* ===== verification/Prelude.thy ===== *)
theory Prelude
  imports Complex_Main "HOL-Library.Word"
begin

section \<open>Shared vocabulary: outcomes, semaphores, C integers, decimal text\<close>

text \<open>
  What every component theory shares. A C function that can fail to return a value does so in
  one of the ways of \<open>fault\<close>; everything else is a value. Stateful code of one object is explicit
  state passing; the allocator and the registries, which chain many fallible steps, use the
  action type \<open>'s \<Rightarrow> fault + 'a \<times> 's\<close> with \<open>ret\<close> and \<open>bnd\<close>.
\<close>

named_theorems m_simps \<open>unfolding the action combinators\<close>
named_theorems sem_simps \<open>semaphore operations\<close>

subsection \<open>Faults and outcomes\<close>

text \<open>
  \<open>MemFault\<close>: a dereference of NULL, of a freed object or outside an array, or a write past a
  buffer. \<open>Blocked\<close>: the thread waits on a semaphore whose value is 0. \<open>Aborted\<close>: \<open>abort()\<close>, \<open>Exited\<close>: \<open>exit(status)\<close>.
  \<open>OutOfFuel\<close>: a loop of the model ran out of its step budget.
\<close>

datatype fault = MemFault | Blocked | Aborted | Exited int | OutOfFuel

type_synonym 'a outcome = "fault + 'a"
type_synonym ('s, 'a) action = "'s \<Rightarrow> fault + ('a \<times> 's)"

definition ret :: "'a \<Rightarrow> ('s, 'a) action" where
  "ret x s = Inr (x, s)"

definition fail :: "fault \<Rightarrow> ('s, 'a) action" where
  "fail e s = Inl e"

definition bnd :: "('s, 'a) action \<Rightarrow> ('a \<Rightarrow> ('s, 'b) action) \<Rightarrow> ('s, 'b) action" where
  "bnd m k s = (case m s of Inl e \<Rightarrow> Inl e | Inr (x, s') \<Rightarrow> k x s')"

definition sq :: "('s, 'a) action \<Rightarrow> ('s, 'b) action \<Rightarrow> ('s, 'b) action" where
  "sq m k = bnd m (\<lambda>_. k)"

definition gets :: "('s \<Rightarrow> 'a) \<Rightarrow> ('s, 'a) action" where
  "gets f s = Inr (f s, s)"

definition modify :: "('s \<Rightarrow> 's) \<Rightarrow> ('s, unit) action" where
  "modify f s = Inr ((), f s)"

definition obind :: "'a outcome \<Rightarrow> ('a \<Rightarrow> 'b outcome) \<Rightarrow> 'b outcome" where
  "obind m k = (case m of Inl e \<Rightarrow> Inl e | Inr x \<Rightarrow> k x)"

definition lift_outcome :: "'a outcome \<Rightarrow> ('s, 'a) action" where
  "lift_outcome m s = obind m (\<lambda>x. Inr (x, s))"

definition when_do :: "bool \<Rightarrow> ('s, unit) action \<Rightarrow> ('s, unit) action" where
  "when_do b m = (if b then m else ret ())"

lemma ret_app [simp, m_simps]: "ret x s = Inr (x, s)"
  by (simp add: ret_def)

lemma fail_app [simp, m_simps]: "fail e s = Inl e"
  by (simp add: fail_def)

lemma gets_app [simp, m_simps]: "gets f s = Inr (f s, s)"
  by (simp add: gets_def)

lemma modify_app [simp, m_simps]: "modify f s = Inr ((), f s)"
  by (simp add: modify_def)

lemma obind_simps [simp, m_simps]:
  "obind (Inl e) k = Inl e" "obind (Inr x) k = k x"
  by (simp_all add: obind_def)

lemma obind_Inr_iff: "obind m k = Inr y \<longleftrightarrow> (\<exists>x. m = Inr x \<and> k x = Inr y)"
  by (cases m) auto

lemma bnd_Inr: "m s = Inr (x, s') \<Longrightarrow> bnd m k s = k x s'"
  by (simp add: bnd_def)

lemma bnd_Inl: "m s = Inl e \<Longrightarrow> bnd m k s = Inl e"
  by (simp add: bnd_def)

lemma sq_Inr: "m s = Inr (x, s') \<Longrightarrow> sq m k s = k s'"
  by (simp add: sq_def bnd_def)

lemma sq_Inl: "m s = Inl e \<Longrightarrow> sq m k s = Inl e"
  by (simp add: sq_def bnd_def)

lemma bnd_eq_Inr:
  "bnd m k s = Inr r \<longleftrightarrow> (\<exists>x s'. m s = Inr (x, s') \<and> k x s' = Inr r)"
  by (auto simp: bnd_def split: sum.splits)

lemma bnd_ret [simp, m_simps]: "bnd (ret x) k = k x"
  by (rule ext) (simp add: bnd_def)

lemma bnd_gets [simp, m_simps]: "bnd (gets f) k s = k (f s) s"
  by (simp add: bnd_def)

lemma sq_modify [simp, m_simps]: "sq (modify f) k s = k (f s)"
  by (simp add: sq_def bnd_def)

lemma bnd_modify [simp, m_simps]: "bnd (modify f) k s = k () (f s)"
  by (simp add: bnd_def)

lemma bnd_fail [simp, m_simps]: "bnd (fail e) k s = Inl e"
  by (simp add: bnd_def)

lemma sq_fail [simp, m_simps]: "sq (fail e) k s = Inl e"
  by (simp add: sq_def)

lemma lift_Inr [simp, m_simps]: "lift_outcome (Inr x) = ret x"
  by (rule ext) (simp add: lift_outcome_def)

lemma lift_Inl [simp, m_simps]: "lift_outcome (Inl e) s = Inl e"
  by (simp add: lift_outcome_def)

lemma when_do_simps [simp, m_simps]: "when_do True m = m" "when_do False m = ret ()"
  by (simp_all add: when_do_def)

lemma bnd_assoc: "bnd (bnd m f) g s = bnd m (\<lambda>x. bnd (f x) g) s"
  by (auto simp: bnd_def split: sum.splits)

subsection \<open>Semaphores\<close>

text \<open>
  \<open>P\<close> and \<open>V\<close> of \<open>csapp.c\<close> wrap \<open>sem_wait\<close> and \<open>sem_post\<close>: a wait on value 0 does not
  return (the model has one thread in the operation at a time, so nobody else posts).
\<close>

type_synonym sem = nat

definition P :: "sem \<Rightarrow> sem outcome" where
  "P s = (if s = 0 then Inl Blocked else Inr (s - 1))"

definition V :: "sem \<Rightarrow> sem" where
  "V s = s + 1"

lemma P_0 [simp, sem_simps]: "P 0 = Inl Blocked"
  by (simp add: P_def)

lemma P_Suc [simp, sem_simps]: "P (Suc n) = Inr n"
  by (simp add: P_def)

lemma P_1 [simp, sem_simps]: "P 1 = Inr 0"
  by (simp add: P_def)

lemma V_Suc [simp, sem_simps]: "V n = Suc n"
  by (simp add: V_def)

lemma P_Inr_iff: "P s = Inr t \<longleftrightarrow> s = Suc t"
  by (auto simp: P_def)

subsection \<open>C integers\<close>

text \<open>
  Truncating division, the conversion of a real to an integer type (towards zero), and a
  signed 32-bit value (\<open>int\<close> arithmetic that leaves the range wraps in two's complement, as the
  generated code does).
\<close>

definition c_div :: "int \<Rightarrow> int \<Rightarrow> int" where
  "c_div a b = sgn a * sgn b * (\<bar>a\<bar> div \<bar>b\<bar>)"

definition c_trunc :: "'a::floor_ceiling \<Rightarrow> int" where
  "c_trunc x = (if 0 \<le> x then \<lfloor>x\<rfloor> else \<lceil>x\<rceil>)"

definition wrap32 :: "int \<Rightarrow> int" where
  "wrap32 x = (x + 2 ^ 31) mod 2 ^ 32 - 2 ^ 31"

definition wrap16 :: "int \<Rightarrow> int" where
  "wrap16 x = (x + 2 ^ 15) mod 2 ^ 16 - 2 ^ 15"

definition wrap64 :: "int \<Rightarrow> int" where
  "wrap64 x = (x + 2 ^ 63) mod 2 ^ 64 - 2 ^ 63"

lemma wrap64_id: "- (2 ^ 63) \<le> x \<Longrightarrow> x < 2 ^ 63 \<Longrightarrow> wrap64 x = x"
  by (simp add: wrap64_def)

lemma wrap32_id: "- (2 ^ 31) \<le> x \<Longrightarrow> x < 2 ^ 31 \<Longrightarrow> wrap32 x = x"
  by (simp add: wrap32_def)

lemma wrap16_id: "- (2 ^ 15) \<le> x \<Longrightarrow> x < 2 ^ 15 \<Longrightarrow> wrap16 x = x"
  by (simp add: wrap16_def)

lemma wrap16_range: "- (2 ^ 15) \<le> wrap16 x \<and> wrap16 x < 2 ^ 15"
  by (simp add: wrap16_def)

lemma wrap32_range: "- (2 ^ 31) \<le> wrap32 x \<and> wrap32 x < 2 ^ 31"
  by (simp add: wrap32_def)

lemma c_div_nonneg: "0 \<le> a \<Longrightarrow> 0 < b \<Longrightarrow> c_div a b = a div b"
  by (cases "a = 0") (simp_all add: c_div_def)

lemma c_div_0 [simp]: "c_div 0 b = 0"
  by (simp add: c_div_def)

lemma c_div_minus: "c_div (- a) b = - c_div a b"
  by (simp add: c_div_def)

lemma c_div_mult_cancel: "b \<noteq> 0 \<Longrightarrow> c_div (a * b) b = a"
proof -
  assume b: "b \<noteq> 0"
  have "c_div (a * b) b = sgn a * (sgn b * sgn b) * (\<bar>a\<bar> * \<bar>b\<bar> div \<bar>b\<bar>)"
    by (simp add: c_div_def sgn_mult abs_mult mult.assoc)
  also have "\<dots> = sgn a * \<bar>a\<bar>"
    using b by (simp add: sgn_if)
  finally show ?thesis by (simp add: sgn_mult_abs)
qed

subsection \<open>Characters and decimal text\<close>

definition nl :: char where
  "nl = CHR 0x0A"

definition tab :: char where
  "tab = CHR 0x09"

text \<open>C \<open>char\<close> arithmetic such as \<open>*str - '0'\<close> on a signed \<open>char\<close>.\<close>

definition c_char :: "char \<Rightarrow> int" where
  "c_char c = (let n = int (of_char c) in if n < 128 then n else n - 256)"

definition digit_char :: "nat \<Rightarrow> char" where
  "digit_char d = char_of (48 + d)"

fun show_nat :: "nat \<Rightarrow> string" where
  "show_nat n = (if n < 10 then [digit_char n] else show_nat (n div 10) @ [digit_char (n mod 10)])"

declare show_nat.simps [simp del]

definition show_int :: "int \<Rightarrow> string" where
  "show_int i = (if i < 0 then CHR ''-'' # show_nat (nat (- i)) else show_nat (nat i))"

lemma c_char_digit: "d < 10 \<Longrightarrow> c_char (digit_char d) = 48 + int d"
  by (simp add: c_char_def digit_char_def Let_def of_char_of take_bit_eq_mod)

lemma show_nat_digit: "n < 10 \<Longrightarrow> show_nat n = [digit_char n]"
  by (subst show_nat.simps) simp

lemma show_nat_ne: "show_nat n \<noteq> []"
  by (subst show_nat.simps) simp

lemma show_nat_digits: "\<forall>c \<in> set (show_nat n). \<exists>d < 10. c = digit_char d"
proof (induction n rule: show_nat.induct)
  case (1 n)
  show ?case
  proof (cases "n < 10")
    case True
    then show ?thesis by (auto simp: show_nat_digit)
  next
    case False
    then have "show_nat n = show_nat (n div 10) @ [digit_char (n mod 10)]"
      by (subst show_nat.simps) simp
    with "1.IH"[OF False] show ?thesis
      by (auto intro!: exI [of _ "n mod 10"])
  qed
qed

lemma length_show_nat: "n < 10 ^ Suc k \<Longrightarrow> length (show_nat n) \<le> Suc k"
proof (induction n arbitrary: k rule: show_nat.induct)
  case (1 n)
  show ?case
  proof (cases "n < 10")
    case True
    then show ?thesis by (simp add: show_nat_digit)
  next
    case False
    then obtain j where j: "k = Suc j" using "1.prems" by (cases k) auto
    then have "n div 10 < 10 ^ Suc j" using "1.prems" by simp
    from "1.IH" [OF False this] have "length (show_nat (n div 10)) \<le> Suc j" .
    moreover have "show_nat n = show_nat (n div 10) @ [digit_char (n mod 10)]"
      using False by (subst show_nat.simps) simp
    ultimately show ?thesis by (simp add: j)
  qed
qed

subsection \<open>Lists\<close>

lemma list_update_filter_length:
  "i < length xs \<Longrightarrow> \<not> p (xs ! i) \<Longrightarrow> p x \<Longrightarrow>
   length (filter p (xs[i := x])) = Suc (length (filter p xs))"
proof (induction xs arbitrary: i)
  case (Cons a xs)
  then show ?case by (cases i) auto
qed simp

end
