(* ===== verification/Interfaces.thy ===== *)
theory Interfaces
  imports Prelude
begin

section \<open>Interfaces between the components\<close>

text \<open>
  The contracts that several components share, as locales. Each is interpreted on the model's own
  operations in the theory of the component that provides them.

  \<open>refcounted\<close>: an object with a reference count that an unlocked caller may raise and lower; the
  object is freed by the call that lowers the count to zero and by no earlier one.
\<close>

fun iter_ref :: "('o \<Rightarrow> 'o outcome) \<Rightarrow> nat \<Rightarrow> 'o \<Rightarrow> 'o outcome" where
  "iter_ref ref 0 x = Inr x"
| "iter_ref ref (Suc n) x = obind (ref x) (iter_ref ref n)"

text \<open>Releasing an already freed object is a memory fault.\<close>

fun iter_unref :: "('o \<Rightarrow> 'o option outcome) \<Rightarrow> nat \<Rightarrow> 'o \<Rightarrow> 'o option outcome" where
  "iter_unref unref 0 x = Inr (Some x)"
| "iter_unref unref (Suc n) x = obind (unref x) (\<lambda>r. case r of
     None \<Rightarrow> (if n = 0 then Inr None else Inl MemFault)
   | Some y \<Rightarrow> iter_unref unref n y)"

locale refcounted =
  fixes cnt :: "'o \<Rightarrow> int"
    and unlocked :: "'o \<Rightarrow> bool"
    and ref :: "'o \<Rightarrow> 'o outcome"
    and unref :: "'o \<Rightarrow> 'o option outcome"
    and inc :: int
  assumes ref_law: "unlocked x \<Longrightarrow> \<exists>y. ref x = Inr y \<and> unlocked y \<and> cnt y = cnt x + inc"
    and unref_last: "unlocked x \<Longrightarrow> cnt x = 1 \<Longrightarrow> unref x = Inr None"
    and unref_law: "unlocked x \<Longrightarrow> cnt x \<noteq> 1 \<Longrightarrow>
          \<exists>y. unref x = Inr (Some y) \<and> unlocked y \<and> cnt y = cnt x - 1"
begin

lemma refs_count:
  "unlocked x \<Longrightarrow> \<exists>y. iter_ref ref n x = Inr y \<and> unlocked y \<and> cnt y = cnt x + int n * inc"
proof (induction n arbitrary: x)
  case 0
  then show ?case by simp
next
  case (Suc n)
  from ref_law [OF Suc.prems] obtain y
    where y: "ref x = Inr y" "unlocked y" "cnt y = cnt x + inc" by blast
  from Suc.IH [OF y(2)] y(1,3) show ?case
    by (auto simp: algebra_simps)
qed

lemma alive_before_last:
  "unlocked x \<Longrightarrow> int n < cnt x \<Longrightarrow>
   \<exists>y. iter_unref unref n x = Inr (Some y) \<and> unlocked y \<and> cnt y = cnt x - int n"
proof (induction n arbitrary: x)
  case 0
  then show ?case by simp
next
  case (Suc n)
  then have "cnt x \<noteq> 1" by simp
  from unref_law [OF Suc.prems(1) this] obtain y
    where y: "unref x = Inr (Some y)" "unlocked y" "cnt y = cnt x - 1" by blast
  with Suc.prems(2) have "int n < cnt y" by simp
  from Suc.IH [OF y(2) this] y(1,3) show ?case by auto
qed

lemma freed_at_last:
  "unlocked x \<Longrightarrow> cnt x = int (Suc n) \<Longrightarrow> iter_unref unref (Suc n) x = Inr None"
proof (induction n arbitrary: x)
  case 0
  then show ?case by (simp add: unref_last)
next
  case (Suc n)
  then have "cnt x \<noteq> 1" by simp
  from unref_law [OF Suc.prems(1) this] obtain y
    where y: "unref x = Inr (Some y)" "unlocked y" "cnt y = cnt x - 1" by blast
  with Suc.prems(2) have "cnt y = int (Suc n)" by simp
  from Suc.IH [OF y(2) this] y(1) show ?case by simp
qed

lemma ref_unref_balance:
  assumes "unlocked x" and "0 < cnt x" and "1 \<le> inc"
  shows "\<exists>y z. iter_ref ref n x = Inr y \<and> iter_unref unref n y = Inr (Some z) \<and> unlocked z
    \<and> cnt z = cnt x + int n * (inc - 1)"
proof -
  from refs_count [OF assms(1), of n] obtain y
    where y: "iter_ref ref n x = Inr y" "unlocked y" "cnt y = cnt x + int n * inc" by blast
  have "int n * 1 \<le> int n * inc" using assms(3) by (intro mult_left_mono) auto
  with y(3) assms(2) have "int n < cnt y" by simp
  from alive_before_last [OF y(2) this] y show ?thesis
    by (auto simp: algebra_simps)
qed

lemma lifetime:
  assumes "unlocked x" and "cnt x = int n" and "0 < n"
  shows "iter_unref unref n x = Inr None \<and>
    (\<forall>k<n. \<exists>y. iter_unref unref k x = Inr (Some y) \<and> cnt y = cnt x - int k)"
proof -
  from assms(3) obtain m where m: "n = Suc m" by (cases n) auto
  have "\<exists>y. iter_unref unref k x = Inr (Some y) \<and> cnt y = cnt x - int k" if "k < n" for k
    using alive_before_last [OF assms(1), of k] assms(2) that by auto
  moreover have "iter_unref unref n x = Inr None"
    using freed_at_last [OF assms(1), of m] assms(2) m by simp
  ultimately show ?thesis by blast
qed

end

text \<open>
  \<open>player_directory\<close>: what the service loop needs of a registry of players: registering an acceptable
  name returns a handle that denotes a player of that name, and no earlier handle is disturbed.
\<close>

fun register_all :: "(string \<Rightarrow> ('w, 'p) action) \<Rightarrow> string list \<Rightarrow> ('w, 'p list) action" where
  "register_all reg [] = ret []"
| "register_all reg (n # ns) = bnd (reg n) (\<lambda>p. bnd (register_all reg ns) (\<lambda>ps. ret (p # ps)))"

locale player_directory =
  fixes good :: "'w \<Rightarrow> bool"
    and name_ok :: "string \<Rightarrow> bool"
    and reg :: "string \<Rightarrow> ('w, 'p) action"
    and name_of :: "'w \<Rightarrow> 'p \<Rightarrow> string option"
  assumes reg_law: "good w \<Longrightarrow> name_ok n \<Longrightarrow>
      \<exists>p w'. reg n w = Inr (p, w') \<and> good w' \<and> name_of w' p = Some n
        \<and> (\<forall>q m. name_of w q = Some m \<longrightarrow> name_of w' q = Some m)"
begin

lemma register_all_names:
  "good w \<Longrightarrow> list_all name_ok ns \<Longrightarrow>
   \<exists>ps w'. register_all reg ns w = Inr (ps, w') \<and> good w' \<and> map (name_of w') ps = map Some ns
     \<and> (\<forall>q m. name_of w q = Some m \<longrightarrow> name_of w' q = Some m)"
proof (induction ns arbitrary: w)
  case Nil
  then show ?case by simp
next
  case (Cons n ns)
  from Cons.prems have ok: "name_ok n" "list_all name_ok ns" by auto
  from reg_law [OF Cons.prems(1) ok(1)] obtain p w1
    where 1: "reg n w = Inr (p, w1)" "good w1" "name_of w1 p = Some n"
      "\<And>q m. name_of w q = Some m \<Longrightarrow> name_of w1 q = Some m" by blast
  from Cons.IH [OF 1(2) ok(2)] obtain ps w2
    where 2: "register_all reg ns w1 = Inr (ps, w2)" "good w2" "map (name_of w2) ps = map Some ns"
      "\<And>q m. name_of w1 q = Some m \<Longrightarrow> name_of w2 q = Some m" by blast
  have "register_all reg (n # ns) w = Inr (p # ps, w2)" using 1(1) 2(1) by (simp add: bnd_def)
  moreover have "name_of w2 p = Some n" using 1(3) 2(4) by blast
  ultimately show ?case using 2 1(4) by auto
qed

end

text \<open>
  \<open>fixed_codec\<close>: values written as a fixed number of bytes and read back; a run of written values is
  read back value by value from the front of any longer input.
\<close>

type_synonym byte = "8 word"

fun dec_many :: "nat \<Rightarrow> (byte list \<Rightarrow> 'a) \<Rightarrow> nat \<Rightarrow> byte list \<Rightarrow> 'a list \<times> byte list" where
  "dec_many width dec 0 bs = ([], bs)"
| "dec_many width dec (Suc n) bs =
     (let (xs, rest) = dec_many width dec n (drop width bs) in (dec (take width bs) # xs, rest))"

locale fixed_codec =
  fixes width :: nat
    and enc :: "'a \<Rightarrow> byte list"
    and dec :: "byte list \<Rightarrow> 'a"
  assumes enc_width: "length (enc x) = width"
    and dec_enc: "dec (enc x) = x"
begin

lemma dec_prefix: "dec (take width (enc x @ rest)) = x" "drop width (enc x @ rest) = rest"
  by (simp_all add: enc_width dec_enc)

lemma enc_inj: "enc x = enc y \<longleftrightarrow> x = y"
  by (metis dec_enc)

lemma length_enc_all: "length (concat (map enc xs)) = width * length xs"
  by (induction xs) (simp_all add: enc_width)

lemma dec_enc_many: "dec_many width dec (length xs) (concat (map enc xs) @ rest) = (xs, rest)"
  by (induction xs) (simp_all add: enc_width dec_enc)

end

text \<open>
  \<open>checksum\<close>: a state updated byte by byte, each update one-to-one in the state and in the byte.
  Then a corrupted byte always shows in the final state.
\<close>

locale checksum =
  fixes upd :: "'s \<Rightarrow> 'b \<Rightarrow> 's"
  assumes inj_state: "upd s b = upd t b \<Longrightarrow> s = t"
    and inj_byte: "upd s b = upd s c \<Longrightarrow> b = c"
begin

lemma foldl_inj: "foldl upd s xs = foldl upd t xs \<longleftrightarrow> s = t"
  by (induction xs arbitrary: s t) (auto dest: inj_state)

lemma suffix_irrelevant: "foldl upd s (us @ zs) = foldl upd s (vs @ zs) \<longleftrightarrow> foldl upd s us = foldl upd s vs"
  by (simp add: foldl_inj)

lemma one_byte_detected:
  "a \<noteq> b \<Longrightarrow> foldl upd s (xs @ [a] @ zs) \<noteq> foldl upd s (xs @ [b] @ zs)"
  by (auto simp: foldl_inj dest: inj_byte)

end

text \<open>
  \<open>byte_stream\<close>: a reader of bytes, with the bytes still to come. Then any sequence of requests cuts
  those bytes into consecutive pieces, whatever the reader does behind the interface.
\<close>

fun read_many :: "(nat \<Rightarrow> 's \<Rightarrow> ('b list \<times> 's) option) \<Rightarrow> nat list \<Rightarrow> 's \<Rightarrow> ('b list list \<times> 's) option" where
  "read_many rd [] s = Some ([], s)"
| "read_many rd (n # ns) s = (case rd n s of None \<Rightarrow> None
     | Some (bs, s1) \<Rightarrow> (case read_many rd ns s1 of None \<Rightarrow> None | Some (bss, s2) \<Rightarrow> Some (bs # bss, s2)))"

fun pieces :: "nat list \<Rightarrow> 'b list \<Rightarrow> 'b list list" where
  "pieces [] bs = []"
| "pieces (n # ns) bs = take n bs # pieces ns (drop n bs)"

lemma concat_pieces: "concat (pieces ns bs) = take (sum_list ns) bs"
  by (induction ns arbitrary: bs) (simp_all add: take_add)

locale byte_stream =
  fixes ok :: "'s \<Rightarrow> bool"
    and pending :: "'s \<Rightarrow> 'b list"
    and rd :: "nat \<Rightarrow> 's \<Rightarrow> ('b list \<times> 's) option"
  assumes rd: "ok s \<Longrightarrow> \<exists>s'. rd n s = Some (take n (pending s), s') \<and> ok s' \<and> pending s' = drop n (pending s)"
begin

lemma read_many: "ok s \<Longrightarrow> \<exists>s'. read_many rd ns s = Some (pieces ns (pending s), s') \<and> ok s'
    \<and> pending s' = drop (sum_list ns) (pending s)"
proof (induction ns arbitrary: s)
  case (Cons n ns)
  obtain s1 where 1: "rd n s = Some (take n (pending s), s1)" "ok s1" "pending s1 = drop n (pending s)"
    using rd [OF Cons.prems] by blast
  then show ?case using Cons.IH [OF 1(2)] by (auto simp: add.commute)
qed simp

end

end
