(* ===== verification/Game.thy ===== *)
theory Game
  imports Interfaces
begin

section \<open>The game module (hw5/src/game.c)\<close>

text \<open>
  The tic-tac-toe game object of the Jeux server: its state (\<open>GAME\<close>), moves (\<open>GAME_MOVE\<close>), and
  one definition per function of \<open>game.c\<close>. Each takes the object and returns the new one; the
  semaphore \<open>gameLock\<close> is part of the object, so that an operation called on a locked game is
  \<open>Blocked\<close> and a missing \<open>V\<close> would be visible in the returned object.
\<close>

datatype game_role = NULL_ROLE | FIRST_PLAYER_ROLE | SECOND_PLAYER_ROLE

record game =
  gameWinner :: game_role
  curRole :: game_role
  game_refCount :: int
  gameDraw :: bool
  terminated :: bool
  gameBoard :: "char list"
  movesMade :: int
  gameLock :: sem

record game_move =
  boardIndex :: int
  curPlayer :: game_role

subsection \<open>Operations\<close>

text \<open>\<open>sem_ok\<close> is the success of \<open>sem_init\<close>; on failure the object is freed and NULL returned.\<close>

definition game_create :: "bool \<Rightarrow> game option" where
  "game_create sem_ok =
     (let newGame = \<lparr>gameWinner = NULL_ROLE, curRole = FIRST_PLAYER_ROLE, game_refCount = 2,
        gameDraw = False, terminated = False, gameBoard = replicate 9 (CHR '' ''),
        movesMade = 0, gameLock = 1\<rparr>
      in if sem_ok then Some newGame else None)"

definition game_ref :: "game \<Rightarrow> game outcome" where
  "game_ref g = obind (P (gameLock g)) (\<lambda>l.
     Inr (g\<lparr>game_refCount := game_refCount g + 1, gameLock := V l\<rparr>))"

text \<open>\<open>None\<close>: the count reached zero and the object has been freed.\<close>

definition game_unref :: "game \<Rightarrow> game option outcome" where
  "game_unref g = obind (P (gameLock g)) (\<lambda>l.
     let g' = g\<lparr>game_refCount := game_refCount g - 1, gameLock := V l\<rparr>
     in Inr (if game_refCount g' = 0 then None else Some g'))"

definition game_apply_move :: "game \<Rightarrow> game_move \<Rightarrow> (int \<times> game) outcome" where
  "game_apply_move g m = obind (P (gameLock g)) (\<lambda>l.
     let curIdx = boardIndex m in
     if curIdx > 9 \<or> curIdx < 1 \<or> gameBoard g ! nat (curIdx - 1) \<noteq> CHR '' ''
     then Inr (-1, g\<lparr>gameLock := V l\<rparr>)
     else
       let i = nat (curIdx - 1);
           (boardLetter, role) =
             (if curPlayer m = FIRST_PLAYER_ROLE then (CHR ''X'', SECOND_PLAYER_ROLE)
              else (CHR ''O'', FIRST_PLAYER_ROLE))
       in Inr (0, g\<lparr>curRole := role, gameBoard := (gameBoard g)[i := boardLetter],
                   movesMade := movesMade g + 1, gameLock := V l\<rparr>))"

definition game_resign :: "game \<Rightarrow> game_role \<Rightarrow> (int \<times> game option) outcome" where
  "game_resign g role = obind (P (gameLock g)) (\<lambda>l.
     if terminated g then Inr (-1, Some (g\<lparr>gameLock := V l\<rparr>))
     else
       let g' = g\<lparr>gameWinner := (if role = FIRST_PLAYER_ROLE then SECOND_PLAYER_ROLE
                                  else FIRST_PLAYER_ROLE),
                  gameLock := V l\<rparr>
       in obind (game_unref g') (\<lambda>r. Inr (0, r)))"

text \<open>
  \<open>game_unparse_state\<close> appends to a fresh \<open>malloc\<close>ed buffer of 46 bytes that it does not clear:
  \<open>junk\<close> is the string the buffer happens to hold. Text that does not fit with its terminating
  NUL is a write past the buffer.
\<close>

definition row_text :: "char list \<Rightarrow> nat \<Rightarrow> string" where
  "row_text b i = [b ! i, CHR ''|'', b ! (i + 1), CHR ''|'', b ! (i + 2)] @ [nl]"

definition rule_text :: string where
  "rule_text = ''-----'' @ [nl]"

definition game_unparse_state :: "string \<Rightarrow> game \<Rightarrow> (string \<times> game) outcome" where
  "game_unparse_state junk g = obind (P (gameLock g)) (\<lambda>l.
     let retString = junk @ row_text (gameBoard g) 0 @ rule_text @ row_text (gameBoard g) 3
           @ rule_text @ row_text (gameBoard g) 6
           @ (if curRole g = FIRST_PLAYER_ROLE then ''X to move'' @ [nl]
              else if curRole g = SECOND_PLAYER_ROLE then ''O to move'' @ [nl] else [])
     in if length retString + 1 > 35 + 11 then Inl MemFault
        else Inr (retString, g\<lparr>gameLock := V l\<rparr>))"

text \<open>The eight line checks of \<open>game_is_over\<close>, in the order of the if-chain.\<close>

definition line_full :: "char list \<Rightarrow> nat \<Rightarrow> nat \<Rightarrow> nat \<Rightarrow> bool" where
  "line_full b i j k \<longleftrightarrow> b ! i \<noteq> CHR '' '' \<and> b ! i = b ! j \<and> b ! i = b ! k"

definition winning_letter :: "char list \<Rightarrow> char" where
  "winning_letter b =
     (if line_full b 0 1 2 then b ! 0
      else if line_full b 3 4 5 then b ! 3
      else if line_full b 6 7 8 then b ! 6
      else if line_full b 0 3 6 then b ! 0
      else if line_full b 1 4 7 then b ! 1
      else if line_full b 2 5 8 then b ! 2
      else if line_full b 0 4 8 then b ! 0
      else if line_full b 2 4 6 then b ! 2
      else CHR '' '')"

definition game_is_over :: "game \<Rightarrow> (int \<times> game) outcome" where
  "game_is_over g = obind (P (gameLock g)) (\<lambda>l.
     if movesMade g = 9 then
       Inr (1, g\<lparr>gameWinner := NULL_ROLE, terminated := True, gameLock := V l\<rparr>)
     else
       let winningLetter = winning_letter (gameBoard g) in
       if winningLetter = CHR ''X'' then
         Inr (1, g\<lparr>gameWinner := FIRST_PLAYER_ROLE, terminated := True, gameLock := V l\<rparr>)
       else if winningLetter = CHR ''O'' then
         Inr (1, g\<lparr>gameWinner := SECOND_PLAYER_ROLE, terminated := True, gameLock := V l\<rparr>)
       else Inr (0, g\<lparr>gameLock := V l\<rparr>))"

definition game_get_winner :: "game \<Rightarrow> (game_role \<times> game) outcome" where
  "game_get_winner g = obind (P (gameLock g)) (\<lambda>l. Inr (gameWinner g, g\<lparr>gameLock := V l\<rparr>))"

text \<open>
  The argument is a C string (no NUL inside); reading its first character of an empty string
  gives NUL. \<open>None\<close> is the NULL move.
\<close>

definition first_char :: "string \<Rightarrow> int" where
  "first_char str = (case str of [] \<Rightarrow> 0 | c # _ \<Rightarrow> c_char c)"

definition game_parse_move ::
    "game \<Rightarrow> game_role \<Rightarrow> string \<Rightarrow> (game_move option \<times> game) outcome" where
  "game_parse_move g role str = obind (P (gameLock g)) (\<lambda>l.
     let g' = g\<lparr>gameLock := V l\<rparr> in
     if role \<noteq> NULL_ROLE \<and> curRole g \<noteq> role then Inr (None, g')
     else
       let curIdx = first_char str - 48 in
       if curIdx > 9 \<or> curIdx < 1 then Inr (None, g')
       else
         let cr = (if length str = 4 then
                     (if str ! 3 = CHR ''X'' then FIRST_PLAYER_ROLE
                      else if str ! 3 = CHR ''O'' then SECOND_PLAYER_ROLE
                      else curRole g)
                   else curRole g)
         in Inr (Some \<lparr>boardIndex = curIdx, curPlayer = cr\<rparr>, g'))"

text \<open>
  \<open>game_unparse_move\<close> returns the size it allocates and the string it leaves in the buffer; for a
  move of no player the buffer keeps what it held (\<open>junk\<close>).
\<close>

definition game_unparse_move :: "string \<Rightarrow> game_move \<Rightarrow> nat \<times> string" where
  "game_unparse_move junk m =
     (let intContainer = show_int (boardIndex m);
          curLineLen = length intContainer + length ''<-X''
      in (curLineLen,
          if curPlayer m = FIRST_PLAYER_ROLE then intContainer @ ''<-X''
          else if curPlayer m = SECOND_PLAYER_ROLE then intContainer @ ''<-O''
          else junk))"

subsection \<open>Well-formed games\<close>

definition wf_game :: "game \<Rightarrow> bool" where
  "wf_game g \<longleftrightarrow> length (gameBoard g) = 9
     \<and> set (gameBoard g) \<subseteq> {CHR '' '', CHR ''X'', CHR ''O''}
     \<and> movesMade g = int (length (filter (\<lambda>c. c \<noteq> CHR '' '') (gameBoard g)))
     \<and> curRole g \<noteq> NULL_ROLE"

definition game_ok :: "game \<Rightarrow> bool" where
  "game_ok g \<longleftrightarrow> wf_game g \<and> gameLock g = 1"

named_theorems game_defs \<open>the operations of the game module\<close>

lemmas [game_defs] = game_ref_def game_unref_def game_apply_move_def game_resign_def
  game_unparse_state_def game_is_over_def game_get_winner_def game_parse_move_def

lemma game_create_ok: "game_create True = Some g \<Longrightarrow> game_ok g"
  by (auto simp: game_create_def game_ok_def wf_game_def Let_def)

lemma wf_game_updates [simp]:
  "wf_game (g\<lparr>gameLock := l\<rparr>) = wf_game g"
  "wf_game (g\<lparr>game_refCount := n\<rparr>) = wf_game g"
  "wf_game (g\<lparr>gameWinner := w\<rparr>) = wf_game g"
  "wf_game (g\<lparr>terminated := t\<rparr>) = wf_game g"
  by (simp_all add: wf_game_def)

lemma wf_game_moves: "wf_game g \<Longrightarrow> 0 \<le> movesMade g \<and> movesMade g \<le> 9"
  unfolding wf_game_def by (metis length_filter_le of_nat_0_le_iff of_nat_le_iff of_nat_numeral)

lemma cell_in_range: "wf_game g \<Longrightarrow> i < 9 \<Longrightarrow> gameBoard g ! i \<in> {CHR '' '', CHR ''X'', CHR ''O''}"
  unfolding wf_game_def by (metis nth_mem subset_iff)

text \<open>A legal move fills one blank cell; an illegal one leaves the game as it was.\<close>

definition legal :: "game \<Rightarrow> game_move \<Rightarrow> bool" where
  "legal g m \<longleftrightarrow> 1 \<le> boardIndex m \<and> boardIndex m \<le> 9
     \<and> gameBoard g ! nat (boardIndex m - 1) = CHR '' ''"

definition letter_of :: "game_role \<Rightarrow> char" where
  "letter_of r = (if r = FIRST_PLAYER_ROLE then CHR ''X'' else CHR ''O'')"

definition other_role :: "game_role \<Rightarrow> game_role" where
  "other_role r = (if r = FIRST_PLAYER_ROLE then SECOND_PLAYER_ROLE else FIRST_PLAYER_ROLE)"

definition play :: "game \<Rightarrow> game_move \<Rightarrow> game" where
  "play g m = g\<lparr>curRole := other_role (curPlayer m),
     gameBoard := (gameBoard g)[nat (boardIndex m - 1) := letter_of (curPlayer m)],
     movesMade := movesMade g + 1\<rparr>"

lemma apply_move_cases:
  assumes "gameLock g = 1"
  shows "game_apply_move g m = (if legal g m then Inr (0, play g m) else Inr (-1, g))"
  using assms
  by (auto simp: game_apply_move_def legal_def play_def letter_of_def other_role_def Let_def not_less)

lemma play_wf:
  assumes "wf_game g" and "legal g m"
  shows "wf_game (play g m)"
proof -
  let ?i = "nat (boardIndex m - 1)"
  from assms have i: "?i < length (gameBoard g)" "gameBoard g ! ?i = CHR '' ''"
    by (auto simp: wf_game_def legal_def)
  have "length (filter (\<lambda>c. c \<noteq> CHR '' '') ((gameBoard g)[?i := letter_of (curPlayer m)]))
      = Suc (length (filter (\<lambda>c. c \<noteq> CHR '' '') (gameBoard g)))"
    using i by (intro list_update_filter_length) (auto simp: letter_of_def)
  moreover have "set ((gameBoard g)[?i := letter_of (curPlayer m)])
      \<subseteq> {CHR '' '', CHR ''X'', CHR ''O''}"
    using assms(1) set_update_subset_insert [of "gameBoard g" ?i "letter_of (curPlayer m)"]
    by (auto simp: wf_game_def letter_of_def)
  ultimately show ?thesis
    using assms(1) by (simp add: wf_game_def play_def other_role_def)
qed

subsection \<open>Reachable games\<close>

text \<open>
  Any interleaving of the operations on one game object: each rule is one completed call, with
  arbitrary arguments (the moves need not come from \<open>game_parse_move\<close>).
\<close>

inductive game_step :: "game \<Rightarrow> game \<Rightarrow> bool" where
  ref: "game_ref g = Inr g' \<Longrightarrow> game_step g g'"
| unref: "game_unref g = Inr (Some g') \<Longrightarrow> game_step g g'"
| apply_move: "game_apply_move g m = Inr (r, g') \<Longrightarrow> game_step g g'"
| resign: "game_resign g role = Inr (r, Some g') \<Longrightarrow> game_step g g'"
| unparse: "game_unparse_state junk g = Inr (str, g') \<Longrightarrow> game_step g g'"
| is_over: "game_is_over g = Inr (r, g') \<Longrightarrow> game_step g g'"
| winner: "game_get_winner g = Inr (w, g') \<Longrightarrow> game_step g g'"
| parse: "game_parse_move g role str = Inr (m, g') \<Longrightarrow> game_step g g'"

inductive game_reach :: "game \<Rightarrow> bool" where
  start: "game_create True = Some g \<Longrightarrow> game_reach g"
| step: "game_reach g \<Longrightarrow> game_step g g' \<Longrightarrow> game_reach g'"

lemma game_step_ok: "game_step g g' \<Longrightarrow> game_ok g \<Longrightarrow> game_ok g'"
proof (induction rule: game_step.induct)
  case (apply_move g m r g')
  then show ?case
    by (auto simp: game_ok_def apply_move_cases play_wf play_def split: if_splits)
      (use play_wf play_def in metis)
qed (auto simp: game_ok_def game_defs Let_def split: if_splits)

lemma game_reach_ok: "game_reach g \<Longrightarrow> game_ok g"
  by (induction rule: game_reach.induct) (auto intro: game_create_ok game_step_ok)

interpretation game_rc: refcounted game_refCount "\<lambda>g. gameLock g = 1" game_ref game_unref 1
  by unfold_locales (auto simp: game_ref_def game_unref_def Let_def)

inductive_cases game_step_applyE: "game_step g g'"

subsection \<open>Properties\<close>

definition win_lines :: "nat list list" where
  "win_lines = [[0,1,2],[3,4,5],[6,7,8],[0,3,6],[1,4,7],[2,5,8],[0,4,8],[2,4,6]]"

definition has_line :: "char list \<Rightarrow> char \<Rightarrow> bool" where
  "has_line b c \<longleftrightarrow> list_ex (\<lambda>L. list_all (\<lambda>i. b ! i = c) L) win_lines"

lemma line_has_line: "line_full b i j k \<Longrightarrow> [i, j, k] \<in> set win_lines \<Longrightarrow> has_line b (b ! i)"
  by (auto simp: has_line_def line_full_def list_ex_iff intro!: bexI [of _ "[i, j, k]"])

lemma has_line_full:
  assumes "c \<noteq> CHR '' ''" and "has_line b c"
  shows "\<exists>i j k. [i, j, k] \<in> set win_lines \<and> line_full b i j k"
proof -
  from assms(2) obtain L where L: "L \<in> set win_lines" "\<forall>x \<in> set L. b ! x = c"
    by (auto simp: has_line_def list_ex_iff list_all_iff)
  from L(1) have "length L = 3" by (auto simp: win_lines_def)
  then obtain i j k where "L = [i, j, k]"
    by (auto simp: numeral_eq_Suc length_Suc_conv)
  with L assms(1) have "[i, j, k] \<in> set win_lines" "line_full b i j k"
    by (simp_all add: line_full_def)
  then show ?thesis by blast
qed

lemma winning_letter_line:
  assumes "c \<noteq> CHR '' ''" and "winning_letter b = c"
  shows "has_line b c"
proof -
  note full = line_has_line [of b 0 1 2] line_has_line [of b 3 4 5] line_has_line [of b 6 7 8]
    line_has_line [of b 0 3 6] line_has_line [of b 1 4 7] line_has_line [of b 2 5 8]
    line_has_line [of b 0 4 8] line_has_line [of b 2 4 6]
  show ?thesis
    using assms full unfolding winning_letter_def win_lines_def by (simp split: if_splits)
qed

lemma line_winning_letter:
  assumes "c \<noteq> CHR '' ''" and "has_line b c"
  shows "winning_letter b \<noteq> CHR '' ''"
proof
  assume blank: "winning_letter b = CHR '' ''"
  have head: "line_full b i j k \<Longrightarrow> b ! i \<noteq> CHR '' ''" for i j k
    unfolding line_full_def by blast
  from blank head have "\<not> line_full b 0 1 2 \<and> \<not> line_full b 3 4 5 \<and> \<not> line_full b 6 7 8
      \<and> \<not> line_full b 0 3 6 \<and> \<not> line_full b 1 4 7 \<and> \<not> line_full b 2 5 8
      \<and> \<not> line_full b 0 4 8 \<and> \<not> line_full b 2 4 6"
    unfolding winning_letter_def by (simp split: if_splits)
  with has_line_full [OF assms] show False by (auto simp: win_lines_def)
qed

lemma winning_letter_cells: "wf_game g \<Longrightarrow> winning_letter (gameBoard g) \<in> {CHR '' '', CHR ''X'', CHR ''O''}"
  using cell_in_range [of g] unfolding winning_letter_def by simp

lemma not_over:
  assumes "game_ok g" and "movesMade g \<noteq> 9"
    and "\<not> has_line (gameBoard g) CHR ''X''" and "\<not> has_line (gameBoard g) CHR ''O''"
  shows "game_is_over g = Inr (0, g)"
proof -
  from assms(1) have wf: "wf_game g" and l: "gameLock g = 1" by (auto simp: game_ok_def)
  have "winning_letter (gameBoard g) \<noteq> CHR ''X''" "winning_letter (gameBoard g) \<noteq> CHR ''O''"
    using winning_letter_line [of "CHR ''X''" "gameBoard g"]
      winning_letter_line [of "CHR ''O''" "gameBoard g"] assms(3,4) by auto
  then show ?thesis using l assms(2) by (simp add: game_is_over_def Let_def)
qed

lemma winning_letter_X:
  assumes "wf_game g" and "has_line (gameBoard g) CHR ''X''" and "\<not> has_line (gameBoard g) CHR ''O''"
  shows "winning_letter (gameBoard g) = CHR ''X''"
  using winning_letter_cells [OF assms(1)] line_winning_letter [OF _ assms(2)]
    winning_letter_line [of "CHR ''O''"] assms(3) by auto

lemma winning_letter_O:
  assumes "wf_game g" and "has_line (gameBoard g) CHR ''O''" and "\<not> has_line (gameBoard g) CHR ''X''"
  shows "winning_letter (gameBoard g) = CHR ''O''"
  using winning_letter_cells [OF assms(1)] line_winning_letter [OF _ assms(2)]
    winning_letter_line [of "CHR ''X''"] assms(3) by auto

text \<open>
  C3. Every game object reachable by any sequence of calls of the module has a 9-cell board over
  blank, X and O, counts exactly its filled cells in \<open>movesMade\<close> (so never more than 9), always has
  a player to move, and is left unlocked by every call.
\<close>

theorem game_reachable_invariant:
  assumes "game_reach g"
  shows "wf_game g \<and> 0 \<le> movesMade g \<and> movesMade g \<le> 9 \<and> gameLock g = 1"
  using game_reach_ok [OF assms] wf_game_moves by (auto simp: game_ok_def)

definition game_start :: game where
  "game_start = the (game_create True)"

definition game_of :: "game_role \<Rightarrow> string \<Rightarrow> game" where
  "game_of role b = game_start\<lparr>curRole := role, gameBoard := b,
     movesMade := int (length (filter (\<lambda>c. c \<noteq> CHR '' '') b))\<rparr>"

lemmas game_eval = game_of_def game_start_def game_create_def game_defs wf_game_def game_ok_def
  winning_letter_def line_full_def has_line_def win_lines_def numeral_eq_Suc

theorem game_reachable_invariant_witness:
  "game_reach game_start \<and> wf_game game_start \<and> gameLock game_start = 1"
proof -
  have "game_reach game_start"
    by (rule game_reach.start) (simp add: game_start_def game_create_def Let_def)
  with game_reachable_invariant [OF this] show ?thesis by simp
qed



text \<open>
  C6. Before the ninth move, \<open>game_is_over\<close> answers 1 exactly when one of the eight lines is filled
  with one letter, and when only one player has such a line that player becomes the winner; it
  answers 0 and leaves the object unchanged otherwise.
\<close>

theorem game_is_over_spec:
  assumes "game_ok g" and "movesMade g \<noteq> 9"
  shows "\<exists>r g'. game_is_over g = Inr (r, g')
    \<and> (r = 1 \<longleftrightarrow> has_line (gameBoard g) CHR ''X'' \<or> has_line (gameBoard g) CHR ''O'')
    \<and> (r \<noteq> 1 \<longrightarrow> r = 0 \<and> g' = g)
    \<and> (has_line (gameBoard g) CHR ''X'' \<and> \<not> has_line (gameBoard g) CHR ''O'' \<longrightarrow>
         g' = g\<lparr>gameWinner := FIRST_PLAYER_ROLE, terminated := True\<rparr>)
    \<and> (has_line (gameBoard g) CHR ''O'' \<and> \<not> has_line (gameBoard g) CHR ''X'' \<longrightarrow>
         g' = g\<lparr>gameWinner := SECOND_PLAYER_ROLE, terminated := True\<rparr>)"
proof -
  from assms have wf: "wf_game g" and l: "gameLock g = 1" by (auto simp: game_ok_def)
  let ?w = "winning_letter (gameBoard g)"
  have cells: "?w \<in> {CHR '' '', CHR ''X'', CHR ''O''}" by (rule winning_letter_cells [OF wf])
  have X: "?w = CHR ''X'' \<Longrightarrow> has_line (gameBoard g) CHR ''X''"
    and O: "?w = CHR ''O'' \<Longrightarrow> has_line (gameBoard g) CHR ''O''"
    by (simp_all add: winning_letter_line)
  have B: "?w = CHR '' '' \<Longrightarrow>
      \<not> has_line (gameBoard g) CHR ''X'' \<and> \<not> has_line (gameBoard g) CHR ''O''"
    using line_winning_letter [of "CHR ''X''"] line_winning_letter [of "CHR ''O''"] by fastforce
  have r: "game_is_over g = (if ?w = CHR ''X'' then
        Inr (1, g\<lparr>gameWinner := FIRST_PLAYER_ROLE, terminated := True\<rparr>)
      else if ?w = CHR ''O'' then
        Inr (1, g\<lparr>gameWinner := SECOND_PLAYER_ROLE, terminated := True\<rparr>)
      else Inr (0, g))"
    using l assms(2) by (simp add: game_is_over_def Let_def)
  from cells consider "?w = CHR '' ''" | "?w = CHR ''X''" | "?w = CHR ''O''" by auto
  then show ?thesis
  proof cases
    case 1
    with B r show ?thesis by simp
  next
    case 2
    with X r winning_letter_O [OF wf] show ?thesis by auto
  next
    case 3
    with O r winning_letter_X [OF wf] show ?thesis by auto
  qed
qed

theorem game_is_over_spec_witness:
  "game_ok (game_of SECOND_PLAYER_ROLE ''XXXOO    '')
   \<and> (\<exists>r g'. game_is_over (game_of SECOND_PLAYER_ROLE ''XXXOO    '') = Inr (r, g') \<and> r = 1
        \<and> gameWinner g' = FIRST_PLAYER_ROLE)"
proof -
  let ?g = "game_of SECOND_PLAYER_ROLE ''XXXOO    ''"
  have ok: "game_ok ?g" by (simp add: game_eval)
  have n: "movesMade ?g \<noteq> 9" by (simp add: game_eval)
  have X: "has_line (gameBoard ?g) CHR ''X''" and O: "\<not> has_line (gameBoard ?g) CHR ''O''"
    by (simp_all add: game_eval)
  show ?thesis using game_is_over_spec [OF ok n] ok X O by auto
qed

text \<open>
  C36. The move that fills the ninth cell always ends in a draw: whatever line it completes, the next
  \<open>game_is_over\<close> answers 1 with no winner, because the move count is tested before the lines.
\<close>

theorem game_ninth_move_is_draw:
  assumes "game_ok g" and "movesMade g = 8" and "game_apply_move g m = Inr (0, g')"
  shows "\<exists>g''. game_is_over g' = Inr (1, g'') \<and> gameWinner g'' = NULL_ROLE \<and> terminated g''"
  using assms by (auto simp: game_ok_def apply_move_cases play_def game_is_over_def split: if_splits)

theorem game_ninth_move_is_draw_witness:
  "let g = game_of FIRST_PLAYER_ROLE ''XX OOXOXO'';
       m = \<lparr>boardIndex = 3, curPlayer = FIRST_PLAYER_ROLE\<rparr>
   in has_line (gameBoard (play g m)) CHR ''X''
      \<and> (\<exists>g''. game_is_over (play g m) = Inr (1, g'') \<and> gameWinner g'' = NULL_ROLE)"
proof -
  let ?g = "game_of FIRST_PLAYER_ROLE ''XX OOXOXO''"
  let ?m = "\<lparr>boardIndex = 3, curPlayer = FIRST_PLAYER_ROLE\<rparr>"
  have ok: "game_ok ?g" by (simp add: game_eval)
  have n: "movesMade ?g = 8" by (simp add: game_eval)
  have "legal ?g ?m" by (simp add: legal_def game_eval)
  then have a: "game_apply_move ?g ?m = Inr (0, play ?g ?m)"
    using ok by (simp add: apply_move_cases game_ok_def)
  have "has_line (gameBoard (play ?g ?m)) CHR ''X''"
    by (simp add: play_def letter_of_def game_eval)
  with game_ninth_move_is_draw [OF ok n a] show ?thesis by (auto simp: Let_def)
qed



text \<open>
  The text of a move of either player fills the whole allocation, so that its terminating NUL is
  written one byte past the buffer.
\<close>

lemma game_unparse_move_size:
  "curPlayer m \<noteq> NULL_ROLE \<Longrightarrow> length (snd (game_unparse_move junk m)) = fst (game_unparse_move junk m)"
  by (cases "curPlayer m") (auto simp: game_unparse_move_def Let_def)

text \<open>
  On a buffer that happens to start empty, \<open>game_unparse_state\<close> of a well-formed game returns 40
  characters (within its 46-byte buffer) from which every cell of the board can be read back, and
  leaves the game as it was.
\<close>

theorem game_unparse_state_readable:
  assumes "game_ok g"
  shows "\<exists>str. game_unparse_state [] g = Inr (str, g) \<and> length str = 40
    \<and> (\<forall>i < 9. str ! (12 * (i div 3) + 2 * (i mod 3)) = gameBoard g ! i)"
proof -
  let ?b = "gameBoard g"
  let ?tail = "if curRole g = FIRST_PLAYER_ROLE then ''X to move'' @ [nl] else ''O to move'' @ [nl]"
  let ?str = "row_text ?b 0 @ rule_text @ row_text ?b 3 @ rule_text @ row_text ?b 6 @ ?tail"
  have "curRole g \<noteq> NULL_ROLE" using assms by (simp add: game_ok_def wf_game_def)
  then have "game_unparse_state [] g = Inr (?str, g)"
    using assms by (cases "curRole g")
      (auto simp: game_unparse_state_def game_ok_def row_text_def rule_text_def Let_def)
  moreover have "length ?str = 40" by (simp add: row_text_def rule_text_def)
  moreover have "?str ! (12 * (i div 3) + 2 * (i mod 3)) = ?b ! i" if "i < 9" for i
  proof -
    from that have "i = 0 \<or> i = 1 \<or> i = 2 \<or> i = 3 \<or> i = 4 \<or> i = 5 \<or> i = 6 \<or> i = 7 \<or> i = 8"
      by arith
    then show ?thesis
      by (elim disjE) (simp_all add: row_text_def rule_text_def numeral_2_eq_2 [symmetric] del: One_nat_def)
  qed
  ultimately show ?thesis by blast
qed

theorem game_unparse_state_readable_witness:
  "game_ok game_start \<and> (\<exists>str. game_unparse_state [] game_start = Inr (str, game_start) \<and> length str = 40)"
proof -
  have ok: "game_ok game_start" by (simp add: game_eval)
  with game_unparse_state_readable [OF ok] show ?thesis by blast
qed

text \<open>Runs of moves: how many of the moves are accepted.\<close>

fun accepted :: "game \<Rightarrow> game_move list \<Rightarrow> nat outcome" where
  "accepted g [] = Inr 0"
| "accepted g (m # ms) = obind (game_apply_move g m) (\<lambda>(r, g').
     obind (accepted g' ms) (\<lambda>n. Inr (if r = 0 then Suc n else n)))"

text \<open>
  A game ends after at most nine accepted moves: for any list of moves, legal or not, every call
  returns and the number of accepted ones is at most nine less the moves already made.
\<close>

theorem game_accepted_bound:
  assumes "game_ok g"
  shows "\<exists>n. accepted g ms = Inr n \<and> int n + movesMade g \<le> 9"
  using assms
proof (induction ms arbitrary: g)
  case Nil
  then show ?case using wf_game_moves by (auto simp: game_ok_def)
next
  case (Cons m ms)
  have lock: "gameLock g = 1" using Cons.prems by (simp add: game_ok_def)
  show ?case
  proof (cases "legal g m")
    case True
    then have "game_ok (play g m)"
      using Cons.prems play_wf [of g m] by (simp add: game_ok_def play_def)
    from Cons.IH [OF this] obtain n
      where "accepted (play g m) ms = Inr n" "int n + movesMade (play g m) \<le> 9" by blast
    with True lock show ?thesis by (simp add: apply_move_cases play_def)
  next
    case False
    with Cons.IH [OF Cons.prems] lock show ?thesis by (auto simp: apply_move_cases)
  qed
qed

theorem game_accepted_bound_witness:
  "game_ok game_start \<and> (\<exists>n. accepted game_start
     [\<lparr>boardIndex = 1, curPlayer = FIRST_PLAYER_ROLE\<rparr>, \<lparr>boardIndex = 1, curPlayer = SECOND_PLAYER_ROLE\<rparr>]
     = Inr n \<and> int n \<le> 9)"
proof -
  have ok: "game_ok game_start" by (simp add: game_eval)
  have "0 \<le> movesMade game_start" by (simp add: game_eval)
  with ok game_accepted_bound [OF ok, of "[\<lparr>boardIndex = 1, curPlayer = FIRST_PLAYER_ROLE\<rparr>,
      \<lparr>boardIndex = 1, curPlayer = SECOND_PLAYER_ROLE\<rparr>]"] show ?thesis by fastforce
qed

text \<open>
  A fresh game (count 2) survives one release and is freed by the second; in general an unlocked
  game with count \<open>n\<close> lives through any fewer than \<open>n\<close> releases and is freed by exactly the \<open>n\<close>th.
\<close>

theorem game_lifetime:
  assumes "gameLock g = 1" and "game_refCount g = int n" and "0 < n"
  shows "iter_unref game_unref n g = Inr None
    \<and> (\<forall>k<n. \<exists>g'. iter_unref game_unref k g = Inr (Some g') \<and> game_refCount g' = game_refCount g - int k)"
  by (rule game_rc.lifetime [OF assms])

theorem game_lifetime_witness:
  "game_create True = Some game_start \<and> iter_unref game_unref 2 game_start = Inr None
   \<and> iter_unref game_unref 1 game_start \<noteq> Inr None"
proof -
  have c: "game_create True = Some game_start" by (simp add: game_start_def game_create_def Let_def)
  have l: "gameLock game_start = 1" and n: "game_refCount game_start = int 2"
    by (simp_all add: game_start_def game_create_def Let_def)
  have p: "0 < (2::nat)" and k: "1 < (2::nat)" by simp_all
  note life = game_lifetime [OF l n p]
  from life have "iter_unref game_unref 2 game_start = Inr None" by (rule conjunct1)
  moreover from life k obtain g' where "iter_unref game_unref 1 game_start = Inr (Some g')" by blast
  ultimately show ?thesis using c by simp
qed

text \<open>
  Resigning does not terminate the game: on an unlocked, unfinished game of count other than 1 the
  resignation names the other player as winner and drops one reference, but \<open>terminated\<close> stays
  false, so a second resignation is accepted too; on a game of count 2 it frees the object.
\<close>

theorem game_resign_spec:
  assumes "gameLock g = 1" and "\<not> terminated g" and "game_refCount g \<noteq> 1"
  shows "\<exists>g'. game_resign g role = Inr (0, Some g') \<and> gameWinner g' = other_role role
    \<and> \<not> terminated g' \<and> game_refCount g' = game_refCount g - 1 \<and> gameLock g' = 1
    \<and> (game_refCount g = 2 \<longrightarrow> game_resign g' role' = Inr (0, None))"
  using assms by (auto simp: game_resign_def game_unref_def other_role_def Let_def)

theorem game_resign_spec_witness:
  "\<exists>g'. game_resign game_start FIRST_PLAYER_ROLE = Inr (0, Some g')
     \<and> gameWinner g' = SECOND_PLAYER_ROLE \<and> game_resign g' FIRST_PLAYER_ROLE = Inr (0, None)"
proof -
  have h: "gameLock game_start = 1" "\<not> terminated game_start" "game_refCount game_start \<noteq> 1"
    and c: "game_refCount game_start = 2"
    by (simp_all add: game_start_def game_create_def Let_def)
  from game_resign_spec [OF h, of FIRST_PLAYER_ROLE FIRST_PLAYER_ROLE] c show ?thesis
    by (auto simp: other_role_def)
qed

end
