(* ===== verification/Player.thy ===== *)
theory Player
  imports Interfaces
begin

section \<open>Players and ratings (hw5/src/player.c)\<close>

text \<open>
  The \<open>PLAYER\<close> object and the operations of \<open>player.c\<close>. Players are shared by pointer between the
  registry, the clients and the games, so they live in a store; a pointer is \<open>nat option\<close> with
  \<open>None\<close> for NULL, and a pointer to a freed player is a memory fault. The Elo arithmetic is done on
  exact rationals where the code uses \<open>double\<close>: the exponent is an integer (an integer division in
  the code), and for rating differences below 4000 the two agree.
\<close>

record player =
  playerName :: string
  player_refCount :: int
  rating :: int
  playerLock :: sem

type_synonym pptr = "nat option"
type_synonym pstore = "nat \<rightharpoonup> player"

definition NAME_MAX_LENGTH :: nat where
  "NAME_MAX_LENGTH = 100"

definition PLAYER_INITIAL_RATING :: int where
  "PLAYER_INITIAL_RATING = 1500"

subsection \<open>Operations\<close>

text \<open>
  The name is appended to a zeroed array of \<open>NAME_MAX_LENGTH\<close> bytes without a length check: a name
  that leaves no room for the NUL is written past it. \<open>None\<close> is the NULL of a failed \<open>sem_init\<close>.
\<close>

definition player_create :: "bool \<Rightarrow> string \<Rightarrow> player option outcome" where
  "player_create sem_ok name =
     (if \<not> sem_ok then Inr None
      else if length name + 1 > NAME_MAX_LENGTH then Inl MemFault
      else Inr (Some \<lparr>playerName = name, player_refCount = 1,
                      rating = PLAYER_INITIAL_RATING, playerLock = 1\<rparr>))"

text \<open>The bodies, after the NULL test, on the object; then the calls on pointers.\<close>

definition player_ref_body :: "player \<Rightarrow> player outcome" where
  "player_ref_body p = obind (P (playerLock p)) (\<lambda>l.
     let p1 = p\<lparr>player_refCount := player_refCount p + 1\<rparr>;
         p2 = p1\<lparr>player_refCount := player_refCount p1 + 1\<rparr>
     in Inr (p2\<lparr>playerLock := V l\<rparr>))"

definition player_unref_body :: "player \<Rightarrow> player option outcome" where
  "player_unref_body p = obind (P (playerLock p)) (\<lambda>l.
     let p' = p\<lparr>player_refCount := player_refCount p - 1, playerLock := V l\<rparr>;
         isZero = (player_refCount p' = 0)
     in Inr (if isZero then None else Some p'))"

definition deref_player :: "pptr \<Rightarrow> pstore \<Rightarrow> player outcome" where
  "deref_player q st = (case q of None \<Rightarrow> Inl MemFault
     | Some a \<Rightarrow> (case st a of None \<Rightarrow> Inl MemFault | Some p \<Rightarrow> Inr p))"

definition player_ref :: "pptr \<Rightarrow> (pstore, pptr) action" where
  "player_ref q st = (case q of None \<Rightarrow> Inr (None, st)
     | Some a \<Rightarrow> obind (deref_player q st) (\<lambda>p. obind (player_ref_body p) (\<lambda>p'.
         Inr (q, st(a \<mapsto> p')))))"

definition player_unref :: "pptr \<Rightarrow> (pstore, unit) action" where
  "player_unref q st = (case q of None \<Rightarrow> Inr ((), st)
     | Some a \<Rightarrow> obind (deref_player q st) (\<lambda>p. obind (player_unref_body p) (\<lambda>r.
         Inr ((), st(a := r)))))"

definition player_get_name :: "pptr \<Rightarrow> pstore \<Rightarrow> string option outcome" where
  "player_get_name q st = (case q of None \<Rightarrow> Inr None
     | Some a \<Rightarrow> obind (deref_player q st) (\<lambda>p. Inr (Some (playerName p))))"

definition player_get_rating :: "pptr \<Rightarrow> pstore \<Rightarrow> int outcome" where
  "player_get_rating q st = (case q of None \<Rightarrow> Inr 0
     | Some a \<Rightarrow> obind (deref_player q st) (\<lambda>p. Inr (rating p)))"

text \<open>
  \<open>player_post_result\<close>: scores, expectations with the integer quotient of the rating difference as
  exponent, new ratings truncated towards zero on assignment to \<open>int\<close>.
\<close>

definition pow10 :: "int \<Rightarrow> rat" where
  "pow10 k = (if 0 \<le> k then 10 ^ nat k else 1 / 10 ^ nat (- k))"

definition elo_score :: "int \<Rightarrow> rat \<times> rat" where
  "elo_score result = (if result = 0 then (1/2, 1/2) else if result = 1 then (1, 0) else (0, 1))"

definition elo_expect :: "int \<Rightarrow> int \<Rightarrow> rat" where
  "elo_expect Rself Rother = 1 / (1 + pow10 (c_div (Rother - Rself) 400))"

definition elo_new :: "int \<Rightarrow> rat \<Rightarrow> rat \<Rightarrow> int" where
  "elo_new R S E = c_trunc (of_int R + 32 * (S - E))"

definition set_rating :: "pptr \<Rightarrow> int \<Rightarrow> (pstore, unit) action" where
  "set_rating q r st = obind (deref_player q st) (\<lambda>p. obind (P (playerLock p)) (\<lambda>l.
     Inr ((), st(the q \<mapsto> p\<lparr>rating := r, playerLock := V l\<rparr>))))"

definition read_rating :: "pptr \<Rightarrow> (pstore, int) action" where
  "read_rating q st = obind (deref_player q st) (\<lambda>p. obind (P (playerLock p)) (\<lambda>l.
     Inr (rating p, st(the q \<mapsto> p\<lparr>playerLock := V l\<rparr>))))"

definition player_post_result :: "pptr \<Rightarrow> pptr \<Rightarrow> int \<Rightarrow> (pstore, unit) action" where
  "player_post_result player1 player2 result =
     (let (S1, S2) = elo_score result in
      bnd (read_rating player1) (\<lambda>R1. bnd (read_rating player2) (\<lambda>R2.
      let newR1 = elo_new R1 S1 (elo_expect R1 R2);
          newR2 = elo_new R2 S2 (elo_expect R2 R1)
      in sq (set_rating player1 newR1) (set_rating player2 newR2))))"

interpretation player_rc: refcounted player_refCount "\<lambda>p. playerLock p = 1"
    player_ref_body player_unref_body 2
  by unfold_locales (auto simp: player_ref_body_def player_unref_body_def Let_def)

subsection \<open>Lemmas on the arithmetic\<close>

lemma pow10_pos [simp]: "0 < pow10 k"
  by (simp add: pow10_def)

lemma pow10_neq [simp]: "pow10 k \<noteq> 0"
  using pow10_pos [of k] by (rule order.strict_implies_not_eq [symmetric])

lemma pow10_minus: "pow10 (- k) = 1 / pow10 k"
  by (simp add: pow10_def)

lemma elo_score_cases:
  "fst (elo_score r) + snd (elo_score r) = 1 \<and> 0 \<le> fst (elo_score r) \<and> fst (elo_score r) \<le> 1"
  by (simp add: elo_score_def)

lemma elo_expect_bounds: "0 < elo_expect a b" "elo_expect a b < 1"
proof -
  have "0 < pow10 (c_div (b - a) 400)" by simp
  then show "0 < elo_expect a b" "elo_expect a b < 1"
    unfolding elo_expect_def by (simp_all add: field_simps add_pos_pos)
qed

lemma elo_expect_sum: "elo_expect a b + elo_expect b a = 1"
proof -
  let ?x = "pow10 (c_div (b - a) 400)"
  have m: "c_div (a - b) 400 = - c_div (b - a) 400"
    using c_div_minus [of "b - a" 400] by simp
  have p: "0 < ?x" by simp
  then have n: "1 + ?x \<noteq> 0" by (metis add_pos_pos less_irrefl zero_less_one)
  have "1 + 1 / ?x = (1 + ?x) / ?x" using p by (simp add: field_simps)
  then have "1 / (1 + 1 / ?x) = ?x / (1 + ?x)" by simp
  moreover have "1 / (1 + ?x) + ?x / (1 + ?x) = (1 + ?x) / (1 + ?x)"
    by (simp only: add_divide_distrib)
  ultimately have "1 / (1 + ?x) + 1 / (1 + 1 / ?x) = (1 + ?x) / (1 + ?x)" by (simp only:)
  with n show ?thesis unfolding elo_expect_def m pow10_minus by simp
qed

lemma elo_expect_close: "\<bar>a - b\<bar> < 400 \<Longrightarrow> elo_expect a b = 1/2"
proof -
  assume "\<bar>a - b\<bar> < 400"
  then have "c_div (b - a) 400 = 0" by (simp add: c_div_def)
  then show ?thesis by (simp add: elo_expect_def pow10_def)
qed

lemma c_trunc_nonneg: "0 \<le> x \<Longrightarrow> c_trunc x = \<lfloor>x\<rfloor>"
  by (simp add: c_trunc_def)

lemma floor_sum_opposite: "\<lfloor>of_int a + d :: rat\<rfloor> + \<lfloor>of_int b - d\<rfloor> \<in> {a + b - 1, a + b}"
proof -
  have "\<lfloor>of_int a + d\<rfloor> = a + \<lfloor>d\<rfloor>" by simp
  moreover have "\<lfloor>of_int b - d\<rfloor> = b - \<lceil>d\<rceil>"
    by (metis add.commute ceiling_def diff_conv_add_uminus floor_add_int minus_minus uminus_add_conv_diff)
  moreover have "\<lceil>d\<rceil> = \<lfloor>d\<rfloor> \<or> \<lceil>d\<rceil> = \<lfloor>d\<rfloor> + 1"
    using ceiling_diff_floor_le_1 [of d] floor_le_ceiling [of d] by linarith
  ultimately show ?thesis by auto
qed

text \<open>The call on two distinct, unlocked players: read both ratings, then write both.\<close>

lemma post_result_eq:
  assumes "st a = Some p" "st b = Some q" "playerLock p = 1" "playerLock q = 1" "a \<noteq> b"
  shows "player_post_result (Some a) (Some b) result st =
    Inr ((), st(a \<mapsto> p\<lparr>rating := elo_new (rating p) (fst (elo_score result)) (elo_expect (rating p) (rating q))\<rparr>,
               b \<mapsto> q\<lparr>rating := elo_new (rating q) (snd (elo_score result)) (elo_expect (rating q) (rating p))\<rparr>))"
proof -
  have "p\<lparr>playerLock := Suc 0\<rparr> = p" "q\<lparr>playerLock := Suc 0\<rparr> = q" using assms by simp_all
  moreover have "p\<lparr>rating := r, playerLock := Suc 0\<rparr> = p\<lparr>rating := r\<rparr>"
      "q\<lparr>rating := r, playerLock := Suc 0\<rparr> = q\<lparr>rating := r\<rparr>" for r using assms by simp_all
  moreover have "st(a \<mapsto> p, b \<mapsto> q) = st" using assms by (auto simp: fun_upd_def)
  ultimately show ?thesis
    using assms unfolding player_post_result_def
    by (auto simp: bnd_def sq_def read_rating_def set_rating_def deref_player_def Let_def
        split: prod.splits)
qed

subsection \<open>Properties\<close>

definition mk_player :: "string \<Rightarrow> int \<Rightarrow> player" where
  "mk_player n r = \<lparr>playerName = n, player_refCount = 1, rating = r, playerLock = 1\<rparr>"

lemmas player_eval = mk_player_def player_post_result_def elo_score_def elo_expect_def elo_new_def
  pow10_def c_div_def c_trunc_def


definition two_players :: "int \<Rightarrow> int \<Rightarrow> pstore" where
  "two_players r s = [0 \<mapsto> mk_player ''ann'' r, 1 \<mapsto> mk_player ''bob'' s]"

lemma two_players:
  "two_players r s 0 = Some (mk_player ''ann'' r)" "two_players r s 1 = Some (mk_player ''bob'' s)"
  "playerLock (mk_player n r) = 1" "rating (mk_player n r) = r" "(0::nat) \<noteq> 1"
  by (simp_all add: two_players_def mk_player_def)


text \<open>
  Because the rating difference is divided as an integer, two players less than 400 points apart
  are treated as equal: a draw changes neither rating, a win moves exactly 16 points from the loser
  to the winner.
\<close>

theorem player_post_result_close:
  assumes "st a = Some p" "st b = Some q" "playerLock p = 1" "playerLock q = 1" "a \<noteq> b"
    and "\<bar>rating p - rating q\<bar> < 400"
  shows "player_post_result (Some a) (Some b) 0 st = Inr ((), st)
    \<and> player_post_result (Some a) (Some b) 1 st
        = Inr ((), st(a \<mapsto> p\<lparr>rating := rating p + 16\<rparr>, b \<mapsto> q\<lparr>rating := rating q - 16\<rparr>))"
proof -
  have E: "elo_expect (rating p) (rating q) = 1/2" "elo_expect (rating q) (rating p) = 1/2"
    using assms(6) by (simp_all add: elo_expect_close abs_minus_commute)
  have t: "c_trunc (of_int r :: rat) = r" for r by (simp add: c_trunc_def)
  have n: "elo_new r (1/2) (1/2) = r" "elo_new r 1 (1/2) = r + 16" "elo_new r 0 (1/2) = r - 16" for r
    using t [of r] t [of "r + 16"] t [of "r - 16"] by (simp_all add: elo_new_def)
  have "st(a \<mapsto> p, b \<mapsto> q) = st" using assms(1,2,5) by (auto simp: fun_upd_def)
  then show ?thesis
    using post_result_eq [OF assms(1-5), of 0] post_result_eq [OF assms(1-5), of 1]
    by (simp add: E n elo_score_def)
qed

theorem player_post_result_close_witness:
  "player_post_result (Some 0) (Some 1) 0 (two_players 1899 1500) = Inr ((), two_players 1899 1500)"
proof -
  have h: "\<bar>rating (mk_player ''ann'' 1899) - rating (mk_player ''bob'' 1500)\<bar> < 400"
    by (simp add: two_players)
  from player_post_result_close [OF two_players(1,2,3,3,5) h] show ?thesis by (rule conjunct1)
qed

text \<open>
  \<open>player_ref\<close> takes two references where its matching release gives one back: \<open>n\<close> references
  followed by \<open>n\<close> releases leave an unlocked live player with \<open>n\<close> references too many.
\<close>

theorem player_ref_leaks:
  assumes "playerLock p = 1" and "0 < player_refCount p"
  shows "\<exists>p' p''. iter_ref player_ref_body n p = Inr p'
    \<and> iter_unref player_unref_body n p' = Inr (Some p'') \<and> playerLock p'' = 1
    \<and> player_refCount p'' = player_refCount p + int n"
  using player_rc.ref_unref_balance [OF assms, of n] by simp

theorem player_ref_leaks_witness:
  "\<exists>p' p''. iter_ref player_ref_body 3 (mk_player ''ann'' 1500) = Inr p'
    \<and> iter_unref player_unref_body 3 p' = Inr (Some p'') \<and> player_refCount p'' = 4"
proof -
  have h: "playerLock (mk_player ''ann'' 1500) = 1" "0 < player_refCount (mk_player ''ann'' 1500)"
    by (simp_all add: mk_player_def)
  have "player_refCount (mk_player ''ann'' 1500) + int 3 = 4" by (simp add: mk_player_def)
  with player_ref_leaks [OF h, of 3] show ?thesis by metis
qed

end
