(* ===== verification/PlayerRegistry.thy ===== *)
theory PlayerRegistry
  imports Player
begin

section \<open>The player registry (hw5/src/player_registry.c)\<close>

text \<open>
  The linked list of players of \<open>PLAYER_REGISTRY\<close> as the list of its nodes' \<open>PLAYER\<close> pointers, with
  the count and the lock, and the store the players live in. Allocation takes the next unused
  address; the wrappers of \<open>csapp.c\<close> end the process when memory runs out, so it never fails here.
\<close>

record player_registry =
  preg_nodes :: "pptr list"
  playerCount :: nat
  preg_registryLock :: sem

record pworld =
  players :: pstore
  next_player :: nat
  preg :: player_registry

subsection \<open>Operations\<close>

definition preg_init :: "bool \<Rightarrow> player_registry option" where
  "preg_init sem_ok =
     (if sem_ok then Some \<lparr>preg_nodes = [], playerCount = 0, preg_registryLock = 1\<rparr> else None)"

text \<open>Frees the nodes and the registry (\<open>None\<close>), but returns early from an empty one.\<close>

fun preg_fini_loop :: "pptr list \<Rightarrow> pptr list" where
  "preg_fini_loop [] = []"
| "preg_fini_loop (q # qs) = preg_fini_loop qs"

definition preg_fini :: "player_registry \<Rightarrow> player_registry option" where
  "preg_fini r = (if preg_nodes r = [] then Some r
     else (let r' = r\<lparr>preg_nodes := preg_fini_loop (preg_nodes r)\<rparr>
           in if preg_nodes r' = [] then None else Some r'))"

text \<open>\<open>strcmp\<close> of a player's name with a name: the name of a NULL player is NULL.\<close>

definition same_name :: "pstore \<Rightarrow> pptr \<Rightarrow> string \<Rightarrow> bool outcome" where
  "same_name st q name = obind (player_get_name q st) (\<lambda>n. case n of
     None \<Rightarrow> Inl MemFault | Some s \<Rightarrow> Inr (s = name))"

text \<open>The loop tests a node only while it has a successor.\<close>

fun exists_loop :: "pstore \<Rightarrow> pptr list \<Rightarrow> string \<Rightarrow> pptr outcome" where
  "exists_loop st (q # r # qs) name = obind (same_name st q name) (\<lambda>b.
     if b then Inr q else exists_loop st (r # qs) name)"
| "exists_loop st qs name = Inr None"

definition preg_player_exists :: "pstore \<Rightarrow> pptr list \<Rightarrow> string \<Rightarrow> pptr outcome" where
  "preg_player_exists st nodes name = (case nodes of
     [] \<Rightarrow> Inr None
   | q # qs \<Rightarrow> (if q \<noteq> None then
        obind (same_name st q name) (\<lambda>b. if b then Inr q else exists_loop st nodes name)
      else exists_loop st nodes name))"

definition new_player :: "player option \<Rightarrow> pworld \<Rightarrow> pptr \<times> pworld" where
  "new_player np w = (case np of
     None \<Rightarrow> (None, w)
   | Some p \<Rightarrow> (Some (next_player w),
        w\<lparr>players := (players w)(next_player w \<mapsto> p), next_player := Suc (next_player w)\<rparr>))"

definition free_player :: "pptr \<Rightarrow> pworld \<Rightarrow> pworld" where
  "free_player q w = (case q of None \<Rightarrow> w | Some a \<Rightarrow> w\<lparr>players := (players w)(a := None)\<rparr>)"

definition preg_register :: "bool \<Rightarrow> string \<Rightarrow> (pworld, pptr) action" where
  "preg_register sem_ok name w =
     obind (player_create sem_ok name) (\<lambda>np.
       let (newPlayer, w1) = new_player np w in
       obind (P (preg_registryLock (preg w1))) (\<lambda>l.
         obind (preg_player_exists (players w1) (preg_nodes (preg w1)) name) (\<lambda>found.
           if found \<noteq> None then
             let w2 = free_player newPlayer w1;
                 w3 = w2\<lparr>preg := (preg w2)\<lparr>preg_registryLock := V l\<rparr>\<rparr>
             in obind (preg_player_exists (players w3) (preg_nodes (preg w3)) name)
                  (\<lambda>q. Inr (q, w3))
           else
             Inr (newPlayer,
                  w1\<lparr>preg := (preg w1)\<lparr>preg_nodes := preg_nodes (preg w1) @ [newPlayer],
                                      playerCount := playerCount (preg w1) + 1,
                                      preg_registryLock := V l\<rparr>\<rparr>))))"

subsection \<open>Invariant and lookup\<close>

definition name_at :: "pstore \<Rightarrow> pptr \<Rightarrow> string option" where
  "name_at st q = (case q of None \<Rightarrow> None | Some a \<Rightarrow> map_option playerName (st a))"

definition live :: "pstore \<Rightarrow> pptr \<Rightarrow> bool" where
  "live st q \<longleftrightarrow> name_at st q \<noteq> None"

definition preg_ok :: "pworld \<Rightarrow> bool" where
  "preg_ok w \<longleftrightarrow> list_all (live (players w)) (preg_nodes (preg w))
     \<and> playerCount (preg w) = length (preg_nodes (preg w))
     \<and> preg_registryLock (preg w) = 1
     \<and> (\<forall>a p. players w a = Some p \<longrightarrow> a < next_player w)"

definition preg_names :: "pworld \<Rightarrow> string list" where
  "preg_names w = map (\<lambda>q. the (name_at (players w) q)) (preg_nodes (preg w))"

text \<open>The nodes a lookup really examines.\<close>

definition searched :: "'a list \<Rightarrow> 'a list" where
  "searched xs = (if length xs \<le> 1 then xs else butlast xs)"

definition opt_ptr :: "pptr option \<Rightarrow> pptr" where
  "opt_ptr x = (case x of None \<Rightarrow> None | Some q \<Rightarrow> q)"

lemma live_Some: "live st q \<Longrightarrow> \<exists>a p. q = Some a \<and> st a = Some p"
  by (auto simp: live_def name_at_def split: option.splits)

lemma same_name_live: "live st q \<Longrightarrow> same_name st q n = Inr (name_at st q = Some n)"
  by (auto dest!: live_Some simp: same_name_def player_get_name_def deref_player_def name_at_def)

lemma exists_loop_find:
  "list_all (live st) qs \<Longrightarrow>
   exists_loop st qs n = Inr (opt_ptr (find (\<lambda>q. name_at st q = Some n) (butlast qs)))"
  by (induction st qs n rule: exists_loop.induct) (auto simp: same_name_live opt_ptr_def)

lemma exists_find:
  assumes "list_all (live st) qs"
  shows "preg_player_exists st qs n =
    Inr (opt_ptr (find (\<lambda>q. name_at st q = Some n) (searched qs)))"
proof (cases qs)
  case Nil
  then show ?thesis by (simp add: preg_player_exists_def searched_def opt_ptr_def)
next
  case (Cons q rs)
  with assms have "live st q" by simp
  then have "q \<noteq> None" by (auto dest: live_Some)
  then show ?thesis
    using Cons assms \<open>live st q\<close> exists_loop_find [of st qs n]
    by (cases rs) (auto simp: preg_player_exists_def same_name_live searched_def opt_ptr_def)
qed

lemma searched_subset: "set (searched xs) \<subseteq> set xs"
  by (auto simp: searched_def dest: in_set_butlastD)

lemma name_at_upd: "a \<notin> dom st \<Longrightarrow> live st q \<Longrightarrow> name_at (st(a \<mapsto> p)) q = name_at st q"
  by (cases q) (auto dest!: live_Some simp: name_at_def)

lemma preg_ok_fresh: "preg_ok w \<Longrightarrow> next_player w \<notin> dom (players w)"
  by (fastforce simp: preg_ok_def)

lemma preg_ok_live: "preg_ok w \<Longrightarrow> q \<in> set (preg_nodes (preg w)) \<Longrightarrow> live (players w) q"
  by (simp add: preg_ok_def list_all_iff)

text \<open>What one registration of an acceptable name does, in closed form.\<close>

definition fresh_player :: "string \<Rightarrow> player" where
  "fresh_player n = \<lparr>playerName = n, player_refCount = 1, rating = PLAYER_INITIAL_RATING, playerLock = 1\<rparr>"

definition lookup_name :: "pworld \<Rightarrow> string \<Rightarrow> pptr" where
  "lookup_name w n = opt_ptr (find (\<lambda>q. name_at (players w) q = Some n) (searched (preg_nodes (preg w))))"

definition add_player :: "pworld \<Rightarrow> string \<Rightarrow> pworld" where
  "add_player w n = w\<lparr>players := (players w)(next_player w \<mapsto> fresh_player n),
     next_player := Suc (next_player w),
     preg := (preg w)\<lparr>preg_nodes := preg_nodes (preg w) @ [Some (next_player w)],
                     playerCount := playerCount (preg w) + 1\<rparr>\<rparr>"

lemma lookup_upd:
  assumes "preg_ok w" and "a \<notin> dom (players w)"
  shows "opt_ptr (find (\<lambda>q. name_at ((players w)(a \<mapsto> p)) q = Some n) (searched (preg_nodes (preg w))))
       = lookup_name w n"
proof -
  have "find (\<lambda>q. name_at ((players w)(a \<mapsto> p)) q = Some n) (searched (preg_nodes (preg w)))
      = find (\<lambda>q. name_at (players w) q = Some n) (searched (preg_nodes (preg w)))"
    using assms searched_subset [of "preg_nodes (preg w)"]
    by (intro find_cong refl) (metis name_at_upd preg_ok_live subset_iff)
  then show ?thesis by (simp add: lookup_name_def)
qed

lemma all_live_upd:
  "preg_ok w \<Longrightarrow> list_all (live ((players w)(next_player w \<mapsto> p))) (preg_nodes (preg w))"
  using preg_ok_fresh [of w] preg_ok_live [of w]
  by (auto simp: list_all_iff live_def name_at_upd)

lemma register_eq:
  assumes "preg_ok w" and "length n < NAME_MAX_LENGTH"
  shows "preg_register True n w =
    (if lookup_name w n \<noteq> None then Inr (lookup_name w n, w\<lparr>next_player := Suc (next_player w)\<rparr>)
     else Inr (Some (next_player w), add_player w n))"
proof -
  let ?a = "next_player w"
  let ?w1 = "w\<lparr>players := (players w)(?a \<mapsto> fresh_player n), next_player := Suc ?a\<rparr>"
  have fresh: "?a \<notin> dom (players w)" by (rule preg_ok_fresh [OF assms(1)])
  have create: "player_create True n = Inr (Some (fresh_player n))"
    using assms(2) by (simp add: player_create_def fresh_player_def)
  have new: "new_player (Some (fresh_player n)) w = (Some ?a, ?w1)"
    by (simp add: new_player_def)
  have lock: "preg_registryLock (preg w) = 1" using assms(1) by (simp add: preg_ok_def)
  have ex1: "preg_player_exists (players ?w1) (preg_nodes (preg w)) n = Inr (lookup_name w n)"
    using exists_find [OF all_live_upd [OF assms(1)]] lookup_upd [OF assms(1) fresh] by simp
  have ex2: "preg_player_exists (players w) (preg_nodes (preg w)) n = Inr (lookup_name w n)"
    using exists_find [of "players w" "preg_nodes (preg w)" n] assms(1)
    by (simp add: preg_ok_def lookup_name_def)
  have undo: "(players w)(?a := None) = players w" using fresh by (auto simp: fun_upd_def domIff)
  have relock: "(preg w)\<lparr>preg_registryLock := Suc 0\<rparr> = preg w" using lock by simp
  show ?thesis
  proof (cases "lookup_name w n")
    case None
    then show ?thesis
      using create new lock ex1 relock
      by (simp add: preg_register_def add_player_def)
  next
    case (Some a)
    have "w\<lparr>players := players w, next_player := Suc ?a, preg := preg w\<rparr> = w\<lparr>next_player := Suc ?a\<rparr>"
      by simp
    then show ?thesis
      using Some create new lock ex1 ex2 undo relock
      by (simp add: preg_register_def free_player_def Let_def)
  qed
qed

lemma add_player_ok: "preg_ok w \<Longrightarrow> preg_ok (add_player w n)"
proof -
  assume ok: "preg_ok w"
  have "live ((players w)(next_player w \<mapsto> fresh_player n)) (Some (next_player w))"
    by (simp add: live_def name_at_def)
  then show ?thesis
    using ok all_live_upd [OF ok, of "fresh_player n"]
    by (auto simp: preg_ok_def add_player_def intro: less_SucI)
qed

lemma skip_ok: "preg_ok w \<Longrightarrow> preg_ok (w\<lparr>next_player := Suc (next_player w)\<rparr>)"
  by (auto simp: preg_ok_def intro: less_SucI)

lemma register_ok:
  assumes "preg_ok w" and "length n < NAME_MAX_LENGTH"
  shows "\<exists>q w'. preg_register True n w = Inr (q, w') \<and> preg_ok w'"
  using register_eq [OF assms] add_player_ok [OF assms(1)] skip_ok [OF assms(1)] by auto

lemma name_at_ptr: "name_at st q = Some n \<Longrightarrow> q \<noteq> None"
  by (cases q) (simp_all add: name_at_def)

lemma opt_ptr_find:
  "opt_ptr (find (\<lambda>q. name_at st q = Some n) xs) \<noteq> None \<Longrightarrow>
   opt_ptr (find (\<lambda>q. name_at st q = Some n) xs) \<in> set xs
   \<and> name_at st (opt_ptr (find (\<lambda>q. name_at st q = Some n) xs)) = Some n"
proof (cases "find (\<lambda>q. name_at st q = Some n) xs")
  case (Some q)
  then have "q \<in> set xs \<and> name_at st q = Some n" by (auto simp: find_Some_iff)
  with Some show ?thesis by (simp add: opt_ptr_def)
qed (simp add: opt_ptr_def)

lemma lookup_name_sound:
  "lookup_name w n \<noteq> None \<Longrightarrow> lookup_name w n \<in> set (searched (preg_nodes (preg w)))
     \<and> name_at (players w) (lookup_name w n) = Some n"
  unfolding lookup_name_def by (rule opt_ptr_find)

lemma lookup_name_None:
  assumes "preg_ok w"
  shows "lookup_name w n = None \<longleftrightarrow> n \<notin> set (searched (preg_names w))"
proof -
  have live: "q \<in> set (searched (preg_nodes (preg w))) \<Longrightarrow> live (players w) q" for q
    using searched_subset [of "preg_nodes (preg w)"] preg_ok_live [OF assms] by blast
  have s: "searched (preg_names w) = map (\<lambda>q. the (name_at (players w) q)) (searched (preg_nodes (preg w)))"
    by (simp add: searched_def preg_names_def map_butlast)
  show ?thesis
  proof (cases "find (\<lambda>q. name_at (players w) q = Some n) (searched (preg_nodes (preg w)))")
    case None
    then have "n \<noteq> the (name_at (players w) q)" if "q \<in> set (searched (preg_nodes (preg w)))" for q
      using live [OF that] that by (auto simp: find_None_iff live_def)
    then have "n \<notin> set (searched (preg_names w))" unfolding s by auto
    moreover have "lookup_name w n = None" using None by (simp add: lookup_name_def opt_ptr_def)
    ultimately show ?thesis by simp
  next
    case (Some q)
    then have "q \<in> set (searched (preg_nodes (preg w)))" "name_at (players w) q = Some n"
      by (auto simp: find_Some_iff)
    moreover from this(2) have "q \<noteq> None" by (rule name_at_ptr)
    ultimately show ?thesis using Some by (force simp: lookup_name_def opt_ptr_def s)
  qed
qed

lemma names_add: "preg_ok w \<Longrightarrow> preg_names (add_player w n) = preg_names w @ [n]"
  using preg_ok_fresh [of w] preg_ok_live [of w]
  by (auto simp: preg_names_def add_player_def name_at_upd) (simp add: name_at_def fresh_player_def)

lemma names_skip: "preg_names (w\<lparr>next_player := k\<rparr>) = preg_names w"
  by (simp add: preg_names_def)

interpretation pdir: player_directory preg_ok "\<lambda>n. length n < NAME_MAX_LENGTH"
    "preg_register True" "\<lambda>w. name_at (players w)"
proof unfold_locales
  fix w and n :: string
  assume ok: "preg_ok w" and n: "length n < NAME_MAX_LENGTH"
  show "\<exists>p w'. preg_register True n w = Inr (p, w') \<and> preg_ok w' \<and> name_at (players w') p = Some n
      \<and> (\<forall>q m. name_at (players w) q = Some m \<longrightarrow> name_at (players w') q = Some m)"
  proof (cases "lookup_name w n = None")
    case True
    have "name_at (players w) q = Some m \<Longrightarrow> name_at (players (add_player w n)) q = Some m" for q m
      using preg_ok_fresh [OF ok] name_at_upd [of "next_player w" "players w" q "fresh_player n"]
      by (simp add: add_player_def live_def)
    moreover have "name_at (players (add_player w n)) (Some (next_player w)) = Some n"
      by (simp add: add_player_def name_at_def fresh_player_def)
    ultimately show ?thesis using register_eq [OF ok n] True add_player_ok [OF ok] by simp
  next
    case False
    then show ?thesis
      using register_eq [OF ok n] skip_ok [OF ok] lookup_name_sound [OF False] by simp
  qed
qed

subsection \<open>Properties\<close>

definition empty_world :: pworld where
  "empty_world = \<lparr>players = Map.empty, next_player = 0, preg = the (preg_init True)\<rparr>"

lemma empty_world_ok: "preg_ok empty_world"
  by (simp add: preg_ok_def empty_world_def preg_init_def)

lemmas preg_eval = empty_world_def preg_init_def preg_names_def searched_def name_at_def
  fresh_player_def add_player_def NAME_MAX_LENGTH_def



text \<open>
  The last node of a registry of two or more is never examined, so registering its name again
  creates a second player of the same name.
\<close>

theorem preg_register_duplicates_last:
  assumes "preg_ok w" and "length n < NAME_MAX_LENGTH"
    and "preg_names w = ns @ [n]" and "ns \<noteq> []" and "n \<notin> set ns"
  shows "\<exists>q w'. preg_register True n w = Inr (q, w') \<and> q \<notin> set (preg_nodes (preg w))
    \<and> preg_names w' = ns @ [n, n]"
proof -
  have "searched (preg_names w) = ns" using assms(3,4) by (simp add: searched_def)
  then have "lookup_name w n = None" using lookup_name_None [OF assms(1)] assms(5) by simp
  moreover have "Some (next_player w) \<notin> set (preg_nodes (preg w))"
    using preg_ok_live [OF assms(1)] preg_ok_fresh [OF assms(1)] by (auto dest: live_Some)
  ultimately show ?thesis
    using register_eq [OF assms(1,2)] names_add [OF assms(1)] assms(3) by simp
qed

theorem preg_register_duplicates_last_witness:
  "\<exists>w q w'. register_all (preg_register True) [''ann'', ''bob''] empty_world = Inr ([Some 0, Some 1], w)
     \<and> preg_register True ''bob'' w = Inr (q, w') \<and> preg_names w' = [''ann'', ''bob'', ''bob'']"
proof -
  have n: "length ''ann'' < NAME_MAX_LENGTH" "length ''bob'' < NAME_MAX_LENGTH"
    by (simp_all add: NAME_MAX_LENGTH_def)
  let ?w1 = "add_player empty_world ''ann''"
  let ?w2 = "add_player ?w1 ''bob''"
  have ok1: "preg_ok ?w1" and ok2: "preg_ok ?w2"
    by (simp_all add: add_player_ok empty_world_ok)
  have l0: "lookup_name empty_world ''ann'' = None" and l1: "lookup_name ?w1 ''bob'' = None"
    by (simp_all add: lookup_name_def preg_eval opt_ptr_def)
  have a: "next_player empty_world = 0" "next_player ?w1 = 1"
    by (simp_all add: preg_eval)
  have run: "register_all (preg_register True) [''ann'', ''bob''] empty_world = Inr ([Some 0, Some 1], ?w2)"
    using register_eq [OF empty_world_ok n(1)] register_eq [OF ok1 n(2)] l0 l1 a by (simp add: bnd_def)
  have names: "preg_names ?w2 = [''ann''] @ [''bob'']"
    using names_add [OF empty_world_ok, of "''ann''"] names_add [OF ok1, of "''bob''"]
    by (simp add: preg_names_def empty_world_def preg_init_def)
  have "\<exists>q w'. preg_register True ''bob'' ?w2 = Inr (q, w') \<and> q \<notin> set (preg_nodes (preg ?w2))
      \<and> preg_names w' = [''ann''] @ [''bob'', ''bob'']"
    by (rule preg_register_duplicates_last [OF ok2 n(2) names]) simp_all
  with run show ?thesis by auto
qed

lemma count_searched:
  "n \<notin> set (searched ns) \<Longrightarrow> count_list ns n \<le> Suc 0"
proof (cases ns rule: rev_cases)
  case (snoc ms m)
  assume "n \<notin> set (searched ns)"
  then have "n \<notin> set ms" using snoc by (auto simp: searched_def split: if_splits)
  then show ?thesis using snoc by (simp add: count_list_0_iff)
qed simp



end
