(* ===== verification/Invitation.thy ===== *)
theory Invitation
  imports Game
begin

section \<open>Invitations (hw5/src/invitation.c)\<close>

text \<open>
  The \<open>INVITATION\<close> object. Its source and target are \<open>CLIENT\<close> pointers; the client module is not part
  of the sources, so clients are an abstract type \<open>'c\<close>, and \<open>client_get_fd\<close> and \<open>client_ref\<close> are
  parameters over an abstract client state \<open>'w\<close>. The game is a pointer into a store of games, shared
  with whoever else holds it.
\<close>

datatype inv_state = INV_OPEN_STATE | INV_ACCEPTED_STATE | INV_CLOSED_STATE

type_synonym gptr = "nat option"
type_synonym gstore = "nat \<rightharpoonup> game"

record 'c invitation =
  invGame :: gptr
  invSource :: 'c
  invTarget :: 'c
  invSourceGameRole :: game_role
  invTargetGameRole :: game_role
  invState :: inv_state
  inv_refCount :: int
  invLock :: sem

subsection \<open>Operations\<close>

text \<open>
  The two references taken on the clients are not given back when \<open>sem_init\<close> fails. NULL arguments
  are \<open>None\<close>.
\<close>

definition inv_create ::
    "('c \<Rightarrow> 'w \<Rightarrow> int) \<Rightarrow> ('c \<Rightarrow> 'w \<Rightarrow> 'w) \<Rightarrow> bool \<Rightarrow> 'c option \<Rightarrow> 'c option \<Rightarrow>
     game_role \<Rightarrow> game_role \<Rightarrow> 'w \<Rightarrow> 'c invitation option \<times> 'w" where
  "inv_create client_get_fd client_ref sem_ok source target source_role target_role w =
     (case (source, target) of
        (Some s, Some t) \<Rightarrow>
          if client_get_fd s w = client_get_fd t w then (None, w)
          else
            let w1 = client_ref s w; w2 = client_ref t w1;
                newInv = \<lparr>invGame = None, invSource = s, invTarget = t,
                  invSourceGameRole = source_role, invTargetGameRole = target_role,
                  invState = INV_OPEN_STATE, inv_refCount = 1, invLock = 1\<rparr>
            in (if sem_ok then Some newInv else None, w2)
      | _ \<Rightarrow> (None, w))"

definition inv_ref :: "'c invitation \<Rightarrow> 'c invitation outcome" where
  "inv_ref iv = obind (P (invLock iv)) (\<lambda>l.
     Inr (iv\<lparr>inv_refCount := inv_refCount iv + 1, invLock := V l\<rparr>))"

definition inv_unref :: "'c invitation \<Rightarrow> 'c invitation option outcome" where
  "inv_unref iv = obind (P (invLock iv)) (\<lambda>l.
     let iv' = iv\<lparr>inv_refCount := inv_refCount iv - 1, invLock := V l\<rparr>
     in Inr (if inv_refCount iv' = 0 then None else Some iv'))"

definition inv_get_source :: "'c invitation \<Rightarrow> ('c \<times> 'c invitation) outcome" where
  "inv_get_source iv = obind (P (invLock iv)) (\<lambda>l. Inr (invSource iv, iv\<lparr>invLock := V l\<rparr>))"

definition inv_get_target :: "'c invitation \<Rightarrow> ('c \<times> 'c invitation) outcome" where
  "inv_get_target iv = obind (P (invLock iv)) (\<lambda>l. Inr (invTarget iv, iv\<lparr>invLock := V l\<rparr>))"

definition inv_get_source_role :: "'c invitation \<Rightarrow> (game_role \<times> 'c invitation) outcome" where
  "inv_get_source_role iv = obind (P (invLock iv)) (\<lambda>l.
     Inr (invSourceGameRole iv, iv\<lparr>invLock := V l\<rparr>))"

definition inv_get_target_role :: "'c invitation \<Rightarrow> (game_role \<times> 'c invitation) outcome" where
  "inv_get_target_role iv = obind (P (invLock iv)) (\<lambda>l.
     Inr (invTargetGameRole iv, iv\<lparr>invLock := V l\<rparr>))"

definition inv_get_game :: "'c invitation \<Rightarrow> (gptr \<times> 'c invitation) outcome" where
  "inv_get_game iv = obind (P (invLock iv)) (\<lambda>l. Inr (invGame iv, iv\<lparr>invLock := V l\<rparr>))"

text \<open>\<open>a\<close> is the address \<open>malloc\<close> gives to a new game, unused in the store.\<close>

definition inv_accept ::
    "bool \<Rightarrow> nat \<Rightarrow> 'c invitation \<Rightarrow> gstore \<Rightarrow> (int \<times> 'c invitation \<times> gstore) outcome" where
  "inv_accept sem_ok a iv gs = obind (P (invLock iv)) (\<lambda>l.
     if invState iv = INV_OPEN_STATE then
       let iv' = iv\<lparr>invState := INV_ACCEPTED_STATE\<rparr> in
       (case game_create sem_ok of
          None \<Rightarrow> Inr (0, iv'\<lparr>invGame := None, invLock := V l\<rparr>, gs)
        | Some g \<Rightarrow> Inr (0, iv'\<lparr>invGame := Some a, invLock := V l\<rparr>, gs(a \<mapsto> g)))
     else Inr (-1, iv\<lparr>invLock := V l\<rparr>, gs))"

definition with_game ::
    "gptr \<Rightarrow> gstore \<Rightarrow> (game \<Rightarrow> ('r \<times> game option) outcome) \<Rightarrow> ('r \<times> gstore) outcome" where
  "with_game q gs f = (case q of None \<Rightarrow> Inl MemFault
     | Some a \<Rightarrow> (case gs a of None \<Rightarrow> Inl MemFault
        | Some g \<Rightarrow> obind (f g) (\<lambda>(r, g'). Inr (r, gs(a := g')))))"

text \<open>The last branch returns without the \<open>V\<close>: the lock stays taken.\<close>

definition inv_close ::
    "'c invitation \<Rightarrow> game_role \<Rightarrow> gstore \<Rightarrow> (int \<times> 'c invitation \<times> gstore) outcome" where
  "inv_close iv role gs = obind (P (invLock iv)) (\<lambda>l.
     if invState iv = INV_OPEN_STATE \<or> invState iv = INV_ACCEPTED_STATE then
       let iv' = iv\<lparr>invState := INV_CLOSED_STATE, invLock := V l\<rparr> in
       if role = NULL_ROLE then Inr (0, iv', gs)
       else
         obind (with_game (invGame iv) gs (\<lambda>g. obind (game_is_over g) (\<lambda>(r, g'). Inr (r, Some g'))))
           (\<lambda>(r, gs1).
             if r = 0 then
               obind (with_game (invGame iv) gs1 (\<lambda>g. game_resign g role)) (\<lambda>(_, gs2).
                 Inr (0, iv', gs2))
             else Inr (0, iv', gs1))
     else Inr (-1, iv\<lparr>invLock := l\<rparr>, gs))"

named_theorems inv_defs \<open>the operations of the invitation module\<close>

lemmas [inv_defs] = inv_ref_def inv_unref_def inv_get_source_def inv_get_target_def
  inv_get_source_role_def inv_get_target_role_def inv_get_game_def inv_accept_def inv_close_def

interpretation inv_rc: refcounted inv_refCount "\<lambda>i. invLock i = 1" inv_ref inv_unref 1
  by unfold_locales (auto simp: inv_ref_def inv_unref_def Let_def)

subsection \<open>The life of an invitation\<close>

text \<open>
  Any sequence of completed calls on one invitation, while the rest of the server changes the games
  at will (rule \<open>env\<close>).
\<close>

inductive inv_step ::
    "'c invitation \<times> gstore \<Rightarrow> 'c invitation \<times> gstore \<Rightarrow> bool" where
  accept: "inv_accept True a i gs = Inr (r, i', gs') \<Longrightarrow> inv_step (i, gs) (i', gs')"
| close: "inv_close i role gs = Inr (r, i', gs') \<Longrightarrow> inv_step (i, gs) (i', gs')"
| ref: "inv_ref i = Inr i' \<Longrightarrow> inv_step (i, gs) (i', gs)"
| unref: "inv_unref i = Inr (Some i') \<Longrightarrow> inv_step (i, gs) (i', gs)"
| source: "inv_get_source i = Inr (c, i') \<Longrightarrow> inv_step (i, gs) (i', gs)"
| target: "inv_get_target i = Inr (c, i') \<Longrightarrow> inv_step (i, gs) (i', gs)"
| source_role: "inv_get_source_role i = Inr (ro, i') \<Longrightarrow> inv_step (i, gs) (i', gs)"
| target_role: "inv_get_target_role i = Inr (ro, i') \<Longrightarrow> inv_step (i, gs) (i', gs)"
| game: "inv_get_game i = Inr (g, i') \<Longrightarrow> inv_step (i, gs) (i', gs)"
| env: "inv_step (i, gs) (i, gs')"

inductive inv_steps ::
    "'c invitation \<times> gstore \<Rightarrow> 'c invitation \<times> gstore \<Rightarrow> bool" where
  none: "inv_steps s s"
| more: "inv_steps s t \<Longrightarrow> inv_step t u \<Longrightarrow> inv_steps s u"

definition inv_rank :: "inv_state \<Rightarrow> nat" where
  "inv_rank s = (case s of INV_OPEN_STATE \<Rightarrow> 0 | INV_ACCEPTED_STATE \<Rightarrow> 1 | INV_CLOSED_STATE \<Rightarrow> 2)"

definition inv_wf :: "'c invitation \<Rightarrow> bool" where
  "inv_wf i \<longleftrightarrow> (invState i = INV_OPEN_STATE \<longrightarrow> invGame i = None)
     \<and> (invState i = INV_ACCEPTED_STATE \<longrightarrow> invGame i \<noteq> None)
     \<and> invLock i \<le> 1 \<and> (invLock i = 0 \<longrightarrow> invState i = INV_CLOSED_STATE)"

definition inv_keeps :: "'c invitation \<Rightarrow> 'c invitation \<Rightarrow> bool" where
  "inv_keeps i j \<longleftrightarrow> invSource j = invSource i \<and> invTarget j = invTarget i
     \<and> invSourceGameRole j = invSourceGameRole i \<and> invTargetGameRole j = invTargetGameRole i
     \<and> inv_rank (invState i) \<le> inv_rank (invState j)
     \<and> (invGame i \<noteq> None \<longrightarrow> invGame j = invGame i)"

lemma inv_keeps_refl [simp]: "inv_keeps i i"
  by (simp add: inv_keeps_def)

lemma inv_keeps_trans: "inv_keeps i j \<Longrightarrow> inv_keeps j k \<Longrightarrow> inv_keeps i k"
  by (auto simp: inv_keeps_def)

lemma close_shape:
  assumes "inv_close i role gs = Inr (r, i', gs')"
  shows "(\<exists>l. invState i = INV_CLOSED_STATE \<and> r = -1 \<and> gs' = gs \<and> invLock i = Suc l
           \<and> i' = i\<lparr>invLock := l\<rparr>)
       \<or> (\<exists>l. invState i \<noteq> INV_CLOSED_STATE \<and> r = 0 \<and> invLock i = Suc l
           \<and> i' = i\<lparr>invState := INV_CLOSED_STATE\<rparr>)"
proof (cases "invLock i")
  case 0
  with assms show ?thesis by (simp add: inv_close_def)
next
  case (Suc l)
  then have "i\<lparr>invState := s, invLock := Suc l\<rparr> = i\<lparr>invState := s\<rparr>" for s by simp
  with Suc assms show ?thesis
    by (cases "invState i") (auto simp: inv_close_def Let_def obind_Inr_iff split: if_splits)
qed

lemma inv_step_keeps:
  "inv_step s t \<Longrightarrow> inv_wf (fst s) \<Longrightarrow> inv_wf (fst t) \<and> inv_keeps (fst s) (fst t)"
proof (induction rule: inv_step.induct)
  case (accept a i gs r i' gs')
  then show ?case
    by (auto simp: inv_accept_def inv_wf_def inv_keeps_def inv_rank_def game_create_def P_def Let_def
        split: if_splits)
next
  case (close i role gs r i' gs')
  from close_shape [OF close.hyps] close.prems show ?case
    by (auto simp: inv_wf_def inv_keeps_def inv_rank_def split: inv_state.splits)
qed (auto simp: inv_defs inv_wf_def inv_keeps_def P_def Let_def split: if_splits)

lemma inv_steps_keeps:
  "inv_steps s t \<Longrightarrow> inv_wf (fst s) \<Longrightarrow> inv_wf (fst t) \<and> inv_keeps (fst s) (fst t)"
proof (induction rule: inv_steps.induct)
  case (none s)
  then show ?case by simp
next
  case (more s t u)
  then show ?case using inv_step_keeps [OF more.hyps(2)] inv_keeps_trans by blast
qed

lemma inv_create_wf:
  "inv_create fd cref ok src tgt r1 r2 w = (Some i, w') \<Longrightarrow> inv_wf i \<and> invState i = INV_OPEN_STATE"
  by (auto simp: inv_create_def inv_wf_def Let_def split: option.splits if_splits)

subsection \<open>Properties\<close>

definition open_inv :: "nat invitation" where
  "open_inv = \<lparr>invGame = None, invSource = 1, invTarget = 2, invSourceGameRole = FIRST_PLAYER_ROLE,
     invTargetGameRole = SECOND_PLAYER_ROLE, invState = INV_OPEN_STATE, inv_refCount = 1, invLock = 1\<rparr>"

lemma open_inv_created:
  "inv_create (\<lambda>c w. int c) (\<lambda>c w. c # w) True (Some 1) (Some 2) FIRST_PLAYER_ROLE SECOND_PLAYER_ROLE []
     = (Some open_inv, [2, 1])"
  by (simp add: inv_create_def open_inv_def)

text \<open>
  C26. From its creation on, through any calls and any activity on the games, an invitation keeps its
  clients and roles, only moves forward from OPEN through ACCEPTED to CLOSED, has no game while OPEN
  and keeps the one it got when ACCEPTED, and its lock is free unless it is CLOSED.
\<close>

theorem inv_lifecycle:
  assumes "inv_create fd cref ok src tgt r1 r2 w = (Some i0, w')"
    and "inv_steps (i0, gs0) (i, gs)" and "inv_steps (i, gs) (j, gs')"
  shows "inv_wf i \<and> inv_keeps i0 i \<and> inv_wf j \<and> inv_keeps i j"
  using inv_create_wf [OF assms(1)] inv_steps_keeps [OF assms(2)] inv_steps_keeps [OF assms(3)]
  by auto

theorem inv_lifecycle_witness:
  "\<exists>i gs. inv_steps (open_inv, Map.empty) (i, gs) \<and> invState i = INV_ACCEPTED_STATE
     \<and> inv_wf i \<and> inv_keeps open_inv i"
proof -
  let ?i = "open_inv\<lparr>invState := INV_ACCEPTED_STATE, invGame := Some 7\<rparr>"
  have a: "inv_accept True 7 open_inv Map.empty = Inr (0, ?i, [7 \<mapsto> the (game_create True)])"
    by (simp add: inv_accept_def open_inv_def game_create_def Let_def)
  have s: "inv_steps (open_inv, Map.empty) (?i, [7 \<mapsto> the (game_create True)])"
    by (rule inv_steps.more [OF inv_steps.none]) (rule inv_step.accept [OF a])
  from inv_lifecycle [OF open_inv_created s inv_steps.none] s show ?thesis by fastforce
qed

text \<open>
  \<open>inv_accept\<close> on an unlocked invitation: exactly an OPEN one is accepted; it then holds a new
  game of count 2 in its initial state and is unlocked. Any other call returns -1 and changes
  nothing.
\<close>

theorem inv_accept_spec:
  assumes "invLock i = 1"
  shows "inv_accept True a i gs =
    (if invState i = INV_OPEN_STATE
     then Inr (0, i\<lparr>invState := INV_ACCEPTED_STATE, invGame := Some a\<rparr>, gs(a \<mapsto> game_start))
     else Inr (-1, i, gs)) \<and> game_refCount game_start = 2 \<and> game_ok game_start"
  using assms
  by (auto simp: inv_accept_def game_start_def game_create_def Let_def game_ok_def wf_game_def)

theorem inv_accept_spec_witness:
  "invLock open_inv = 1 \<and> inv_accept True 7 open_inv Map.empty =
     Inr (0, open_inv\<lparr>invState := INV_ACCEPTED_STATE, invGame := Some 7\<rparr>, [7 \<mapsto> game_start])"
proof -
  have l: "invLock open_inv = 1" and o: "invState open_inv = INV_OPEN_STATE"
    by (simp_all add: open_inv_def)
  from inv_accept_spec [OF l, of 7 Map.empty] l o show ?thesis by simp
qed

text \<open>
  C27. Closing an accepted invitation on behalf of a player resigns an unfinished game for that player:
  the call returns 0, the invitation is CLOSED and unlocked, the opponent is recorded as the winner
  and one reference to the game is dropped.
\<close>

theorem inv_close_resigns:
  assumes "invLock i = 1" and "invState i = INV_ACCEPTED_STATE" and "invGame i = Some a"
    and "gs a = Some g" and "game_ok g" and "\<not> terminated g" and "movesMade g \<noteq> 9"
    and "\<not> has_line (gameBoard g) CHR ''X''" and "\<not> has_line (gameBoard g) CHR ''O''"
    and "role \<noteq> NULL_ROLE"
  shows "inv_close i role gs = Inr (0, i\<lparr>invState := INV_CLOSED_STATE\<rparr>,
    gs(a := (if game_refCount g = 1 then None
             else Some (g\<lparr>gameWinner := other_role role, game_refCount := game_refCount g - 1\<rparr>))))"
proof -
  have over: "game_is_over g = Inr (0, g)" by (rule not_over [OF assms(5,7,8,9)])
  have l: "gameLock g = 1" using assms(5) by (simp add: game_ok_def)
  have rl: "i\<lparr>invState := INV_CLOSED_STATE, invLock := Suc 0\<rparr> = i\<lparr>invState := INV_CLOSED_STATE\<rparr>"
    using assms(1) by simp
  have g: "g\<lparr>gameWinner := x, game_refCount := y, gameLock := Suc 0\<rparr>
      = g\<lparr>gameWinner := x, game_refCount := y\<rparr>" for x y
    using l by simp
  have "gs(a \<mapsto> g) = gs" using assms(4) by (auto simp: fun_upd_def)
  then show ?thesis
    using assms over l
    by (simp add: inv_close_def with_game_def Let_def game_resign_def game_unref_def other_role_def rl g)
qed

theorem inv_close_resigns_witness:
  "inv_close (open_inv\<lparr>invState := INV_ACCEPTED_STATE, invGame := Some 7\<rparr>) SECOND_PLAYER_ROLE [7 \<mapsto> game_start]
     = Inr (0, open_inv\<lparr>invState := INV_CLOSED_STATE, invGame := Some 7\<rparr>,
            [7 \<mapsto> game_start\<lparr>gameWinner := FIRST_PLAYER_ROLE, game_refCount := 1\<rparr>])"
proof -
  let ?i = "open_inv\<lparr>invState := INV_ACCEPTED_STATE, invGame := Some 7\<rparr>"
  let ?gs = "[7 \<mapsto> game_start]"
  have h: "invLock ?i = 1" "invState ?i = INV_ACCEPTED_STATE" "invGame ?i = Some 7"
    "?gs (7::nat) = Some game_start"
    by (simp_all add: open_inv_def)
  have g: "game_ok game_start" "\<not> terminated game_start" "movesMade game_start \<noteq> 9"
    "\<not> has_line (gameBoard game_start) CHR ''X''" "\<not> has_line (gameBoard game_start) CHR ''O''"
    by (simp_all add: game_eval)
  have r: "SECOND_PLAYER_ROLE \<noteq> NULL_ROLE" by simp
  have c: "game_refCount game_start = 2" by (simp add: game_eval)
  show ?thesis
    using inv_close_resigns [where gs = ?gs and a = 7, OF h g r] c by (simp add: other_role_def open_inv_def)
qed

text \<open>
  Closing an invitation that is already CLOSED returns -1 without releasing its lock: after that
  every further operation on the invitation, a second close included, blocks for good.
\<close>

theorem inv_close_twice_deadlocks:
  assumes "invLock i = 1" and "invState i = INV_CLOSED_STATE"
  shows "\<exists>i'. inv_close i role gs = Inr (-1, i', gs) \<and> inv_close i' role' gs' = Inl Blocked
    \<and> inv_accept ok a i' gs' = Inl Blocked \<and> inv_ref i' = Inl Blocked \<and> inv_unref i' = Inl Blocked
    \<and> inv_get_game i' = Inl Blocked \<and> inv_get_source i' = Inl Blocked \<and> inv_get_target i' = Inl Blocked
    \<and> inv_get_source_role i' = Inl Blocked \<and> inv_get_target_role i' = Inl Blocked"
  using assms by (simp add: inv_defs)

theorem inv_close_twice_deadlocks_witness:
  "\<exists>i i'. inv_close open_inv NULL_ROLE Map.empty = Inr (0, i, Map.empty)
     \<and> inv_close i NULL_ROLE Map.empty = Inr (-1, i', Map.empty) \<and> inv_ref i' = Inl Blocked"
proof -
  let ?i = "open_inv\<lparr>invState := INV_CLOSED_STATE\<rparr>"
  have c: "inv_close open_inv NULL_ROLE Map.empty = Inr (0, ?i, Map.empty)"
    by (simp add: inv_close_def open_inv_def Let_def)
  have h: "invLock ?i = 1" "invState ?i = INV_CLOSED_STATE" by (simp_all add: open_inv_def)
  from inv_close_twice_deadlocks [OF h] c show ?thesis by blast
qed

text \<open>
  Closing an OPEN invitation with a player's role dereferences its NULL game.
\<close>

theorem inv_close_open_with_role_faults:
  assumes "inv_wf i" and "invLock i = 1" and "invState i = INV_OPEN_STATE" and "role \<noteq> NULL_ROLE"
  shows "inv_close i role gs = Inl MemFault"
  using assms by (simp add: inv_close_def with_game_def inv_wf_def Let_def)

theorem inv_close_open_with_role_faults_witness:
  "inv_wf open_inv \<and> inv_close open_inv FIRST_PLAYER_ROLE Map.empty = Inl MemFault"
proof -
  have h: "inv_wf open_inv" "invLock open_inv = 1" "invState open_inv = INV_OPEN_STATE"
    by (simp_all add: open_inv_def inv_wf_def)
  have r: "FIRST_PLAYER_ROLE \<noteq> NULL_ROLE" by simp
  from inv_close_open_with_role_faults [OF h r] h show ?thesis by simp
qed

end
