(* ===== verification/Protocol.thy ===== *)
theory Protocol
  imports Interfaces
begin

unbundle bit_operations_syntax

section \<open>Robust I/O and packets (hw5/src/csapp.c, hw5/src/protocol.c)\<close>

text \<open>
  \<open>read\<close> and \<open>write\<close> are system calls: what they do on one descriptor is a list of events, one per
  call (a chunk delivered or taken, an interruption, an error). The loops of \<open>rio_readn\<close> and
  \<open>rio_writen\<close> are modelled over any such list.
\<close>

subsection \<open>rio_readn\<close>

datatype rd_event = Data "byte list" | RdEintr | RdErr

text \<open>
  A chunk larger than the space left stays, in part, for the next call; an empty chunk and the end of
  the list are end of file. The result is the bytes put into the buffer (their number is what the C
  function returns), or \<open>None\<close> for -1.
\<close>

fun rio_readn_loop :: "nat \<Rightarrow> byte list \<Rightarrow> rd_event list \<Rightarrow> byte list option \<times> rd_event list" where
  "rio_readn_loop nleft buf es =
     (if nleft = 0 then (Some buf, es)
      else (case es of
         [] \<Rightarrow> (Some buf, [])
       | RdEintr # es' \<Rightarrow> rio_readn_loop nleft buf es'
       | RdErr # es' \<Rightarrow> (None, es')
       | Data bs # es' \<Rightarrow>
           if bs = [] then (Some buf, es')
           else if length bs \<le> nleft then rio_readn_loop (nleft - length bs) (buf @ bs) es'
           else (Some (buf @ take nleft bs), Data (drop nleft bs) # es')))"

declare rio_readn_loop.simps [simp del]

definition rio_readn :: "nat \<Rightarrow> rd_event list \<Rightarrow> byte list option \<times> rd_event list" where
  "rio_readn n es = rio_readn_loop n [] es"

text \<open>The bytes a descriptor will deliver before end of file.\<close>

fun rd_bytes :: "rd_event list \<Rightarrow> byte list" where
  "rd_bytes [] = []"
| "rd_bytes (RdEintr # es) = rd_bytes es"
| "rd_bytes (RdErr # es) = []"
| "rd_bytes (Data bs # es) = (if bs = [] then [] else bs @ rd_bytes es)"

fun rd_clean :: "rd_event list \<Rightarrow> bool" where
  "rd_clean [] = True"
| "rd_clean (RdErr # es) = False"
| "rd_clean (Data bs # es) = (bs \<noteq> [] \<and> rd_clean es)"
| "rd_clean (RdEintr # es) = rd_clean es"

lemma readn_loop_spec:
  "rd_clean es \<Longrightarrow>
   \<exists>es'. rio_readn_loop n buf es = (Some (buf @ take n (rd_bytes es)), es')
     \<and> rd_bytes es' = drop n (rd_bytes es) \<and> rd_clean es'"
proof (induction n buf es rule: rio_readn_loop.induct)
  case (1 nleft buf es)
  show ?case
  proof (cases "nleft = 0")
    case True
    then show ?thesis using 1(3) by (simp add: rio_readn_loop.simps [of 0])
  next
    case nz: False
    show ?thesis
    proof (cases es)
      case Nil
      then show ?thesis using nz by (simp add: rio_readn_loop.simps [of nleft])
    next
      case (Cons e es')
      show ?thesis
      proof (cases e)
        case RdEintr
        with 1 nz Cons show ?thesis by (simp add: rio_readn_loop.simps [of nleft])
      next
        case RdErr
        with 1 Cons show ?thesis by simp
      next
        case (Data bs)
        then have bs: "bs \<noteq> []" "rd_clean es'" using 1(3) Cons by auto
        show ?thesis
        proof (cases "length bs \<le> nleft")
          case True
          from "1.IH"(1) [OF nz Cons Data bs(1) True bs(2)] show ?thesis
            using nz Cons Data bs True by (auto simp: rio_readn_loop.simps [of nleft])
        next
          case False
          then show ?thesis
            using nz Cons Data bs by (auto simp: rio_readn_loop.simps [of nleft])
        qed
      qed
    qed
  qed
qed

subsection \<open>rio_writen\<close>

text \<open>
  \<open>WOk k\<close>: the call takes at most \<open>k + 1\<close> bytes. \<open>WFail e\<close>: it returns 0 or -1, with \<open>errno\<close> being
  EINTR when \<open>e\<close>. A call for which no event is left has not returned yet.
\<close>

datatype wr_event = WOk nat | WFail bool

fun rio_writen_loop :: "byte list \<Rightarrow> byte list \<Rightarrow> wr_event list \<Rightarrow>
    (bool \<times> byte list \<times> wr_event list) outcome" where
  "rio_writen_loop [] out es = Inr (True, out, es)"
| "rio_writen_loop (b # bs) out [] = Inl Blocked"
| "rio_writen_loop (b # bs) out (WFail e # es) =
     (if e then rio_writen_loop (b # bs) out es else Inr (False, out, es))"
| "rio_writen_loop (b # bs) out (WOk k # es) =
     rio_writen_loop (drop (Suc k) (b # bs)) (out @ take (Suc k) (b # bs)) es"

text \<open>\<open>True\<close>: the return value is \<open>n\<close>; \<open>False\<close>: -1. A buffer shorter than \<open>n\<close> is read past its end.\<close>

definition rio_writen :: "byte list \<Rightarrow> nat \<Rightarrow> byte list \<Rightarrow> wr_event list \<Rightarrow>
    (bool \<times> byte list \<times> wr_event list) outcome" where
  "rio_writen usrbuf n out es =
     (if length usrbuf < n then Inl MemFault else rio_writen_loop (take n usrbuf) out es)"

lemma writen_loop_prefix:
  "rio_writen_loop bs out es = Inr (r, out', es') \<Longrightarrow>
   \<exists>k \<le> length bs. out' = out @ take k bs \<and> (r \<longrightarrow> k = length bs) \<and> (\<not> r \<longrightarrow> WFail False \<in> set es)"
proof (induction bs out es rule: rio_writen_loop.induct)
  case (4 b bs out k es)
  let ?bs = "b # bs"
  from 4 obtain j where j: "j \<le> length (drop (Suc k) ?bs)"
    "out' = (out @ take (Suc k) ?bs) @ take j (drop (Suc k) ?bs)"
    "r \<longrightarrow> j = length (drop (Suc k) ?bs)" "\<not> r \<longrightarrow> WFail False \<in> set es" by auto
  have "take (Suc k) ?bs @ take j (drop (Suc k) ?bs) = take (Suc k + j) ?bs"
    by (simp add: take_add)
  moreover have "take (Suc k + j) ?bs = take (min (Suc k + j) (length ?bs)) ?bs"
    by (simp add: min_def)
  ultimately have "out' = out @ take (min (Suc k + j) (length ?bs)) ?bs" using j(2) by simp
  moreover have "r \<longrightarrow> min (Suc k + j) (length ?bs) = length ?bs" using j(3) by auto
  moreover have "min (Suc k + j) (length ?bs) \<le> length ?bs" by simp
  ultimately show ?case using j(4) by (metis list.set_intros(2))
qed (auto split: if_splits)

definition n_ok :: "wr_event list \<Rightarrow> nat" where
  "n_ok es = length (filter (\<lambda>e. case e of WOk _ \<Rightarrow> True | WFail _ \<Rightarrow> False) es)"

lemma writen_loop_total:
  "length bs \<le> n_ok es \<Longrightarrow> WFail False \<notin> set es \<Longrightarrow>
   \<exists>es'. rio_writen_loop bs out es = Inr (True, out @ bs, es') \<and> n_ok es \<le> n_ok es' + length bs
     \<and> set es' \<subseteq> set es"
proof (induction bs out es rule: rio_writen_loop.induct)
  case (4 b bs out k es)
  let ?bs = "b # bs"
  have "length (drop (Suc k) ?bs) \<le> n_ok es" using 4(2) by (simp add: n_ok_def)
  with 4 obtain es' where "rio_writen_loop (drop (Suc k) ?bs) (out @ take (Suc k) ?bs) es
      = Inr (True, (out @ take (Suc k) ?bs) @ drop (Suc k) ?bs, es')"
    "n_ok es \<le> n_ok es' + length (drop (Suc k) ?bs)" "set es' \<subseteq> set es" by auto
  then show ?case by (auto simp: n_ok_def)
next
  case (2 b bs out)
  then show ?case by (simp add: n_ok_def)
next
  case (3 b bs out e es)
  then show ?case by (auto simp: n_ok_def)
qed (auto simp: n_ok_def)

subsection \<open>Words in memory\<close>

text \<open>
  The host is little-endian: \<open>le16\<close> and \<open>le32\<close> are the bytes of a word in memory. \<open>htons\<close> and
  \<open>ntohs\<close> swap the two bytes of a short.
\<close>

definition le16 :: "16 word \<Rightarrow> byte list" where
  "le16 w = [ucast w, ucast (drop_bit 8 w)]"

definition of_le16 :: "byte list \<Rightarrow> 16 word" where
  "of_le16 bs = ucast (bs ! 0) OR push_bit 8 (ucast (bs ! 1))"

definition le32 :: "32 word \<Rightarrow> byte list" where
  "le32 w = [ucast w, ucast (drop_bit 8 w), ucast (drop_bit 16 w), ucast (drop_bit 24 w)]"

definition of_le32 :: "byte list \<Rightarrow> 32 word" where
  "of_le32 bs = ucast (bs ! 0) OR push_bit 8 (ucast (bs ! 1)) OR push_bit 16 (ucast (bs ! 2))
     OR push_bit 24 (ucast (bs ! 3))"

definition ntohs :: "16 word \<Rightarrow> 16 word" where
  "ntohs w = push_bit 8 w OR drop_bit 8 w"

lemma of_le16_le16: "of_le16 (le16 w) = w"
  by (rule bit_word_eqI) (auto simp: of_le16_def le16_def bit_simps)

lemma of_le32_le32: "of_le32 (le32 w) = w"
proof (rule bit_word_eqI)
  fix n
  assume n: "n < LENGTH(32)"
  consider "n < 8" | "8 \<le> n" "n < 16" | "16 \<le> n" "n < 24" | "24 \<le> n" "n < 32"
    using n by fastforce
  then show "bit (of_le32 (le32 w)) n = bit w n"
    by cases (simp_all add: of_le32_def le32_def bit_simps less_diff_conv2)
qed

lemma ntohs_ntohs [simp]: "ntohs (ntohs w) = w"
  by (rule bit_word_eqI) (auto simp: ntohs_def bit_simps)

subsection \<open>Packets\<close>

text \<open>
  The header as it lies in memory: 16 bytes, one padding byte after \<open>role\<close> and two after \<open>size\<close>. The
  multi-byte fields are in network order already.
\<close>

record jeux_packet_header =
  pkt_type :: byte
  pkt_id :: byte
  pkt_role :: byte
  pkt_size :: "16 word"
  timestamp_sec :: "32 word"
  timestamp_nsec :: "32 word"
  padding :: "byte \<times> byte \<times> byte"

definition hdr_bytes :: "jeux_packet_header \<Rightarrow> byte list" where
  "hdr_bytes h = (case padding h of (p, q, r) \<Rightarrow>
     [pkt_type h, pkt_id h, pkt_role h, p] @ le16 (pkt_size h) @ [q, r]
     @ le32 (timestamp_sec h) @ le32 (timestamp_nsec h))"

definition hdr_of_bytes :: "byte list \<Rightarrow> jeux_packet_header" where
  "hdr_of_bytes bs = \<lparr>pkt_type = bs ! 0, pkt_id = bs ! 1, pkt_role = bs ! 2,
     pkt_size = of_le16 (take 2 (drop 4 bs)), timestamp_sec = of_le32 (take 4 (drop 8 bs)),
     timestamp_nsec = of_le32 (take 4 (drop 12 bs)), padding = (bs ! 3, bs ! 6, bs ! 7)\<rparr>"

definition HDR_SIZE :: nat where
  "HDR_SIZE = 16"

lemma length_le: "length (le16 w) = 2" "length (le32 v) = 4"
  by (simp_all add: le16_def le32_def)

lemma le_words:
  "of_le16 [ucast w, ucast (drop_bit 8 w)] = w"
  "of_le32 [ucast v, ucast (drop_bit 8 v), ucast (drop_bit 16 v), ucast (drop_bit 24 v)] = v"
  using of_le16_le16 [of w] of_le32_le32 [of v] by (simp_all add: le16_def le32_def)

lemma hdr_of_hdr_bytes: "hdr_of_bytes (hdr_bytes h) = h"
proof -
  obtain p q r where "padding h = (p, q, r)" by (cases "padding h")
  then show ?thesis
    by (simp add: hdr_of_bytes_def hdr_bytes_def le16_def le32_def le_words)
qed

interpretation le16: fixed_codec 2 le16 of_le16
  by unfold_locales (simp_all add: length_le of_le16_le16)

interpretation le32: fixed_codec 4 le32 of_le32
  by unfold_locales (simp_all add: length_le of_le32_le32)

interpretation hdr: fixed_codec HDR_SIZE hdr_bytes hdr_of_bytes
proof unfold_locales
  show "length (hdr_bytes h) = HDR_SIZE" for h
    by (simp add: hdr_bytes_def length_le HDR_SIZE_def case_prod_beta)
qed (rule hdr_of_hdr_bytes)

text \<open>
  The state of a descriptor's output: the bytes sent so far and the write events to come. \<open>data\<close> is
  the buffer the payload pointer refers to.
\<close>

definition proto_send_packet :: "jeux_packet_header \<Rightarrow> byte list \<Rightarrow> byte list \<Rightarrow> wr_event list \<Rightarrow>
    (int \<times> byte list \<times> wr_event list) outcome" where
  "proto_send_packet h data out es =
     (let payloadSize = unat (ntohs (pkt_size h)) in
      obind (rio_writen (hdr_bytes h) HDR_SIZE out es) (\<lambda>(r, out1, es1).
        if \<not> r then Inr (-1, out1, es1)
        else if payloadSize > 0 then
          obind (rio_writen data payloadSize out1 es1) (\<lambda>(r2, out2, es2).
            if \<not> r2 then Inr (-1, out2, es2) else Inr (0, out2, es2))
        else Inr (0, out1, es1)))"

text \<open>
  Bytes that are not read keep what the header held before, and the payload buffer what \<open>malloc\<close>
  left in it (\<open>junk\<close>). The result is \<open>None\<close> for -1, else the header and the payload, if any.
\<close>

definition overlay :: "byte list \<Rightarrow> byte list \<Rightarrow> byte list" where
  "overlay bs old = bs @ drop (length bs) old"

definition proto_recv_packet :: "jeux_packet_header \<Rightarrow> (nat \<Rightarrow> byte list) \<Rightarrow> rd_event list \<Rightarrow>
    (jeux_packet_header \<times> byte list option) option \<times> rd_event list" where
  "proto_recv_packet old junk es =
     (case rio_readn HDR_SIZE es of
        (None, es1) \<Rightarrow> (None, es1)
      | (Some bs, es1) \<Rightarrow>
          if bs = [] then (None, es1)
          else
            let h = hdr_of_bytes (overlay bs (hdr_bytes old));
                payLoadSize = unat (ntohs (pkt_size h))
            in if payLoadSize \<noteq> 0 then
                 (case rio_readn payLoadSize es1 of
                    (None, es2) \<Rightarrow> (None, es2)
                  | (Some ps, es2) \<Rightarrow>
                      if ps = [] then (None, es2)
                      else (Some (h, Some (overlay ps (junk payLoadSize))), es2))
               else (Some (h, None), es1))"

subsection \<open>Properties\<close>

text \<open>
  Whatever the chunking of the input and however often \<open>read\<close> is interrupted, on a descriptor
  without errors \<open>rio_readn\<close> delivers exactly the next \<open>n\<close> bytes, or all there are before end of
  file, and leaves the rest for the next call.
\<close>

theorem rio_readn_spec:
  assumes "rd_clean es"
  shows "\<exists>es'. rio_readn n es = (Some (take n (rd_bytes es)), es')
    \<and> rd_bytes es' = drop n (rd_bytes es) \<and> rd_clean es'"
  using readn_loop_spec [OF assms, of n "[]"] by (simp add: rio_readn_def)

theorem rio_readn_spec_witness:
  "rd_clean [Data [1, 2], RdEintr, Data [3, 4, 5]]
   \<and> (\<exists>es'. rio_readn 4 [Data [1, 2], RdEintr, Data [3, 4, 5]] = (Some [1, 2, 3, 4], es') \<and> rd_bytes es' = [5])"
proof -
  have c: "rd_clean [Data [1, 2], RdEintr, Data [3, 4, 5]]" by simp
  from rio_readn_spec [OF c, of 4] c show ?thesis by auto
qed

text \<open>
  \<open>rio_writen\<close> writes a buffer of \<open>n\<close> bytes whole and in order when it returns \<open>n\<close>, and a prefix
  of it when it returns -1, which takes a failing \<open>write\<close>; interruptions lose nothing, and with no
  failing call and at least \<open>n\<close> successful ones to come it does return \<open>n\<close>.
\<close>

theorem rio_writen_spec:
  assumes "length buf = n"
  shows "(rio_writen buf n out es = Inr (r, out', es') \<longrightarrow>
      (\<exists>k \<le> n. out' = out @ take k buf \<and> (r \<longrightarrow> k = n) \<and> (\<not> r \<longrightarrow> WFail False \<in> set es)))
    \<and> (n \<le> n_ok es \<and> WFail False \<notin> set es \<longrightarrow>
      (\<exists>es'. rio_writen buf n out es = Inr (True, out @ buf, es')))"
  using writen_loop_prefix [of buf out es r out' es'] writen_loop_total [of buf es out] assms
  by (auto simp: rio_writen_def)

theorem rio_writen_spec_witness:
  "\<exists>es'. rio_writen [1, 2, 3] 3 [9] [WOk 0, WFail True, WOk 0, WOk 5] = Inr (True, [9, 1, 2, 3], es')"
proof -
  have l: "length [1, 2, 3 :: byte] = 3" by simp
  have "3 \<le> n_ok [WOk 0, WFail True, WOk 0, WOk 5]" "WFail False \<notin> set [WOk 0, WFail True, WOk 0, WOk 5]"
    by (simp_all add: n_ok_def)
  with rio_writen_spec [OF l, of "[9]" "[WOk 0, WFail True, WOk 0, WOk 5]"] show ?thesis by simp
qed

text \<open>
  C7. A packet sent by \<open>proto_send_packet\<close> is received by \<open>proto_recv_packet\<close> as the same header and
  payload: when the payload is as long as the (network order) size field says and the sender's
  writes succeed, the bytes sent, arriving in any chunks, followed by anything, are read back as the
  packet, and exactly they are consumed.
\<close>

theorem proto_roundtrip:
  assumes "length data = unat (ntohs (pkt_size h))"
    and "HDR_SIZE + length data \<le> n_ok ws" and "WFail False \<notin> set ws"
  shows "(\<exists>ws'. proto_send_packet h data out ws = Inr (0, out @ hdr_bytes h @ data, ws'))
    \<and> (\<forall>es rest. rd_clean es \<longrightarrow> rd_bytes es = (hdr_bytes h @ data) @ rest \<longrightarrow>
        (\<exists>es'. proto_recv_packet old junk es
            = (Some (h, if data = [] then None else Some (overlay data (junk (length data)))), es')
          \<and> rd_bytes es' = rest \<and> rd_clean es'))"
proof -
  have hl: "length (hdr_bytes h) = HDR_SIZE" by (rule hdr.enc_width)
  from writen_loop_total [of "hdr_bytes h" ws out] assms hl obtain ws1
    where w1: "rio_writen (hdr_bytes h) HDR_SIZE out ws = Inr (True, out @ hdr_bytes h, ws1)"
      "length data \<le> n_ok ws1" "WFail False \<notin> set ws1"
    by (fastforce simp: rio_writen_def)
  from writen_loop_total [OF w1(2,3), of "out @ hdr_bytes h"] obtain ws2
    where w2: "rio_writen data (length data) (out @ hdr_bytes h) ws1
      = Inr (True, out @ hdr_bytes h @ data, ws2)"
    by (auto simp: rio_writen_def)
  have sent: "\<exists>ws'. proto_send_packet h data out ws = Inr (0, out @ hdr_bytes h @ data, ws')"
    using w1(1) w2 by (cases "data = []") (simp_all add: proto_send_packet_def assms(1) [symmetric])
  have recv: "\<exists>es'. proto_recv_packet old junk es
        = (Some (h, if data = [] then None else Some (overlay data (junk (length data)))), es')
      \<and> rd_bytes es' = rest \<and> rd_clean es'"
    if c: "rd_clean es" and b: "rd_bytes es = (hdr_bytes h @ data) @ rest" for es rest
  proof -
    from readn_loop_spec [OF c, of HDR_SIZE "[]"] b hl obtain es1
      where r1: "rio_readn HDR_SIZE es = (Some (hdr_bytes h), es1)"
        "rd_bytes es1 = data @ rest" "rd_clean es1"
      by (auto simp: rio_readn_def)
    from readn_loop_spec [OF r1(3), of "length data" "[]"] r1(2) obtain es2
      where r2: "rio_readn (length data) es1 = (Some data, es2)" "rd_bytes es2 = rest" "rd_clean es2"
      by (auto simp: rio_readn_def)
    have "overlay (hdr_bytes h) (hdr_bytes old) = hdr_bytes h"
      using hdr.enc_width [of old] hl by (simp add: overlay_def)
    moreover have "hdr_bytes h \<noteq> []" using hl by (auto simp: HDR_SIZE_def)
    ultimately show ?thesis
      using r1 r2 hdr_of_hdr_bytes [of h]
      by (cases "data = []") (simp_all add: proto_recv_packet_def Let_def assms(1) [symmetric])
  qed
  from sent recv show ?thesis by blast
qed

theorem proto_roundtrip_witness:
  "\<exists>h ws'. pkt_size h = ntohs 2 \<and>
     proto_send_packet h [104, 105] [] (replicate 18 (WOk 3)) = Inr (0, hdr_bytes h @ [104, 105], ws')
     \<and> (\<exists>es'. proto_recv_packet h (\<lambda>n. replicate n 0)
          [Data (take 5 (hdr_bytes h)), RdEintr, Data (drop 5 (hdr_bytes h) @ [104, 105, 77])]
          = (Some (h, Some [104, 105]), es') \<and> rd_bytes es' = [77])"
proof -
  let ?h = "\<lparr>pkt_type = 9, pkt_id = 1, pkt_role = 0, pkt_size = ntohs 2, timestamp_sec = 0,
    timestamp_nsec = 0, padding = (0, 0, 0)\<rparr>"
  let ?ws = "replicate 18 (WOk 3)"
  let ?es = "[Data (take 5 (hdr_bytes ?h)), RdEintr, Data (drop 5 (hdr_bytes ?h) @ [104, 105, 77])]"
  have a: "length [104, 105 :: byte] = unat (ntohs (pkt_size ?h))" by simp
  have b: "HDR_SIZE + length [104, 105 :: byte] \<le> n_ok ?ws" "WFail False \<notin> set ?ws"
    by (simp_all add: HDR_SIZE_def n_ok_def)
  have ne: "hdr_bytes ?h \<noteq> []" by (simp add: hdr_bytes_def)
  then have c: "rd_clean ?es" by simp
  have "take 5 (hdr_bytes ?h) @ drop 5 (hdr_bytes ?h) = hdr_bytes ?h" by (rule append_take_drop_id)
  with ne have d: "rd_bytes ?es = (hdr_bytes ?h @ [104, 105]) @ [77]"
    by (simp flip: append_assoc)
  note pr = proto_roundtrip [OF a b, of "[]" ?h "\<lambda>n. replicate n 0"]
  have o: "overlay [104, 105 :: byte] [0, 0] = [104, 105]" by (simp add: overlay_def)
  have "\<exists>ws'. proto_send_packet ?h [104, 105] [] ?ws = Inr (0, hdr_bytes ?h @ [104, 105], ws')"
    using pr by simp
  moreover have "\<exists>es'. proto_recv_packet ?h (\<lambda>n. replicate n 0) ?es
      = (Some (?h, Some [104, 105]), es') \<and> rd_bytes es' = [77]"
    using pr [THEN conjunct2, rule_format, OF c d] o by auto
  moreover have "pkt_size ?h = ntohs 2" by simp
  ultimately show ?thesis by blast
qed

end
