(* ===== verification/ClientRegistry.thy ===== *)
theory ClientRegistry
  imports PlayerRegistry
begin

section \<open>The client registry (hw5/src/client_registry.c)\<close>

text \<open>
  \<open>client.c\<close> is not part of the repository: the operations of \<open>client.h\<close> that the registry and the
  service loop call are a record of functions, an argument of every definition here, acting on the
  players and on a state \<open>'w\<close> of their own. A client pointer is \<open>'c option\<close>. Two calls of the C
  library whose effect the model does not follow, \<open>shutdown\<close> on a socket and \<open>free\<close> of a client, are
  fields of the same record.
\<close>

type_synonym 'w cw = "pworld \<times> 'w"

record ('w, 'c) client_api =
  client_create :: "int \<Rightarrow> ('w cw, 'c option) action"
  client_get_fd :: "'c option \<Rightarrow> 'w cw \<Rightarrow> int outcome"
  client_unref :: "'c option \<Rightarrow> ('w cw, unit) action"
  client_get_player :: "'c option \<Rightarrow> 'w cw \<Rightarrow> pptr outcome"
  client_free :: "'c option \<Rightarrow> 'w cw \<Rightarrow> 'w cw"
  os_shutdown :: "int \<Rightarrow> 'w cw \<Rightarrow> 'w cw"

subsection \<open>State\<close>

text \<open>The node list in order, each node its \<open>curClient\<close>; the count and the two semaphores.\<close>

record 'c client_registry =
  creg_nodes :: "'c option list"
  clientCount :: int
  registryLock :: sem
  notEmpty :: sem

record ('w, 'c) jworld =
  creg :: "'c client_registry"
  cw :: "'w cw"

definition MAX_CLIENTS :: int where
  "MAX_CLIENTS = 64"

definition on_cw :: "('w cw, 'a) action \<Rightarrow> (('w, 'c) jworld, 'a) action" where
  "on_cw m w = (case m (cw w) of Inl e \<Rightarrow> Inl e | Inr (x, v) \<Rightarrow> Inr (x, w\<lparr>cw := v\<rparr>))"

subsection \<open>Operations\<close>

definition creg_init :: "bool \<Rightarrow> bool \<Rightarrow> 'c client_registry option" where
  "creg_init sem1_ok sem2_ok =
     (if \<not> sem1_ok then None
      else if \<not> sem2_ok then None
      else Some \<lparr>creg_nodes = [], clientCount = 0, registryLock = 1, notEmpty = 1\<rparr>)"

text \<open>\<open>None\<close>: the nodes and the registry are freed; an empty registry is left alone.\<close>

fun creg_fini_loop :: "'c option list \<Rightarrow> 'c option list" where
  "creg_fini_loop [] = []"
| "creg_fini_loop (q # qs) = creg_fini_loop qs"

definition creg_fini :: "'c client_registry \<Rightarrow> 'c client_registry option" where
  "creg_fini cr = (if creg_nodes cr = [] then Some cr
     else (let cr' = cr\<lparr>creg_nodes := creg_fini_loop (creg_nodes cr)\<rparr>
           in if creg_nodes cr' = [] then None else Some cr'))"

definition creg_register :: "('w, 'c) client_api \<Rightarrow> int \<Rightarrow> (('w, 'c) jworld, 'c option) action" where
  "creg_register api fd = bnd (on_cw (client_create api fd)) (\<lambda>newClient w.
     obind (P (registryLock (creg w))) (\<lambda>l.
       let cr = creg w in
       if clientCount cr \<ge> MAX_CLIENTS then
         Inr (None, w\<lparr>cw := client_free api newClient (cw w), creg := cr\<lparr>registryLock := V l\<rparr>\<rparr>)
       else if creg_nodes cr = [] then
         obind (P (notEmpty cr)) (\<lambda>e. Inr (newClient, w\<lparr>creg :=
           \<lparr>creg_nodes = [newClient], clientCount = clientCount cr + 1,
            registryLock = V l, notEmpty = e\<rparr>\<rparr>))
       else Inr (newClient, w\<lparr>creg := cr\<lparr>creg_nodes := creg_nodes cr @ [newClient],
              clientCount := clientCount cr + 1, registryLock := V l\<rparr>\<rparr>)))"

text \<open>
  The common part of the two places that find the client; \<open>w\<close> has the registry lock taken, with
  \<open>l\<close> left. The node stays in the list.
\<close>

definition unreg_found :: "('w, 'c) client_api \<Rightarrow> 'c option \<Rightarrow> sem \<Rightarrow> (('w, 'c) jworld, int) action" where
  "unreg_found api client l w =
     (let w1 = w\<lparr>creg := (creg w)\<lparr>clientCount := clientCount (creg w) - 1\<rparr>\<rparr> in
      bnd (on_cw (client_unref api client)) (\<lambda>_ w2.
        let cr = creg w2;
            cr' = (if clientCount cr = 0 then cr\<lparr>notEmpty := V (notEmpty cr)\<rparr> else cr)
        in Inr (0, w2\<lparr>creg := cr'\<lparr>registryLock := V l\<rparr>\<rparr>)) w1)"

fun fd_loop :: "('w, 'c) client_api \<Rightarrow> int \<Rightarrow> 'c option list \<Rightarrow> 'w cw \<Rightarrow> bool outcome" where
  "fd_loop api clientFd [] v = Inr False"
| "fd_loop api clientFd (q # qs) v = obind (client_get_fd api q v) (\<lambda>crFd.
     if crFd = clientFd then Inr True else fd_loop api clientFd qs v)"

definition creg_unregister :: "('w, 'c) client_api \<Rightarrow> 'c option \<Rightarrow> (('w, 'c) jworld, int) action" where
  "creg_unregister api client w =
     obind (P (registryLock (creg w))) (\<lambda>l.
     obind (client_get_fd api client (cw w)) (\<lambda>clientFd.
     obind (case creg_nodes (creg w) of
              Some c # _ \<Rightarrow> obind (client_get_fd api (Some c) (cw w)) (\<lambda>crFd. Inr (crFd = clientFd))
            | _ \<Rightarrow> Inr False) (\<lambda>atHead.
     if atHead then unreg_found api client l w
     else obind (fd_loop api clientFd (creg_nodes (creg w)) (cw w)) (\<lambda>found.
       if found then unreg_found api client l w
       else
         let cr = creg w;
             cr' = (if clientCount cr = 0 then cr\<lparr>notEmpty := V (notEmpty cr)\<rparr> else cr)
         in Inr (-1, w\<lparr>creg := cr'\<lparr>registryLock := V l\<rparr>\<rparr>)))))"

text \<open>\<open>player_get_name\<close> of NULL is NULL, and \<open>strcmp\<close> faults on it (\<open>same_name\<close>).\<close>

definition client_named :: "('w, 'c) client_api \<Rightarrow> 'c option \<Rightarrow> string \<Rightarrow> 'w cw \<Rightarrow> bool outcome" where
  "client_named api q user v = obind (client_get_player api q v) (\<lambda>p. same_name (players (fst v)) p user)"

fun creg_lookup_loop :: "('w, 'c) client_api \<Rightarrow> 'c option list \<Rightarrow> string \<Rightarrow> 'w cw \<Rightarrow> 'c option outcome" where
  "creg_lookup_loop api [] user v = Inr None"
| "creg_lookup_loop api (q # qs) user v = obind (client_named api q user v) (\<lambda>b.
     if b then Inr q else creg_lookup_loop api qs user v)"

text \<open>The first return, on an empty registry, does not release the lock.\<close>

definition creg_lookup :: "('w, 'c) client_api \<Rightarrow> string \<Rightarrow> (('w, 'c) jworld, 'c option) action" where
  "creg_lookup api user w =
     obind (P (registryLock (creg w))) (\<lambda>l.
       let locked = w\<lparr>creg := (creg w)\<lparr>registryLock := l\<rparr>\<rparr>;
           unlocked = w\<lparr>creg := (creg w)\<lparr>registryLock := V l\<rparr>\<rparr>
       in case creg_nodes (creg w) of
         [] \<Rightarrow> Inr (None, locked)
       | q # qs \<Rightarrow>
           if q = None then Inr (None, locked)
           else obind (client_named api q user (cw w)) (\<lambda>b.
             if b then Inr (q, unlocked)
             else obind (creg_lookup_loop api (q # qs) user (cw w)) (\<lambda>r. Inr (r, unlocked))))"

text \<open>An array of player pointers; \<open>junk n\<close> is what \<open>malloc\<close> left in one of \<open>n\<close> elements.\<close>

definition arr_set :: "pptr list \<Rightarrow> int \<Rightarrow> pptr \<Rightarrow> pptr list outcome" where
  "arr_set arr i x = (if 0 \<le> i \<and> i < int (length arr) then Inr (arr[nat i := x]) else Inl MemFault)"

fun all_players_loop :: "('w, 'c) client_api \<Rightarrow> 'c option list \<Rightarrow> int \<Rightarrow> pptr list \<Rightarrow>
    ('w cw, pptr list) action" where
  "all_players_loop api (Some c # qs) count arr v =
     obind (client_get_player api (Some c) v) (\<lambda>p.
     obind (arr_set arr count p) (\<lambda>arr'.
     obind (player_unref p (players (fst v))) (\<lambda>(_, st).
       all_players_loop api qs (count + 1) arr' ((fst v)\<lparr>players := st\<rparr>, snd v))))"
| "all_players_loop api qs count arr v = Inr (arr, v)"

text \<open>\<open>Malloc\<close> ends the process when the size, an \<open>int\<close> made a \<open>size_t\<close>, is negative.\<close>

definition creg_all_players :: "('w, 'c) client_api \<Rightarrow> (nat \<Rightarrow> pptr list) \<Rightarrow>
    (('w, 'c) jworld, pptr list) action" where
  "creg_all_players api junk w =
     obind (P (registryLock (creg w))) (\<lambda>l.
       let cr = creg w; unlocked = (\<lambda>w. w\<lparr>creg := cr\<lparr>registryLock := V l\<rparr>\<rparr>) in
       if clientCount cr + 1 < 0 then Inl Aborted
       else
         let player_array = junk (nat (clientCount cr + 1)) in
         if creg_nodes cr = [] then Inr (player_array, unlocked w)
         else obind (all_players_loop api (creg_nodes cr) 0 player_array (cw w)) (\<lambda>(arr, v).
           obind (arr_set arr (clientCount cr) None) (\<lambda>arr'.
             Inr (arr', unlocked (w\<lparr>cw := v\<rparr>)))))"

definition creg_wait_for_empty :: "(('w, 'c) jworld, unit) action" where
  "creg_wait_for_empty w = obind (P (notEmpty (creg w))) (\<lambda>e.
     Inr ((), w\<lparr>creg := (creg w)\<lparr>notEmpty := V e\<rparr>\<rparr>))"

fun shutdown_loop :: "('w, 'c) client_api \<Rightarrow> 'c option list \<Rightarrow> 'w cw \<Rightarrow> 'w cw outcome" where
  "shutdown_loop api [] v = Inr v"
| "shutdown_loop api (q # qs) v = obind (client_get_fd api q v) (\<lambda>fd.
     shutdown_loop api qs (os_shutdown api fd v))"

fun unregister_loop :: "('w, 'c) client_api \<Rightarrow> 'c option list \<Rightarrow> (('w, 'c) jworld, unit) action" where
  "unregister_loop api [] w = Inr ((), w)"
| "unregister_loop api (q # qs) w = bnd (creg_unregister api q) (\<lambda>_. unregister_loop api qs) w"

definition creg_shutdown_all :: "('w, 'c) client_api \<Rightarrow> (('w, 'c) jworld, unit) action" where
  "creg_shutdown_all api w =
     obind (P (registryLock (creg w))) (\<lambda>l.
     obind (shutdown_loop api (creg_nodes (creg w)) (cw w)) (\<lambda>v.
       let w1 = w\<lparr>cw := v, creg := (creg w)\<lparr>registryLock := V l\<rparr>\<rparr>
       in unregister_loop api (creg_nodes (creg w1)) w1))"

subsection \<open>Runs\<close>

text \<open>
  A run of the registry: registrations and unregistrations by the service threads, waits that return,
  and anything the client library does to its own state in between. The flag records that the count
  has been brought to 0 by an unregistration at some point.
\<close>

inductive creg_run :: "('w, 'c) client_api \<Rightarrow> ('w, 'c) jworld \<Rightarrow> bool \<Rightarrow> bool" for api where
  run_init: "creg w = the (creg_init True True) \<Longrightarrow> creg_run api w False"
| run_register: "creg_run api w d \<Longrightarrow> creg_register api fd w = Inr (c, w') \<Longrightarrow> creg_run api w' d"
| run_unregister: "creg_run api w d \<Longrightarrow> creg_unregister api c w = Inr (r, w') \<Longrightarrow>
     creg_run api w' (d \<or> clientCount (creg w') = 0)"
| run_wait: "creg_run api w d \<Longrightarrow> creg_wait_for_empty w = Inr ((), w') \<Longrightarrow> creg_run api w' d"
| run_client: "creg_run api w d \<Longrightarrow> creg_run api (w\<lparr>cw := v\<rparr>) d"

definition creg_inv :: "'c client_registry \<Rightarrow> bool \<Rightarrow> bool" where
  "creg_inv cr d \<longleftrightarrow> registryLock cr = 1
     \<and> (if d then notEmpty cr \<ge> (if creg_nodes cr = [] then 2 else 1)
        else if creg_nodes cr = [] then clientCount cr = 0 \<and> notEmpty cr = 1
        else 1 \<le> clientCount cr \<and> notEmpty cr = 0)"

lemma on_cw_Inr: "on_cw m w = Inr (x, w') \<longleftrightarrow> (\<exists>v. m (cw w) = Inr (x, v) \<and> w' = w\<lparr>cw := v\<rparr>)"
  by (auto simp: on_cw_def split: sum.splits)

lemma register_Inr:
  "creg_register api fd w = Inr (r, w') \<Longrightarrow> registryLock (creg w) = 1 \<Longrightarrow>
   (clientCount (creg w) \<ge> MAX_CLIENTS \<and> r = None \<and> creg w' = creg w)
   \<or> (clientCount (creg w) < MAX_CLIENTS \<and> creg_nodes (creg w) = [] \<and> notEmpty (creg w) \<ge> 1
      \<and> creg w' = \<lparr>creg_nodes = [r], clientCount = clientCount (creg w) + 1, registryLock = 1,
          notEmpty = notEmpty (creg w) - 1\<rparr>)
   \<or> (clientCount (creg w) < MAX_CLIENTS \<and> creg_nodes (creg w) \<noteq> []
      \<and> creg w' = \<lparr>creg_nodes = creg_nodes (creg w) @ [r], clientCount = clientCount (creg w) + 1,
          registryLock = 1, notEmpty = notEmpty (creg w)\<rparr>)"
proof -
  assume a: "creg_register api fd w = Inr (r, w')" and l: "registryLock (creg w) = 1"
  from a obtain c v where cv: "client_create api fd (cw w) = Inr (c, v)"
    by (auto simp: creg_register_def bnd_eq_Inr on_cw_Inr)
  note d = creg_register_def bnd_def on_cw_def cv Let_def l
  consider "clientCount (creg w) \<ge> MAX_CLIENTS"
    | "clientCount (creg w) < MAX_CLIENTS" "creg_nodes (creg w) = []"
    | "clientCount (creg w) < MAX_CLIENTS" "creg_nodes (creg w) \<noteq> []" by linarith
  then show ?thesis
  proof cases
    case 1
    then show ?thesis using a l by (cases "creg w") (auto simp: d)
  next
    case 2
    then show ?thesis using a l by (cases "creg w"; cases "notEmpty (creg w)") (auto simp: d)
  next
    case 3
    then show ?thesis using a l by (cases "creg w") (auto simp: d)
  qed
qed

lemma unreg_found_Inr:
  "unreg_found api c l w = Inr (r, w') \<Longrightarrow>
   r = 0 \<and> creg w' = \<lparr>creg_nodes = creg_nodes (creg w), clientCount = clientCount (creg w) - 1,
     registryLock = Suc l,
     notEmpty = notEmpty (creg w) + (if clientCount (creg w) = 1 then 1 else 0)\<rparr>"
proof -
  assume a: "unreg_found api c l w = Inr (r, w')"
  then obtain x v where u: "client_unref api c (cw w) = Inr (x, v)"
    by (auto simp: unreg_found_def bnd_eq_Inr on_cw_Inr Let_def)
  show ?thesis
    using a by (cases "creg w"; cases "clientCount (creg w) = 1")
      (auto simp: unreg_found_def bnd_def on_cw_def u Let_def)
qed

lemma unregister_Inr:
  "creg_unregister api c w = Inr (r, w') \<Longrightarrow> registryLock (creg w) = 1 \<Longrightarrow>
   (r = 0 \<and> creg_nodes (creg w) \<noteq> [] \<and> creg w' = \<lparr>creg_nodes = creg_nodes (creg w), clientCount = clientCount (creg w) - 1,
      registryLock = 1,
      notEmpty = notEmpty (creg w) + (if clientCount (creg w) = 1 then 1 else 0)\<rparr>)
   \<or> (r = -1 \<and> creg w' = \<lparr>creg_nodes = creg_nodes (creg w), clientCount = clientCount (creg w),
      registryLock = 1,
      notEmpty = notEmpty (creg w) + (if clientCount (creg w) = 0 then 1 else 0)\<rparr>)"
proof -
  assume a: "creg_unregister api c w = Inr (r, w')" and l: "registryLock (creg w) = 1"
  let ?cr = "creg w"
  from a l obtain fd atHead where
    h: "(case creg_nodes ?cr of
           Some c # _ \<Rightarrow> obind (client_get_fd api (Some c) (cw w)) (\<lambda>crFd. Inr (crFd = fd))
         | _ \<Rightarrow> Inr False) = Inr atHead"
    and b: "(if atHead then unreg_found api c 0 w
       else obind (fd_loop api fd (creg_nodes ?cr) (cw w)) (\<lambda>found.
         if found then unreg_found api c 0 w
         else let cr = ?cr; cr' = (if clientCount cr = 0 then cr\<lparr>notEmpty := V (notEmpty cr)\<rparr> else cr)
           in Inr (-1, w\<lparr>creg := cr'\<lparr>registryLock := V 0\<rparr>\<rparr>))) = Inr (r, w')"
  proof -
    from a [unfolded creg_unregister_def l P_1 obind_simps]
    obtain fd where 1: "obind (case creg_nodes ?cr of
           Some c # _ \<Rightarrow> obind (client_get_fd api (Some c) (cw w)) (\<lambda>crFd. Inr (crFd = fd))
         | _ \<Rightarrow> Inr False) (\<lambda>atHead. if atHead then unreg_found api c 0 w
       else obind (fd_loop api fd (creg_nodes ?cr) (cw w)) (\<lambda>found.
         if found then unreg_found api c 0 w
         else let cr = ?cr; cr' = (if clientCount cr = 0 then cr\<lparr>notEmpty := V (notEmpty cr)\<rparr> else cr)
           in Inr (-1, w\<lparr>creg := cr'\<lparr>registryLock := V 0\<rparr>\<rparr>))) = Inr (r, w')"
      by (rule obind_Inr_iff [THEN iffD1, THEN exE, OF _ conjE])
    from obind_Inr_iff [THEN iffD1, OF 1] show ?thesis by (elim exE conjE) (rule that)
  qed
  have ne: "creg_nodes ?cr \<noteq> []" if "atHead \<or> fd_loop api fd (creg_nodes ?cr) (cw w) = Inr True"
    using h that by auto
  from b consider "creg_nodes ?cr \<noteq> []" "unreg_found api c 0 w = Inr (r, w')"
    | "r = -1" "creg w' = (if clientCount ?cr = 0 then ?cr\<lparr>notEmpty := V (notEmpty ?cr)\<rparr> else ?cr)\<lparr>registryLock := V 0\<rparr>"
    using ne by (auto simp: obind_Inr_iff Let_def split: if_splits)
  then show ?thesis
  proof cases
    case 1
    with unreg_found_Inr [OF 1(2)] show ?thesis by simp
  next
    case 2
    then show ?thesis by (cases ?cr) auto
  qed
qed

lemma creg_run_inv: "creg_run api w d \<Longrightarrow> creg_inv (creg w) d"
proof (induction rule: creg_run.induct)
  case (run_init w)
  then show ?case by (simp add: creg_init_def creg_inv_def)
next
  case (run_register w d fd c w')
  from run_register.IH have "registryLock (creg w) = 1" by (simp add: creg_inv_def)
  from register_Inr [OF run_register.hyps(2) this] run_register.IH show ?case
    by (auto simp: creg_inv_def split: if_splits)
next
  case (run_unregister w d c r w')
  from run_unregister.IH have "registryLock (creg w) = 1" by (simp add: creg_inv_def)
  from unregister_Inr [OF run_unregister.hyps(2) this] run_unregister.IH show ?case
    by (auto simp: creg_inv_def split: if_splits)
next
  case (run_wait w d w')
  then show ?case
    by (cases "creg w") (auto simp: creg_wait_for_empty_def creg_inv_def obind_Inr_iff P_Inr_iff)
qed (simp add: creg_inv_def)

lemma creg_wait_value:
  "creg_wait_for_empty w = (if notEmpty (creg w) = 0 then Inl Blocked else Inr ((), w))"
  by (cases w; cases "creg w"; cases "notEmpty (creg w)") (auto simp: creg_wait_for_empty_def)

subsection \<open>What the registry relies on\<close>

text \<open>
  \<open>client.h\<close> promises: a created client is new, has the file descriptor given and one reference; its
  descriptor can be read as long as it lives; the last \<open>client_unref\<close> frees it, any other lowers its
  count. \<open>view\<close> is the descriptor and the count of each client that lives.
\<close>

definition client_lib :: "('w, 'c) client_api \<Rightarrow> ('w cw \<Rightarrow> 'c \<Rightarrow> (int \<times> nat) option) \<Rightarrow> bool" where
  "client_lib api view \<longleftrightarrow>
     (\<forall>v fd. \<exists>c v'. client_create api fd v = Inr (Some c, v') \<and> view v c = None
        \<and> view v' = (view v)(c \<mapsto> (fd, 1)))
   \<and> (\<forall>v c. client_get_fd api (Some c) v
        = (case view v c of None \<Rightarrow> Inl MemFault | Some (fd, _) \<Rightarrow> Inr fd))
   \<and> (\<forall>v c fd n. view v c = Some (fd, n) \<longrightarrow> (\<exists>v'. client_unref api (Some c) v = Inr ((), v')
        \<and> view v' = (view v)(c := if n \<le> 1 then None else Some (fd, n - 1))))
   \<and> (\<forall>v c. view (client_free api (Some c) v) = (view v)(c := None))
   \<and> (\<forall>v fd. view (os_shutdown api fd v) = view v)"

lemma client_libD:
  assumes "client_lib api view"
  shows "\<exists>c v'. client_create api fd v = Inr (Some c, v') \<and> view v c = None \<and> view v' = (view v)(c \<mapsto> (fd, 1))"
    and "view v c = Some (fd, n) \<Longrightarrow> client_get_fd api (Some c) v = Inr fd"
    and "view v c = None \<Longrightarrow> client_get_fd api (Some c) v = Inl MemFault"
    and "view v c = Some (fd, n) \<Longrightarrow> \<exists>v'. client_unref api (Some c) v = Inr ((), v')
        \<and> view v' = (view v)(c := if n \<le> 1 then None else Some (fd, n - 1))"
    and "view (client_free api (Some c) v) = (view v)(c := None)"
    and "view (os_shutdown api fd v) = view v"
proof -
  note lib = assms [unfolded client_lib_def]
  show "\<exists>c v'. client_create api fd v = Inr (Some c, v') \<and> view v c = None \<and> view v' = (view v)(c \<mapsto> (fd, 1))"
    using lib by blast
  show "view v c = Some (fd, n) \<Longrightarrow> client_get_fd api (Some c) v = Inr fd"
    using lib [THEN conjunct2, THEN conjunct1, rule_format, of c v] by simp
  show "view v c = None \<Longrightarrow> client_get_fd api (Some c) v = Inl MemFault"
    using lib [THEN conjunct2, THEN conjunct1, rule_format, of c v] by simp
  show "view v c = Some (fd, n) \<Longrightarrow> \<exists>v'. client_unref api (Some c) v = Inr ((), v')
        \<and> view v' = (view v)(c := if n \<le> 1 then None else Some (fd, n - 1))"
    using lib by blast
  show "view (client_free api (Some c) v) = (view v)(c := None)" using lib by blast
  show "view (os_shutdown api fd v) = view v" using lib by blast
qed

text \<open>A client library: the clients are numbered in order of creation.\<close>

type_synonym demo_w = "(int \<times> nat) option list"

definition demo_view :: "demo_w cw \<Rightarrow> nat \<Rightarrow> (int \<times> nat) option" where
  "demo_view v c = (if c < length (snd v) then snd v ! c else None)"

definition demo_api :: "(demo_w, nat) client_api" where
  "demo_api = \<lparr>
     client_create = (\<lambda>fd (pw, l). Inr (Some (length l), (pw, l @ [Some (fd, 1)]))),
     client_get_fd = (\<lambda>q v. case q of None \<Rightarrow> Inl MemFault | Some c \<Rightarrow>
        (case demo_view v c of None \<Rightarrow> Inl MemFault | Some (fd, _) \<Rightarrow> Inr fd)),
     client_unref = (\<lambda>q v. case q of None \<Rightarrow> Inl MemFault | Some c \<Rightarrow>
        (case demo_view v c of None \<Rightarrow> Inl MemFault
         | Some (fd, n) \<Rightarrow> Inr ((), (fst v, (snd v)[c := if n \<le> 1 then None else Some (fd, n - 1)])))),
     client_get_player = (\<lambda>q v. Inr q),
     client_free = (\<lambda>q v. case q of None \<Rightarrow> v | Some c \<Rightarrow> (fst v, (snd v)[c := None])),
     os_shutdown = (\<lambda>fd v. v)\<rparr>"

lemma demo_lib: "client_lib demo_api demo_view"
proof -
  have 1: "demo_view (pw, l @ [Some (fd, Suc 0)]) = (demo_view (pw, l))(length l \<mapsto> (fd, Suc 0))" for pw l fd
    by (rule ext) (auto simp: demo_view_def nth_append)
  have 2: "demo_view (pw, l[c := x]) = (demo_view (pw, l))(c := if c < length l then x else None)" for pw l c x
    by (rule ext) (auto simp: demo_view_def nth_list_update)
  show ?thesis
    unfolding client_lib_def demo_api_def
    by (auto simp: 1 2 split: option.splits) (auto simp: demo_view_def split: if_splits)
qed

definition demo_start :: "(demo_w, nat) jworld" where
  "demo_start = \<lparr>creg = the (creg_init True True), cw = (empty_world, [])\<rparr>"

subsection \<open>Properties\<close>

text \<open>
  Registering a descriptor makes a new client with one reference, appends it to the registry and
  counts it, leaving the lock free and every other client as it was; at 64 clients the registry
  refuses, returns NULL, is unchanged and no client is left behind.
\<close>

theorem creg_register_spec:
  assumes "client_lib api view" and "registryLock (creg w) = 1"
    and "creg_nodes (creg w) = [] \<Longrightarrow> notEmpty (creg w) = 1"
  shows "\<exists>r w'. creg_register api fd w = Inr (r, w') \<and>
    (if clientCount (creg w) < MAX_CLIENTS then
       \<exists>c. r = Some c \<and> view (cw w) c = None \<and> view (cw w') = (view (cw w))(c \<mapsto> (fd, 1))
         \<and> creg w' = \<lparr>creg_nodes = creg_nodes (creg w) @ [Some c],
              clientCount = clientCount (creg w) + 1, registryLock = 1,
              notEmpty = (if creg_nodes (creg w) = [] then 0 else notEmpty (creg w))\<rparr>
     else r = None \<and> creg w' = creg w \<and> view (cw w') = view (cw w))"
proof -
  from client_libD(1) [OF assms(1)] obtain c v where
    c: "client_create api fd (cw w) = Inr (Some c, v)" "view (cw w) c = None"
      "view v = (view (cw w))(c \<mapsto> (fd, 1))" by blast
  have "(view (cw w))(c := None) = view (cw w)" using c(2) by (simp add: fun_upd_idem)
  then show ?thesis
    using c assms(2,3) client_libD(5) [OF assms(1), of c v]
    by (cases "creg w") (auto simp: creg_register_def bnd_def on_cw_def Let_def)
qed

theorem creg_register_spec_witness:
  "\<exists>w'. creg_register demo_api 7 demo_start = Inr (Some 0, w') \<and> clientCount (creg w') = 1"
proof -
  have "registryLock (creg demo_start) = 1" "notEmpty (creg demo_start) = 1"
    "clientCount (creg demo_start) < MAX_CLIENTS"
    by (simp_all add: demo_start_def creg_init_def MAX_CLIENTS_def)
  with creg_register_spec [OF demo_lib, of demo_start 7] obtain c w' where
    r: "creg_register demo_api 7 demo_start = Inr (Some c, w')" "clientCount (creg w') = 1"
    by (auto simp: demo_start_def creg_init_def)
  have "c = 0" using r(1)
    by (simp add: creg_register_def demo_start_def demo_api_def on_cw_def bnd_def creg_init_def MAX_CLIENTS_def)
  with r show ?thesis by auto
qed



lemma client_named_value:
  assumes "client_get_player api q v = Inr p" and "name_at (players (fst v)) p = Some m"
  shows "client_named api q user v = Inr (m = user)"
  using assms
  by (auto simp: client_named_def same_name_def player_get_name_def deref_player_def name_at_def
      split: option.splits)

lemma creg_lookup_loop_value:
  assumes "\<forall>q \<in> set qs. \<exists>p. client_get_player api q v = Inr p \<and> name_at (players (fst v)) p = Some (nm q)"
  shows "creg_lookup_loop api qs user v
    = Inr (case find (\<lambda>q. nm q = user) qs of None \<Rightarrow> None | Some q \<Rightarrow> q)"
  using assms by (induction qs) (auto simp: client_named_value)

text \<open>
  On a registry whose clients are all logged in, \<open>creg_lookup\<close> returns the first registered client
  whose player has the name, NULL if there is none, and changes nothing. On an empty registry it
  returns NULL with the lock still taken: every later lookup, listing, registration and shutdown
  waits for ever.
\<close>

theorem creg_lookup_spec:
  assumes "registryLock (creg w) = 1"
    and "\<forall>q \<in> set (creg_nodes (creg w)). q \<noteq> None \<and> (\<exists>p. client_get_player api q (cw w) = Inr p
           \<and> name_at (players (fst (cw w))) p = Some (nm q))"
  shows "(creg_nodes (creg w) \<noteq> [] \<longrightarrow> creg_lookup api user w
      = Inr (case find (\<lambda>q. nm q = user) (creg_nodes (creg w)) of None \<Rightarrow> None | Some q \<Rightarrow> q, w))
    \<and> (creg_nodes (creg w) = [] \<longrightarrow> (\<exists>w'. creg_lookup api user w = Inr (None, w')
        \<and> (\<forall>u. creg_lookup api u w' = Inl Blocked) \<and> (\<forall>junk. creg_all_players api junk w' = Inl Blocked)
        \<and> (\<forall>c. creg_unregister api c w' = Inl Blocked) \<and> creg_shutdown_all api w' = Inl Blocked
        \<and> (\<forall>fd r. creg_register api fd w' \<noteq> Inr r)))"
proof (cases "creg_nodes (creg w)")
  case Nil
  then show ?thesis
    using assms(1)
    by (auto simp: creg_lookup_def creg_all_players_def creg_unregister_def creg_shutdown_all_def
        creg_register_def bnd_eq_Inr on_cw_Inr Let_def)
next
  case (Cons q qs)
  have w: "w\<lparr>creg := (creg w)\<lparr>registryLock := Suc 0\<rparr>\<rparr> = w"
    using assms(1) by (cases w; cases "creg w") simp
  from assms(2) Cons obtain p where p: "q \<noteq> None" "client_get_player api q (cw w) = Inr p"
    "name_at (players (fst (cw w))) p = Some (nm q)" by auto
  have l: "creg_lookup_loop api (q # qs) user (cw w)
      = Inr (case find (\<lambda>q. nm q = user) (q # qs) of None \<Rightarrow> None | Some q \<Rightarrow> q)"
    using assms(2) Cons by (intro creg_lookup_loop_value) auto
  show ?thesis
    using Cons p l assms(1)
    by (auto simp: creg_lookup_def Let_def w client_named_value [OF p(2,3)] simp del: creg_lookup_loop.simps)
qed

definition demo_players :: pworld where
  "demo_players = empty_world\<lparr>players := [0 \<mapsto> fresh_player ''ann'', 1 \<mapsto> fresh_player ''bob'']\<rparr>"

theorem creg_lookup_spec_witness:
  "\<exists>w. creg_nodes (creg w) = [Some 0, Some 1] \<and> creg_lookup demo_api ''bob'' w = Inr (Some 1, w)"
proof -
  let ?w = "\<lparr>creg = \<lparr>creg_nodes = [Some 0, Some 1], clientCount = 2, registryLock = 1, notEmpty = 0\<rparr>,
     cw = (demo_players, [Some (7, 1), Some (8, 1)])\<rparr>"
  have a: "registryLock (creg ?w) = 1" by simp
  have b: "\<forall>q \<in> set (creg_nodes (creg ?w)). q \<noteq> None \<and> (\<exists>p. client_get_player demo_api q (cw ?w) = Inr p
           \<and> name_at (players (fst (cw ?w))) p = Some (if q = Some 0 then ''ann'' else ''bob''))"
    by (simp add: demo_api_def demo_players_def name_at_def fresh_player_def)
  from creg_lookup_spec [where api = demo_api and w = ?w and user = "''bob''", OF a b]
  have "creg_lookup demo_api ''bob'' ?w = Inr (Some 1, ?w)" by simp
  then show ?thesis by (intro exI [of _ ?w]) simp
qed

text \<open>
  The array of \<open>creg_all_players\<close> has one element more than the count: the call can only return when
  the clients in the list, which unregistering does not take out, are no more than that.
\<close>

lemma all_players_loop_bound:
  "all_players_loop api qs k arr v = Inr (arr', v') \<Longrightarrow> \<forall>q \<in> set qs. q \<noteq> None \<Longrightarrow>
   length arr' = length arr \<and> (qs \<noteq> [] \<longrightarrow> k + int (length qs) \<le> int (length arr))"
proof (induction api qs k arr v arbitrary: arr' v' rule: all_players_loop.induct)
  case (1 api c qs count arr v)
  from "1.prems" obtain p arr1 u st where s: "client_get_player api (Some c) v = Inr p"
    "arr_set arr count p = Inr arr1" "player_unref p (players (fst v)) = Inr (u, st)"
    "all_players_loop api qs (count + 1) arr1 ((fst v)\<lparr>players := st\<rparr>, snd v) = Inr (arr', v')"
    by (auto simp: obind_Inr_iff)
  have b: "length arr1 = length arr" "count < int (length arr)"
    using s(2) by (auto simp: arr_set_def split: if_splits)
  from "1.IH" [OF s(4)] "1.prems"(2) b show ?case by (cases qs) auto
qed auto

lemma creg_all_players_bound:
  assumes "creg_all_players api junk w = Inr (arr, w')" and "\<And>n. length (junk n) = n"
    and "\<forall>q \<in> set (creg_nodes (creg w)). q \<noteq> None"
  shows "int (length (creg_nodes (creg w))) \<le> clientCount (creg w) + 1
    \<or> creg_nodes (creg w) = []"
proof (cases "creg_nodes (creg w) = []")
  case False
  let ?cr = "creg w"
  have c: "\<not> clientCount ?cr + 1 < 0" and e: "\<exists>l. P (registryLock ?cr) = Inr l"
    using assms(1) by (auto simp: creg_all_players_def obind_Inr_iff Let_def split: if_splits)
  from e c False assms(1) obtain a v where
    "all_players_loop api (creg_nodes ?cr) 0 (junk (nat (clientCount ?cr + 1))) (cw w) = Inr (a, v)"
    by (auto simp: creg_all_players_def obind_Inr_iff Let_def)
  from all_players_loop_bound [OF this assms(3)] False c assms(2) show ?thesis by auto
qed simp

end
