(* ===== verification/Server.thy ===== *)
theory Server
  imports ClientRegistry Protocol
begin

section \<open>The service loop (hw5/src/server.c)\<close>

text \<open>
  One service thread: it registers its descriptor, then receives packets and answers each until the
  connection ends. The packets come from \<open>Protocol\<close>, the registries from \<open>ClientRegistry\<close> and
  \<open>PlayerRegistry\<close>; the operations of \<open>client.h\<close> it calls are the record \<open>service_api\<close>.
\<close>

definition JEUX_NO_PKT :: byte where "JEUX_NO_PKT = 0"
definition JEUX_LOGIN_PKT :: byte where "JEUX_LOGIN_PKT = 1"
definition JEUX_USERS_PKT :: byte where "JEUX_USERS_PKT = 2"
definition JEUX_INVITE_PKT :: byte where "JEUX_INVITE_PKT = 3"
definition JEUX_REVOKE_PKT :: byte where "JEUX_REVOKE_PKT = 4"
definition JEUX_ACCEPT_PKT :: byte where "JEUX_ACCEPT_PKT = 5"
definition JEUX_DECLINE_PKT :: byte where "JEUX_DECLINE_PKT = 6"
definition JEUX_MOVE_PKT :: byte where "JEUX_MOVE_PKT = 7"
definition JEUX_RESIGN_PKT :: byte where "JEUX_RESIGN_PKT = 8"
definition JEUX_ACK_PKT :: byte where "JEUX_ACK_PKT = 9"
definition JEUX_NACK_PKT :: byte where "JEUX_NACK_PKT = 10"

lemmas pkt_types = JEUX_NO_PKT_def JEUX_LOGIN_PKT_def JEUX_USERS_PKT_def JEUX_INVITE_PKT_def
  JEUX_REVOKE_PKT_def JEUX_ACCEPT_PKT_def JEUX_DECLINE_PKT_def JEUX_MOVE_PKT_def JEUX_RESIGN_PKT_def
  JEUX_ACK_PKT_def JEUX_NACK_PKT_def

text \<open>\<open>now\<close> is the monotonic clock, seconds and nanoseconds; \<open>htonl\<close> reverses the four bytes.\<close>

record ('w, 'c) service_api =
  client_login :: "'c option \<Rightarrow> pptr \<Rightarrow> ('w cw, int) action"
  client_send_ack :: "'c option \<Rightarrow> ('w cw, unit) action"
  client_send_nack :: "'c option \<Rightarrow> ('w cw, unit) action"
  client_send_packet :: "'c option \<Rightarrow> jeux_packet_header \<Rightarrow> string option \<Rightarrow> ('w cw, unit) action"
  client_make_invitation :: "'c option \<Rightarrow> 'c option \<Rightarrow> int \<Rightarrow> int \<Rightarrow> ('w cw, int) action"
  client_revoke_invitation :: "'c option \<Rightarrow> byte \<Rightarrow> ('w cw, int) action"
  client_decline_invitation :: "'c option \<Rightarrow> byte \<Rightarrow> ('w cw, int) action"
  client_accept_invitation :: "'c option \<Rightarrow> byte \<Rightarrow> ('w cw, int \<times> string option) action"
  client_make_move :: "'c option \<Rightarrow> byte \<Rightarrow> byte list option \<Rightarrow> ('w cw, int) action"
  client_resign_game :: "'c option \<Rightarrow> byte \<Rightarrow> ('w cw, int) action"
  now :: "'w \<Rightarrow> 32 word \<times> 32 word"

definition htonl :: "32 word \<Rightarrow> 32 word" where
  "htonl w = of_le32 (rev (le32 w))"

definition ack_hdr :: "byte \<Rightarrow> nat \<Rightarrow> 32 word \<times> 32 word \<Rightarrow> jeux_packet_header" where
  "ack_hdr i len t = \<lparr>pkt_type = JEUX_ACK_PKT, pkt_id = i, pkt_role = 0,
     pkt_size = ntohs (of_nat len), timestamp_sec = htonl (fst t), timestamp_nsec = htonl (snd t),
     padding = (0, 0, 0)\<rparr>"

subsection \<open>C strings in buffers\<close>

text \<open>
  A payload is used as a C string although nothing ends it: it extends to the first zero byte, in
  the payload or in the memory after it (\<open>beyond\<close>).
\<close>

definition payload_text :: "byte list \<Rightarrow> byte list option \<Rightarrow> string outcome" where
  "payload_text beyond p = (case p of None \<Rightarrow> Inl MemFault
     | Some bs \<Rightarrow> (let m = bs @ beyond in
         if 0 \<in> set m then Inr (map (\<lambda>b. char_of (unat b)) (takeWhile (\<lambda>b. b \<noteq> 0) m))
         else Inl MemFault))"

text \<open>\<open>c_strcat\<close> on a buffer: the terminator is found in the buffer and the text must fit with its own.\<close>

definition c_strlen :: "string \<Rightarrow> nat outcome" where
  "c_strlen buf = (let k = length (takeWhile (\<lambda>c. c \<noteq> CHR 0x00) buf) in
     if k < length buf then Inr k else Inl MemFault)"

definition c_strcat :: "string \<Rightarrow> string \<Rightarrow> string outcome" where
  "c_strcat buf s = obind (c_strlen buf) (\<lambda>k.
     if k + length s + 1 \<le> length buf
     then Inr (take k buf @ s @ [CHR 0x00] @ drop (k + length s + 1) buf)
     else Inl MemFault)"

definition c_realloc :: "(nat \<Rightarrow> string) \<Rightarrow> string option \<Rightarrow> nat \<Rightarrow> string" where
  "c_realloc junk old n = (let o' = take n (case old of None \<Rightarrow> [] | Some b \<Rightarrow> b)
     in o' @ take (n - length o') (junk n @ replicate n CHR 0x00))"

text \<open>The loop that builds the answer to USERS, over the NULL-terminated array of players.\<close>

fun users_loop :: "(nat \<Rightarrow> string) \<Rightarrow> pstore \<Rightarrow> pptr list \<Rightarrow> string option \<Rightarrow> string option outcome" where
  "users_loop junk st (Some a # qs) retStr =
     obind (player_get_rating (Some a) st) (\<lambda>r.
     let ratingContainer = show_int r in
     if length ratingContainer + 1 > 10 then Inl MemFault else
     obind (player_get_name (Some a) st) (\<lambda>nm. case nm of None \<Rightarrow> Inl MemFault | Some name \<Rightarrow>
     let curLineLen = length name + 1 + length ratingContainer + 1 in
     obind (c_strcat (c_realloc junk retStr curLineLen) name) (\<lambda>b1.
     obind (c_strcat b1 [tab]) (\<lambda>b2.
     obind (c_strcat b2 ratingContainer) (\<lambda>b3.
     obind (c_strcat b3 [nl]) (\<lambda>b4.
       users_loop junk st qs (Some b4)))))))"
| "users_loop junk st (None # qs) retStr = Inr retStr"
| "users_loop junk st [] retStr = Inl MemFault"

subsection \<open>The dispatch\<close>

text \<open>Parameters of a run: the client operations, memory contents the C code reads uninitialised.\<close>

record ('w, 'c) service_env =
  capi :: "('w, 'c) client_api"
  sapi :: "('w, 'c) service_api"
  junk_ptrs :: "nat \<Rightarrow> pptr list"
  junk_text :: "nat \<Rightarrow> string"
  beyond :: "byte list"
  player_sem_ok :: bool

type_synonym ('w, 'c, 'a) jaction = "(('w, 'c) jworld, 'a) action"

text \<open>The common \<open>if((client_x(...)) == 0) ack else nack\<close>.\<close>

definition ack_or_nack :: "('w, 'c) service_env \<Rightarrow> 'c option \<Rightarrow> ('w cw, int) action \<Rightarrow> ('w, 'c, unit) jaction" where
  "ack_or_nack E cur op = bnd (on_cw op) (\<lambda>r.
     if r = 0 then on_cw (client_send_ack (sapi E) cur) else on_cw (client_send_nack (sapi E) cur))"

definition do_login :: "('w, 'c) service_env \<Rightarrow> 'c option \<Rightarrow> byte list option \<Rightarrow> ('w, 'c, bool) jaction" where
  "do_login E cur payload w = obind (payload_text (beyond E) payload) (\<lambda>name.
     obind (preg_register (player_sem_ok E) name (fst (cw w))) (\<lambda>(curPlayer, pw).
     bnd (on_cw (client_login (sapi E) cur curPlayer)) (\<lambda>r.
       if r = 0 then sq (on_cw (client_send_ack (sapi E) cur)) (ret True)
       else sq (on_cw (client_send_nack (sapi E) cur)) (ret False))
     (w\<lparr>cw := (pw, snd (cw w))\<rparr>)))"

definition do_users :: "('w, 'c) service_env \<Rightarrow> 'c option \<Rightarrow> ('w, 'c, unit) jaction" where
  "do_users E cur = bnd (creg_all_players (capi E) (junk_ptrs E)) (\<lambda>playerArr w.
     obind (users_loop (junk_text E) (players (fst (cw w))) playerArr None) (\<lambda>retStr.
     case retStr of None \<Rightarrow> Inl MemFault
     | Some b \<Rightarrow> obind (c_strlen b) (\<lambda>n.
         on_cw (client_send_packet (sapi E) cur (ack_hdr 0 n (now (sapi E) (snd (cw w)))) (Some (take n b))) w)))"

definition do_invite :: "('w, 'c) service_env \<Rightarrow> 'c option \<Rightarrow> byte \<Rightarrow> byte list option \<Rightarrow> ('w, 'c, unit) jaction" where
  "do_invite E cur role payload w = obind (payload_text (beyond E) payload) (\<lambda>user.
     bnd (creg_lookup (capi E) user) (\<lambda>otherClient.
       let senderRole = uint role;
           targetRole = (if senderRole = 2 then 1 else 2)
       in bnd (on_cw (client_make_invitation (sapi E) cur otherClient targetRole senderRole)) (\<lambda>invID w.
         if invID \<noteq> -1
         then on_cw (client_send_packet (sapi E) cur
                (ack_hdr (word_of_int invID) 0 (now (sapi E) (snd (cw w)))) None) w
         else on_cw (client_send_nack (sapi E) cur) w)) w)"

definition do_accept :: "('w, 'c) service_env \<Rightarrow> 'c option \<Rightarrow> byte \<Rightarrow> ('w, 'c, unit) jaction" where
  "do_accept E cur i = bnd (on_cw (client_accept_invitation (sapi E) cur i)) (\<lambda>(r, retMsg) w.
     if r = 0 then
       (case retMsg of
          Some msg \<Rightarrow> on_cw (client_send_packet (sapi E) cur
             (ack_hdr 0 (length msg) (now (sapi E) (snd (cw w)))) (Some msg)) w
        | None \<Rightarrow> on_cw (client_send_ack (sapi E) cur) w)
     else on_cw (client_send_nack (sapi E) cur) w)"

text \<open>The \<open>switch\<close>; the result is the new \<open>loggedIn\<close>.\<close>

definition dispatch :: "('w, 'c) service_env \<Rightarrow> 'c option \<Rightarrow> bool \<Rightarrow> jeux_packet_header \<Rightarrow>
    byte list option \<Rightarrow> ('w, 'c, bool) jaction" where
  "dispatch E cur loggedIn hdr payload =
     (let t = pkt_type hdr; i = pkt_id hdr; S = sapi E;
          nack = on_cw (client_send_nack S cur);
          guarded = (\<lambda>op. sq (if loggedIn then op else nack) (ret loggedIn))
      in
      if t = JEUX_LOGIN_PKT then (if \<not> loggedIn then do_login E cur payload else sq nack (ret loggedIn))
      else if t = JEUX_USERS_PKT then guarded (do_users E cur)
      else if t = JEUX_INVITE_PKT then guarded (do_invite E cur (pkt_role hdr) payload)
      else if t = JEUX_REVOKE_PKT then guarded (ack_or_nack E cur (client_revoke_invitation S cur i))
      else if t = JEUX_DECLINE_PKT then guarded (ack_or_nack E cur (client_decline_invitation S cur i))
      else if t = JEUX_ACCEPT_PKT then guarded (do_accept E cur i)
      else if t = JEUX_MOVE_PKT then guarded (ack_or_nack E cur (client_make_move S cur i payload))
      else if t = JEUX_RESIGN_PKT then guarded (ack_or_nack E cur (client_resign_game S cur i))
      else sq nack (ret loggedIn))"

subsection \<open>The loop\<close>

fun rd_size :: "rd_event list \<Rightarrow> nat" where
  "rd_size [] = 0"
| "rd_size (Data bs # es) = Suc (length bs + rd_size es)"
| "rd_size (e # es) = Suc (rd_size es)"

lemma readn_loop_size:
  "rio_readn_loop n buf es = (r, es') \<Longrightarrow>
   rd_size es' \<le> rd_size es \<and> (\<forall>bs. r = Some bs \<longrightarrow> bs \<noteq> buf \<longrightarrow> rd_size es' < rd_size es)"
proof (induction n buf es rule: rio_readn_loop.induct)
  case (1 nleft buf es)
  note eq = "1.prems" [unfolded rio_readn_loop.simps [of nleft buf es]]
  show ?case
  proof (cases "nleft = 0 \<or> es = []")
    case True
    then show ?thesis using eq by (auto split: list.splits if_splits)
  next
    case False
    then obtain e es1 where es: "es = e # es1" "nleft \<noteq> 0" by (cases es) auto
    show ?thesis
    proof (cases e)
      case (Data bs)
      show ?thesis
      proof (cases "bs \<noteq> [] \<and> length bs \<le> nleft")
        case True
        with eq es Data have "rio_readn_loop (nleft - length bs) (buf @ bs) es1 = (r, es')" by simp
        from "1.IH"(1) [OF es(2,1) Data _ _ this] True es Data show ?thesis by auto
      next
        case False
        then show ?thesis using eq es Data by (auto split: if_splits)
      qed
    next
      case RdEintr
      with eq es have "rio_readn_loop nleft buf es1 = (r, es')" by simp
      from "1.IH"(2) [OF es(2,1) RdEintr this] es RdEintr show ?thesis by auto
    next
      case RdErr
      then show ?thesis using eq es by auto
    qed
  qed
qed

lemma recv_size:
  "proto_recv_packet old junk es = (Some p, es') \<Longrightarrow> rd_size es' < rd_size es"
  by (auto simp: proto_recv_packet_def rio_readn_def Let_def dest!: readn_loop_size
      split: prod.splits option.splits if_splits)

definition EMPTY_HDR :: jeux_packet_header where
  "EMPTY_HDR = \<lparr>pkt_type = JEUX_NO_PKT, pkt_id = 0, pkt_role = 0, pkt_size = 0, timestamp_sec = 0,
     timestamp_nsec = 0, padding = (0, 0, 0)\<rparr>"

text \<open>\<open>heap n\<close>: what \<open>malloc\<close> leaves in a payload buffer. The result also says what was left unread.\<close>

function service_loop :: "('w, 'c) service_env \<Rightarrow> 'c option \<Rightarrow> (nat \<Rightarrow> byte list) \<Rightarrow> rd_event list \<Rightarrow>
    bool \<Rightarrow> ('w, 'c, bool) jaction" where
  "service_loop E cur heap es loggedIn w =
     (case proto_recv_packet EMPTY_HDR heap es of
        (None, es') \<Rightarrow> Inr (loggedIn, w)
      | (Some (hdr, payload), es') \<Rightarrow>
          (case dispatch E cur loggedIn hdr payload w of
             Inl e \<Rightarrow> Inl e
           | Inr (loggedIn', w') \<Rightarrow> service_loop E cur heap es' loggedIn' w'))"
  by pat_completeness auto

termination
  by (relation "measure (\<lambda>(E, cur, heap, es, l, w). rd_size es)") (auto dest: recv_size [OF sym])

declare service_loop.simps [simp del]

definition jeux_client_service :: "('w, 'c) service_env \<Rightarrow> (nat \<Rightarrow> byte list) \<Rightarrow> int \<Rightarrow> rd_event list \<Rightarrow>
    ('w, 'c, bool) jaction" where
  "jeux_client_service E heap fd es =
     bnd (creg_register (capi E) fd) (\<lambda>curClient. service_loop E curClient heap es False)"

text \<open>The packets a connection delivers, and the dispatch over a list of them.\<close>

function packets :: "(nat \<Rightarrow> byte list) \<Rightarrow> rd_event list \<Rightarrow> (jeux_packet_header \<times> byte list option) list" where
  "packets heap es = (case proto_recv_packet EMPTY_HDR heap es of
     (None, es') \<Rightarrow> [] | (Some p, es') \<Rightarrow> p # packets heap es')"
  by pat_completeness auto

termination
  by (relation "measure (\<lambda>(heap, es). rd_size es)") (auto dest: recv_size [OF sym])

declare packets.simps [simp del]

fun serve :: "('w, 'c) service_env \<Rightarrow> 'c option \<Rightarrow> (jeux_packet_header \<times> byte list option) list \<Rightarrow> bool \<Rightarrow>
    ('w, 'c, bool) jaction" where
  "serve E cur [] l = ret l"
| "serve E cur (p # ps) l = bnd (dispatch E cur l (fst p) (snd p)) (serve E cur ps)"

lemma service_loop_serve: "service_loop E cur heap es l w = serve E cur (packets heap es) l w"
proof (induction E cur heap es l w rule: service_loop.induct)
  case (1 E cur heap es l w)
  show ?case
  proof (cases "proto_recv_packet EMPTY_HDR heap es")
    case (Pair r es')
    show ?thesis
    proof (cases r)
      case None
      then show ?thesis using Pair
        by (simp add: service_loop.simps [of E cur heap es] packets.simps [of heap es])
    next
      case (Some p)
      obtain h pl where p: "p = (h, pl)" by (cases p)
      have ih: "dispatch E cur l h pl w = Inr (l', w') \<Longrightarrow>
          service_loop E cur heap es' l' w' = serve E cur (packets heap es') l' w'" for l' w'
        using "1.IH" [OF Pair [symmetric] Some p [symmetric]] by simp
      show ?thesis using Pair Some p ih
        by (simp add: service_loop.simps [of E cur heap es] packets.simps [of heap es] bnd_def
            split: sum.splits)
    qed
  qed
qed

subsection \<open>What the loop relies on\<close>

text \<open>
  \<open>out\<close> lists the types of the packets sent to this client. The operations of \<open>client.h\<close> send it
  notifications but leave the answer to the request, the ACK or NACK, to the service loop; the three
  send functions send one packet.
\<close>

definition replies :: "byte list \<Rightarrow> byte list" where
  "replies ts = filter (\<lambda>t. t = JEUX_ACK_PKT \<or> t = JEUX_NACK_PKT) ts"

definition quiet :: "('w \<Rightarrow> byte list) \<Rightarrow> ('w cw, 'a) action \<Rightarrow> bool" where
  "quiet out m \<longleftrightarrow> (\<forall>v r v'. m v = Inr (r, v') \<longrightarrow> replies (out (snd v')) = replies (out (snd v)))"

definition sends :: "('w \<Rightarrow> byte list) \<Rightarrow> byte \<Rightarrow> ('w cw, 'a) action \<Rightarrow> bool" where
  "sends out t m \<longleftrightarrow> (\<forall>v r v'. m v = Inr (r, v') \<longrightarrow> out (snd v') = out (snd v) @ [t])"

definition service_lib :: "('w, 'c) service_api \<Rightarrow> ('w \<Rightarrow> byte list) \<Rightarrow> 'c option \<Rightarrow> bool" where
  "service_lib S out cur \<longleftrightarrow>
     sends out JEUX_ACK_PKT (client_send_ack S cur) \<and> sends out JEUX_NACK_PKT (client_send_nack S cur)
   \<and> (\<forall>h m. sends out (pkt_type h) (client_send_packet S cur h m))
   \<and> (\<forall>p. quiet out (client_login S cur p)) \<and> (\<forall>c r s. quiet out (client_make_invitation S cur c r s))
   \<and> (\<forall>i. quiet out (client_revoke_invitation S cur i) \<and> quiet out (client_decline_invitation S cur i)
        \<and> quiet out (client_accept_invitation S cur i) \<and> quiet out (client_resign_game S cur i)
        \<and> (\<forall>m. quiet out (client_make_move S cur i m)))"

text \<open>
  The protocol as a client sees it: each packet is answered by one ACK or NACK, only a LOGIN can be
  acknowledged before login, no LOGIN after it, and the login takes effect with its ACK.
\<close>

fun session_ok :: "bool \<Rightarrow> (jeux_packet_header \<times> byte list option) list \<Rightarrow> byte list \<Rightarrow> bool \<Rightarrow> bool" where
  "session_ok l [] [] l' = (l = l')"
| "session_ok l (p # ps) (t # ts) l' =
     ((t = JEUX_ACK_PKT \<or> t = JEUX_NACK_PKT)
      \<and> (l = (pkt_type (fst p) = JEUX_LOGIN_PKT) \<longrightarrow> t = JEUX_NACK_PKT)
      \<and> session_ok (l \<or> (pkt_type (fst p) = JEUX_LOGIN_PKT \<and> t = JEUX_ACK_PKT)) ps ts l')"
| "session_ok l ps ts l' = False"

lemma session_length: "session_ok l ps ts l' \<Longrightarrow> length ts = length ps"
  by (induction l ps ts l' rule: session_ok.induct) auto

abbreviation outs :: "('w \<Rightarrow> byte list) \<Rightarrow> ('w, 'c) jworld \<Rightarrow> byte list" where
  "outs out w \<equiv> replies (out (snd (cw w)))"

lemma on_cw_quiet:
  assumes "quiet out m" and "on_cw m w = Inr (r, w')"
  shows "outs out w' = outs out w"
proof -
  from assms(2) obtain v where v: "m (cw w) = Inr (r, v)" "w' = w\<lparr>cw := v\<rparr>" by (auto simp: on_cw_Inr)
  from assms(1) v(1) have "replies (out (snd v)) = replies (out (snd (cw w)))"
    unfolding quiet_def by blast
  then show ?thesis using v(2) by simp
qed

lemma on_cw_sends:
  assumes "sends out t m" and "on_cw m w = Inr (r, w')" and "t = JEUX_ACK_PKT \<or> t = JEUX_NACK_PKT"
  shows "outs out w' = outs out w @ [t]"
proof -
  from assms(2) obtain v where v: "m (cw w) = Inr (r, v)" "w' = w\<lparr>cw := v\<rparr>" by (auto simp: on_cw_Inr)
  from assms(1) v(1) have "out (snd v) = out (snd (cw w)) @ [t]"
    unfolding sends_def by blast
  then show ?thesis using v(2) assms(3) by (auto simp: replies_def)
qed

lemma creg_lookup_cw:
  assumes "creg_lookup api user w = Inr (r, w')"
  shows "cw w' = cw w"
proof (cases "creg_nodes (creg w)")
  case Nil
  then show ?thesis using assms by (auto simp: creg_lookup_def obind_Inr_iff Let_def)
next
  case (Cons q qs)
  then show ?thesis using assms
    by (cases q) (auto simp: creg_lookup_def obind_Inr_iff Let_def split: if_splits)
qed

lemma all_players_loop_ext: "all_players_loop api qs k arr v = Inr (r, v') \<Longrightarrow> snd v' = snd v"
  by (induction api qs k arr v rule: all_players_loop.induct) (auto simp: obind_Inr_iff)

lemma creg_all_players_ext: "creg_all_players api junk w = Inr (r, w') \<Longrightarrow> snd (cw w') = snd (cw w)"
  by (auto simp: creg_all_players_def obind_Inr_iff Let_def dest!: all_players_loop_ext
      split: if_splits)

lemma service_lib_sends:
  assumes "service_lib S out cur"
  shows "sends out JEUX_ACK_PKT (client_send_ack S cur)" "sends out JEUX_NACK_PKT (client_send_nack S cur)"
    "sends out JEUX_ACK_PKT (client_send_packet S cur (ack_hdr i n t) m)"
proof -
  have "sends out (pkt_type (ack_hdr i n t)) (client_send_packet S cur (ack_hdr i n t) m)"
    using assms by (simp add: service_lib_def)
  then show "sends out JEUX_ACK_PKT (client_send_packet S cur (ack_hdr i n t) m)"
    by (simp add: ack_hdr_def)
qed (use assms in \<open>simp_all add: service_lib_def\<close>)

lemma service_libD:
  assumes "service_lib S out cur"
  shows "on_cw (client_send_ack S cur) w = Inr (u, w') \<Longrightarrow> outs out w' = outs out w @ [JEUX_ACK_PKT]"
    and "on_cw (client_send_nack S cur) w = Inr (u, w') \<Longrightarrow> outs out w' = outs out w @ [JEUX_NACK_PKT]"
    and "on_cw (client_send_packet S cur (ack_hdr i n t) m) w = Inr (u, w') \<Longrightarrow>
      outs out w' = outs out w @ [JEUX_ACK_PKT]"
  by (erule on_cw_sends [OF service_lib_sends(1) [OF assms]], simp)
    (erule on_cw_sends [OF service_lib_sends(2) [OF assms]], simp,
     erule on_cw_sends [OF service_lib_sends(3) [OF assms]], simp)

text \<open>One answer is sent: a property of a result, with a rule for each way the handlers are composed.\<close>

definition ans :: "('w \<Rightarrow> byte list) \<Rightarrow> ('w, 'c) jworld \<Rightarrow> ('a \<times> ('w, 'c) jworld) outcome \<Rightarrow> bool" where
  "ans out w res \<longleftrightarrow> (\<forall>r w'. res = Inr (r, w') \<longrightarrow>
     (\<exists>t. (t = JEUX_ACK_PKT \<or> t = JEUX_NACK_PKT) \<and> outs out w' = outs out w @ [t]))"

lemma ans_if: "(c \<Longrightarrow> ans out w a) \<Longrightarrow> (\<not> c \<Longrightarrow> ans out w b) \<Longrightarrow> ans out w (if c then a else b)"
  by simp

lemma ans_obind: "(\<And>x. m = Inr x \<Longrightarrow> ans out w (k x)) \<Longrightarrow> ans out w (obind m k)"
  unfolding ans_def obind_Inr_iff by blast

lemma ans_bnd:
  assumes "\<And>x w1. m w = Inr (x, w1) \<Longrightarrow> outs out w1 = outs out w"
    and "\<And>x w1. m w = Inr (x, w1) \<Longrightarrow> ans out w1 (k x w1)"
  shows "ans out w (bnd m k w)"
  using assms unfolding ans_def bnd_eq_Inr by metis

lemma ans_Inl: "ans out w (Inl e)"
  by (simp add: ans_def)

lemma ans_send:
  assumes "service_lib S out cur"
  shows "ans out w (on_cw (client_send_ack S cur) w)" "ans out w (on_cw (client_send_nack S cur) w)"
    "ans out w (on_cw (client_send_packet S cur (ack_hdr i n t) m) w)"
  unfolding ans_def by (auto dest: service_libD [OF assms])

lemma service_lib_quiet:
  assumes "service_lib S out cur"
  shows "quiet out (client_login S cur p)" "quiet out (client_make_invitation S cur c r s)"
    "quiet out (client_revoke_invitation S cur i)" "quiet out (client_decline_invitation S cur i)"
    "quiet out (client_accept_invitation S cur i)" "quiet out (client_resign_game S cur i)"
    "quiet out (client_make_move S cur i d)"
  using assms by (auto simp: service_lib_def)

lemma ack_or_nack_ans:
  assumes "service_lib (sapi E) out cur" and "quiet out op"
  shows "ans out w (ack_or_nack E cur op w)"
  unfolding ack_or_nack_def
  by (rule ans_bnd) (simp_all add: on_cw_quiet [OF assms(2)] ans_send [OF assms(1)])

lemma do_accept_ans:
  assumes lib: "service_lib (sapi E) out cur"
  shows "ans out w (do_accept E cur i w)"
  unfolding do_accept_def
  by (rule ans_bnd)
    (auto simp: on_cw_quiet [OF service_lib_quiet(5) [OF lib]] ans_send [OF lib] split: option.splits)

lemma do_invite_ans:
  assumes lib: "service_lib (sapi E) out cur"
  shows "ans out w (do_invite E cur role payload w)"
  unfolding do_invite_def Let_def
proof (intro ans_obind ans_bnd)
  fix user c w1 assume "creg_lookup (capi E) user w = Inr (c, w1)"
  then show "outs out w1 = outs out w" by (simp add: creg_lookup_cw)
qed (auto simp: on_cw_quiet [OF service_lib_quiet(2) [OF lib]] ans_send [OF lib])

lemma do_users_ans:
  assumes lib: "service_lib (sapi E) out cur"
  shows "ans out w (do_users E cur w)"
  unfolding do_users_def
proof (intro ans_obind ans_bnd)
  fix c w1 assume "creg_all_players (capi E) (junk_ptrs E) w = Inr (c, w1)"
  then show "outs out w1 = outs out w" by (simp add: creg_all_players_ext)
qed (auto simp: ans_send [OF lib] ans_Inl split: option.splits intro!: ans_obind)

lemma guarded_session:
  assumes lib: "service_lib (sapi E) out cur" and op: "ans out w (op w)"
    and run: "sq (if l then op else on_cw (client_send_nack (sapi E) cur)) (ret l) w = Inr (l', w')"
  shows "l' = l \<and> (\<exists>t. outs out w' = outs out w @ [t] \<and> (t = JEUX_ACK_PKT \<or> t = JEUX_NACK_PKT)
    \<and> (\<not> l \<longrightarrow> t = JEUX_NACK_PKT))"
proof (cases l)
  case True
  with run obtain u where "op w = Inr (u, w')" "l' = l" by (auto simp: sq_def bnd_eq_Inr)
  with op True show ?thesis unfolding ans_def by blast
next
  case False
  with run obtain u where "on_cw (client_send_nack (sapi E) cur) w = Inr (u, w')" "l' = l"
    by (auto simp: sq_def bnd_eq_Inr)
  with service_libD(2) [OF lib] False show ?thesis by blast
qed

lemma login_session:
  assumes lib: "service_lib (sapi E) out cur" and "do_login E cur payload w = Inr (l', w')"
  shows "\<exists>t. outs out w' = outs out w @ [t] \<and> (t = JEUX_ACK_PKT \<or> t = JEUX_NACK_PKT)
    \<and> l' = (t = JEUX_ACK_PKT)"
proof -
  from assms(2) obtain p pw r w1 where
    1: "on_cw (client_login (sapi E) cur p) (w\<lparr>cw := (pw, snd (cw w))\<rparr>) = Inr (r, w1)"
    and 2: "(if r = 0 then sq (on_cw (client_send_ack (sapi E) cur)) (ret True)
       else sq (on_cw (client_send_nack (sapi E) cur)) (ret False)) w1 = Inr (l', w')"
    unfolding do_login_def obind_Inr_iff by (auto simp: bnd_eq_Inr)
  have o: "outs out w1 = outs out w" using on_cw_quiet [OF service_lib_quiet(1) [OF lib] 1] by simp
  have n: "JEUX_NACK_PKT \<noteq> JEUX_ACK_PKT" by (simp add: pkt_types)
  show ?thesis
  proof (cases "r = 0")
    case True
    with 2 obtain u where "on_cw (client_send_ack (sapi E) cur) w1 = Inr (u, w')" "l'"
      by (auto simp: sq_def bnd_eq_Inr)
    with service_libD(1) [OF lib this(1)] o show ?thesis by auto
  next
    case False
    with 2 obtain u where "on_cw (client_send_nack (sapi E) cur) w1 = Inr (u, w')" "\<not> l'"
      by (auto simp: sq_def bnd_eq_Inr)
    with service_libD(2) [OF lib this(1)] o n show ?thesis by auto
  qed
qed

lemma dispatch_session:
  assumes lib: "service_lib (sapi E) out cur" and run: "dispatch E cur l h pl w = Inr (l', w')"
  shows "\<exists>t. outs out w' = outs out w @ [t] \<and> (t = JEUX_ACK_PKT \<or> t = JEUX_NACK_PKT)
    \<and> (l = (pkt_type h = JEUX_LOGIN_PKT) \<longrightarrow> t = JEUX_NACK_PKT)
    \<and> l' = (l \<or> (pkt_type h = JEUX_LOGIN_PKT \<and> t = JEUX_ACK_PKT))"
proof (cases "pkt_type h = JEUX_LOGIN_PKT")
  case True
  show ?thesis
  proof (cases l)
    case l: True
    with run True obtain u where "on_cw (client_send_nack (sapi E) cur) w = Inr (u, w')" "l'"
      by (auto simp: dispatch_def sq_def bnd_eq_Inr)
    with service_libD(2) [OF lib] l True show ?thesis by auto
  next
    case False
    with run True have "do_login E cur pl w = Inr (l', w')" by (simp add: dispatch_def)
    from login_session [OF lib this] False True show ?thesis by auto
  qed
next
  case False
  let ?nack = "on_cw (client_send_nack (sapi E) cur)"
  note a = do_users_ans [OF lib] do_invite_ans [OF lib] do_accept_ans [OF lib]
    ack_or_nack_ans [OF lib service_lib_quiet(3) [OF lib]] ack_or_nack_ans [OF lib service_lib_quiet(4) [OF lib]]
    ack_or_nack_ans [OF lib service_lib_quiet(6) [OF lib]] ack_or_nack_ans [OF lib service_lib_quiet(7) [OF lib]]
  consider (op) op where "ans out w (op w)" "sq (if l then op else ?nack) (ret l) w = Inr (l', w')"
    | (bad) "sq ?nack (ret l) w = Inr (l', w')"
    using run False a unfolding dispatch_def Let_def by (simp split: if_split_asm; blast)
  then show ?thesis
  proof cases
    case op
    from guarded_session [OF lib this] False show ?thesis by auto
  next
    case bad
    then obtain u where "?nack w = Inr (u, w')" "l' = l" by (auto simp: sq_def bnd_eq_Inr)
    with service_libD(2) [OF lib] False show ?thesis by auto
  qed
qed

lemma serve_session:
  assumes lib: "service_lib (sapi E) out cur"
  shows "serve E cur ps l w = Inr (l', w') \<Longrightarrow> \<exists>ts. outs out w' = outs out w @ ts \<and> session_ok l ps ts l'"
proof (induction ps arbitrary: l w)
  case Nil
  then show ?case by (auto intro: exI [of _ "[]"])
next
  case (Cons p ps)
  from Cons.prems obtain l1 w1 where 1: "dispatch E cur l (fst p) (snd p) w = Inr (l1, w1)"
    "serve E cur ps l1 w1 = Inr (l', w')" by (auto simp: bnd_eq_Inr)
  from dispatch_session [OF lib 1(1)] obtain t where t: "outs out w1 = outs out w @ [t]"
    "t = JEUX_ACK_PKT \<or> t = JEUX_NACK_PKT" "l = (pkt_type (fst p) = JEUX_LOGIN_PKT) \<longrightarrow> t = JEUX_NACK_PKT"
    "l1 = (l \<or> (pkt_type (fst p) = JEUX_LOGIN_PKT \<and> t = JEUX_ACK_PKT))" by blast
  from Cons.IH [OF 1(2)] obtain ts where "outs out w' = outs out w1 @ ts" "session_ok l1 ps ts l'" by blast
  with t show ?case by (intro exI [of _ "t # ts"]) simp
qed

lemma takeWhile_stop: "\<forall>c \<in> set xs. p c \<Longrightarrow> \<not> p y \<Longrightarrow> takeWhile p (xs @ y # ys) = xs"
  by (induction xs) auto

lemma users_line_overruns:
  assumes "c_strcat (c_realloc junk old (length a + 1 + length b + 1)) a = Inr b1" and "c_strcat b1 [x] = Inr b2"
    and "c_strcat b2 b = Inr b3" and "a @ [x] @ b = a @ x # b" and "CHR 0x00 \<notin> set (a @ x # b)"
  shows "c_strcat b3 [y] = Inl MemFault"
proof -
  have cat: "length buf' = length buf \<and> length s + k \<le> length (takeWhile (\<lambda>c. c \<noteq> CHR 0x00) buf')"
    if "c_strcat buf s = Inr buf'" "CHR 0x00 \<notin> set s" "k \<le> length (takeWhile (\<lambda>c. c \<noteq> CHR 0x00) buf)"
    for buf s buf' k
  proof -
    let ?j = "length (takeWhile (\<lambda>c. c \<noteq> CHR 0x00) buf)"
    from that(1) have j: "?j < length buf" "?j + length s + 1 \<le> length buf"
      and buf': "buf' = take ?j buf @ s @ [CHR 0x00] @ drop (?j + length s + 1) buf"
      unfolding c_strcat_def c_strlen_def Let_def obind_Inr_iff by (auto split: if_split_asm)
    have "takeWhile (\<lambda>c. c \<noteq> CHR 0x00) buf' = take ?j buf @ s"
    proof -
      have "take ?j buf = takeWhile (\<lambda>c. c \<noteq> CHR 0x00) buf" by (rule takeWhile_eq_take [symmetric])
      then have "c \<noteq> CHR 0x00" if "c \<in> set (take ?j buf @ s)" for c
        using that \<open>CHR 0x00 \<notin> set s\<close> by (auto dest: set_takeWhileD)
      then have "takeWhile (\<lambda>c. c \<noteq> CHR 0x00) ((take ?j buf @ s) @ CHR 0x00 # drop (?j + length s + 1) buf)
          = take ?j buf @ s"
        by (intro takeWhile_stop ballI) blast+
      then show ?thesis unfolding buf' by simp
    qed
    moreover have "length buf' = length buf" using j unfolding buf' by simp
    ultimately show ?thesis using j that(3) by simp
  qed
  let ?n = "length a + 1 + length b + 1"
  have len: "length (c_realloc junk old ?n) = ?n" by (simp add: c_realloc_def Let_def)
  from cat [OF assms(1), of 0] assms(5) have 1: "length b1 = ?n"
    "length a \<le> length (takeWhile (\<lambda>c. c \<noteq> CHR 0x00) b1)" using len by auto
  from cat [OF assms(2) _ 1(2)] assms(5) have 2: "length b2 = ?n"
    "length a + 1 \<le> length (takeWhile (\<lambda>c. c \<noteq> CHR 0x00) b2)" using 1 by auto
  from cat [OF assms(3) _ 2(2)] assms(5) have 3: "length b3 = ?n"
    "?n \<le> length (takeWhile (\<lambda>c. c \<noteq> CHR 0x00) b3) + 1" using 2 by auto
  then show ?thesis by (auto simp: c_strcat_def c_strlen_def Let_def)
qed

lemma users_loop_faults:
  assumes "users_loop junk st qs None = Inr r"
    and "\<forall>a p. st a = Some p \<longrightarrow> CHR 0x00 \<notin> set (playerName p)"
  shows "r = None"
proof (cases qs)
  case (Cons q qs')
  show ?thesis
  proof (cases q)
    case (Some a)
    have nz: "CHR 0x00 \<notin> set (show_int i)" for i
    proof -
      have "digit_char d \<noteq> CHR 0x00" if "d < 10" for d
        using c_char_digit [OF that] by (auto simp: c_char_def)
      then have "CHR 0x00 \<notin> set (show_nat n)" for n using show_nat_digits [of n] by force
      then show ?thesis by (simp add: show_int_def)
    qed
    note run = assms(1) [unfolded Cons Some users_loop.simps Let_def]
    from run obtain rt where "(if length (show_int rt) + 1 > 10 then Inl MemFault
        else obind (player_get_name (Some a) st) (\<lambda>nm. case nm of None \<Rightarrow> Inl MemFault | Some name \<Rightarrow>
          obind (c_strcat (c_realloc junk None (length name + 1 + length (show_int rt) + 1)) name) (\<lambda>b1.
          obind (c_strcat b1 [tab]) (\<lambda>b2. obind (c_strcat b2 (show_int rt)) (\<lambda>b3.
          obind (c_strcat b3 [nl]) (\<lambda>b4. users_loop junk st qs' (Some b4))))))) = Inr r"
      unfolding obind_Inr_iff [of "player_get_rating (Some a) st"] by blast
    then obtain nm' where 1: "player_get_name (Some a) st = Inr nm'" and "(case nm' of None \<Rightarrow> Inl MemFault | Some name \<Rightarrow>
          obind (c_strcat (c_realloc junk None (length name + 1 + length (show_int rt) + 1)) name) (\<lambda>b1.
          obind (c_strcat b1 [tab]) (\<lambda>b2. obind (c_strcat b2 (show_int rt)) (\<lambda>b3.
          obind (c_strcat b3 [nl]) (\<lambda>b4. users_loop junk st qs' (Some b4)))))) = Inr r"
      by (auto simp only: obind_Inr_iff [of "player_get_name (Some a) st"] split: if_splits)
    then obtain nm b1 b2 b3 b4 where s: "player_get_name (Some a) st = Inr (Some nm)"
      "c_strcat (c_realloc junk None (length nm + 1 + length (show_int rt) + 1)) nm = Inr b1"
      "c_strcat b1 [tab] = Inr b2" "c_strcat b2 (show_int rt) = Inr b3" "c_strcat b3 [nl] = Inr b4"
      by (cases nm') (simp_all only: obind_Inr_iff option.case sum.distinct(1), blast)
    have "CHR 0x00 \<notin> set nm" using s(1) assms(2)
      by (auto simp: player_get_name_def deref_player_def obind_Inr_iff split: option.splits)
    then have "CHR 0x00 \<notin> set (nm @ tab # show_int rt)" using nz by (simp add: tab_def)
    from users_line_overruns [OF s(2,3,4) _ this] s(5) show ?thesis by simp
  qed (use assms Cons in simp)
qed (use assms in simp)

definition names_ok :: "pstore \<Rightarrow> bool" where
  "names_ok st \<longleftrightarrow> (\<forall>a p. st a = Some p \<longrightarrow> CHR 0x00 \<notin> set (playerName p))"

lemma player_unref_names: "player_unref q st = Inr (u, st') \<Longrightarrow> names_ok st \<Longrightarrow> names_ok st'"
  by (auto simp: player_unref_def deref_player_def player_unref_body_def obind_Inr_iff names_ok_def Let_def
      split: option.splits if_splits)

lemma all_players_loop_names:
  "all_players_loop api qs k arr v = Inr (r, v') \<Longrightarrow> names_ok (players (fst v)) \<Longrightarrow>
   names_ok (players (fst v'))"
  by (induction api qs k arr v rule: all_players_loop.induct)
    (auto simp: obind_Inr_iff dest: player_unref_names)

lemma creg_all_players_names:
  "creg_all_players api junk w = Inr (r, w') \<Longrightarrow> names_ok (players (fst (cw w))) \<Longrightarrow>
   names_ok (players (fst (cw w')))"
  by (auto simp: creg_all_players_def obind_Inr_iff Let_def dest: all_players_loop_names split: if_splits)

subsection \<open>Properties\<close>

text \<open>A client library whose state is the list of the types of the packets sent.\<close>

definition demo_sapi :: "(byte list, nat) service_api" where
  "demo_sapi = \<lparr>
     client_login = (\<lambda>c p v. Inr (0, v)),
     client_send_ack = (\<lambda>c v. Inr ((), (fst v, snd v @ [JEUX_ACK_PKT]))),
     client_send_nack = (\<lambda>c v. Inr ((), (fst v, snd v @ [JEUX_NACK_PKT]))),
     client_send_packet = (\<lambda>c h m v. Inr ((), (fst v, snd v @ [pkt_type h]))),
     client_make_invitation = (\<lambda>c d r s v. Inr (-1, v)),
     client_revoke_invitation = (\<lambda>c i v. Inr (-1, v)),
     client_decline_invitation = (\<lambda>c i v. Inr (-1, v)),
     client_accept_invitation = (\<lambda>c i v. Inr ((-1, None), v)),
     client_make_move = (\<lambda>c i m v. Inr (-1, v)),
     client_resign_game = (\<lambda>c i v. Inr (-1, v)),
     now = (\<lambda>w. (0, 0))\<rparr>"

definition demo_env :: "(byte list, nat) service_env" where
  "demo_env = \<lparr>capi = \<lparr>client_create = (\<lambda>fd v. Inr (Some 0, v)), client_get_fd = (\<lambda>q v. Inr 7),
       client_unref = (\<lambda>q v. Inr ((), v)), client_get_player = (\<lambda>q v. Inr q),
       client_free = (\<lambda>q v. v), os_shutdown = (\<lambda>fd v. v)\<rparr>,
     sapi = demo_sapi, junk_ptrs = (\<lambda>n. replicate n None), junk_text = (\<lambda>n. []), beyond = [0],
     player_sem_ok = True\<rparr>"

definition demo_jworld :: "(byte list, nat) jworld" where
  "demo_jworld = \<lparr>creg = the (creg_init True True), cw = (empty_world, [])\<rparr>"

lemma demo_service_lib: "service_lib (sapi demo_env) id cur"
  by (simp add: service_lib_def demo_env_def demo_sapi_def sends_def quiet_def)


text \<open>
  The gate: before login a packet other than LOGIN, after login a LOGIN, and at any time a packet of
  a type the server does not serve, does nothing but send one NACK to the client.
\<close>

theorem server_gate:
  assumes "(if loggedIn then pkt_type h = JEUX_LOGIN_PKT else pkt_type h \<noteq> JEUX_LOGIN_PKT)
    \<or> pkt_type h = 0 \<or> 8 < pkt_type h"
  shows "dispatch E cur loggedIn h payload
    = sq (on_cw (client_send_nack (sapi E) cur)) (ret loggedIn)"
  using assms by (auto simp: dispatch_def Let_def pkt_types)

theorem server_gate_witness:
  "\<exists>w'. dispatch demo_env (Some 0) False (EMPTY_HDR\<lparr>pkt_type := JEUX_MOVE_PKT\<rparr>) (Some [51]) demo_jworld
     = Inr (False, w') \<and> snd (cw w') = [JEUX_NACK_PKT] \<and> creg w' = creg demo_jworld"
proof -
  have "if False then pkt_type (EMPTY_HDR\<lparr>pkt_type := JEUX_MOVE_PKT\<rparr>) = JEUX_LOGIN_PKT
    else pkt_type (EMPTY_HDR\<lparr>pkt_type := JEUX_MOVE_PKT\<rparr>) \<noteq> JEUX_LOGIN_PKT" by (simp add: pkt_types)
  from server_gate [OF disjI1, OF this, of demo_env "Some 0" "Some [51]"] show ?thesis
    by (simp add: sq_def bnd_def on_cw_def demo_env_def demo_sapi_def demo_jworld_def)
qed

text \<open>
  The USERS answer never leaves the server without a buffer overrun: the buffer of each line is
  allocated without room for the terminating NUL, so for any list of players, with names that are C
  strings, building the answer faults.
\<close>

theorem server_users_overruns:
  assumes "names_ok (players (fst (cw w)))"
  shows "do_users E cur w \<noteq> Inr r"
proof
  assume "do_users E cur w = Inr r"
  then obtain arr w1 s where 1: "creg_all_players (capi E) (junk_ptrs E) w = Inr (arr, w1)"
    "users_loop (junk_text E) (players (fst (cw w1))) arr None = Inr s" "s \<noteq> None"
    by (auto simp: do_users_def bnd_eq_Inr obind_Inr_iff split: option.splits)
  from users_loop_faults [OF 1(2)] creg_all_players_names [OF 1(1) assms] 1(3) show False
    by (auto simp: names_ok_def)
qed

theorem server_users_overruns_witness:
  "\<forall>r. do_users demo_env (Some 0) (demo_jworld\<lparr>cw := (demo_players, [])\<rparr>) \<noteq> Inr r"
proof -
  have "names_ok (players (fst (cw (demo_jworld\<lparr>cw := (demo_players, [])\<rparr>))))"
    by (simp add: names_ok_def demo_players_def fresh_player_def)
  from server_users_overruns [OF this] show ?thesis by blast
qed

end
