(* ===== verification/Sfmm.thy ===== *)
theory Sfmm
  imports Prelude
begin

unbundle bit_operations_syntax

section \<open>The allocator (hw3/src/sfmm.c)\<close>

text \<open>
  Memory is 64-bit words at 8-byte aligned addresses; an access outside the heap and the array of list
  heads is a memory fault. The heap functions of \<open>sfutil\<close> are not part of the repository:
  \<open>sf_magic()\<close>, \<open>sf_mem_start()\<close> and \<open>sf_mem_grow()\<close> are fields of the environment, and the value of
  \<open>sf_mem_end()\<close> is a field of the state. The address of the list heads is a field of the
  environment too, and \<open>steps\<close> bounds the loops that walk linked lists or grow the heap.
\<close>

type_synonym addr = "64 word"

record quick_list =
  ql_length :: int
  ql_first :: addr

record sfmm =
  mem :: "addr \<Rightarrow> 64 word"
  mem_end :: addr
  quick :: "quick_list list"
  globalEnd :: addr
  sf_errno :: nat

record sf_env =
  sf_magic :: "64 word"
  mem_start :: addr
  mem_grow :: "sfmm \<Rightarrow> addr \<times> sfmm"
  heads :: addr
  steps :: nat

type_synonym 'a sf = "(sfmm, 'a) action"

definition PAGE_SZ :: "64 word" where "PAGE_SZ = 4096"
definition THIS_BLOCK_ALLOCATED :: "64 word" where "THIS_BLOCK_ALLOCATED = 4"
definition PREV_BLOCK_ALLOCATED :: "64 word" where "PREV_BLOCK_ALLOCATED = 2"
definition NUM_QUICK_LISTS :: nat where "NUM_QUICK_LISTS = 10"
definition QUICK_LIST_MAX :: nat where "QUICK_LIST_MAX = 5"
definition NUM_FREE_LISTS :: nat where "NUM_FREE_LISTS = 10"
definition ENOMEM :: nat where "ENOMEM = 12"
definition EINVAL :: nat where "EINVAL = 22"

lemmas sf_consts = PAGE_SZ_def THIS_BLOCK_ALLOCATED_def PREV_BLOCK_ALLOCATED_def

subsection \<open>Memory\<close>

definition valid_addr :: "sf_env \<Rightarrow> sfmm \<Rightarrow> addr \<Rightarrow> bool" where
  "valid_addr E s a \<longleftrightarrow> a mod 8 = 0 \<and>
     ((mem_start E \<le> a \<and> a < mem_end s) \<or> (heads E \<le> a \<and> a < heads E + 320))"

definition rd :: "sf_env \<Rightarrow> addr \<Rightarrow> 64 word sf" where
  "rd E a s = (if valid_addr E s a then Inr (mem s a, s) else Inl MemFault)"

definition wr :: "sf_env \<Rightarrow> addr \<Rightarrow> 64 word \<Rightarrow> unit sf" where
  "wr E a v s = (if valid_addr E s a then Inr ((), s\<lparr>mem := (mem s)(a := v)\<rparr>) else Inl MemFault)"

text \<open>
  The fields of a \<open>struct sf_block\<close> (the pointer is to the footer of the block before), and the heads
  of the free lists, blocks themselves.
\<close>

definition get_footer :: "sf_env \<Rightarrow> addr \<Rightarrow> 64 word sf" where "get_footer E b = rd E b"
definition get_header :: "sf_env \<Rightarrow> addr \<Rightarrow> 64 word sf" where "get_header E b = rd E (b + 8)"
definition get_next :: "sf_env \<Rightarrow> addr \<Rightarrow> addr sf" where "get_next E b = rd E (b + 16)"
definition get_prev :: "sf_env \<Rightarrow> addr \<Rightarrow> addr sf" where "get_prev E b = rd E (b + 24)"
definition set_footer :: "sf_env \<Rightarrow> addr \<Rightarrow> 64 word \<Rightarrow> unit sf" where "set_footer E b = wr E b"
definition set_header :: "sf_env \<Rightarrow> addr \<Rightarrow> 64 word \<Rightarrow> unit sf" where "set_header E b = wr E (b + 8)"
definition set_next :: "sf_env \<Rightarrow> addr \<Rightarrow> addr \<Rightarrow> unit sf" where "set_next E b = wr E (b + 16)"
definition set_prev :: "sf_env \<Rightarrow> addr \<Rightarrow> addr \<Rightarrow> unit sf" where "set_prev E b = wr E (b + 24)"

definition head_of :: "sf_env \<Rightarrow> nat \<Rightarrow> addr" where
  "head_of E i = heads E + 32 * of_nat i"

definition payload :: "addr \<Rightarrow> addr" where "payload b = b + 16"

lemmas sf_fields = get_footer_def get_header_def get_next_def get_prev_def set_footer_def
  set_header_def set_next_def set_prev_def

subsection \<open>Headers\<close>

text \<open>The subtraction of the two flags, as the code does it, and the masking.\<close>

definition strip_flags :: "64 word \<Rightarrow> 64 word" where
  "strip_flags h =
     (let h1 = (if h AND THIS_BLOCK_ALLOCATED = 4 then h - 4 else h)
      in if h1 AND PREV_BLOCK_ALLOCATED = 2 then h1 - 2 else h1)"

definition size_bits :: "64 word \<Rightarrow> 64 word" where
  "size_bits h = h AND NOT 7"

definition unmagic :: "sf_env \<Rightarrow> 64 word \<Rightarrow> 64 word" where
  "unmagic E h = h XOR sf_magic E"

definition sf_get_block_sz :: "sf_env \<Rightarrow> addr \<Rightarrow> 64 word sf" where
  "sf_get_block_sz E b = bnd (get_header E b) (\<lambda>h. ret (size_bits (unmagic E h)))"

definition sf_take_out_last_three_bits_and_get_block_size :: "sf_env \<Rightarrow> addr \<Rightarrow> 64 word sf" where
  "sf_take_out_last_three_bits_and_get_block_size E b = bnd (get_header E b) (\<lambda>h.
     let curBlockSz = strip_flags (unmagic E h)
     in sq (set_header E b (unmagic E curBlockSz)) (ret curBlockSz))"

definition sf_get_past_block :: "addr \<Rightarrow> 64 word \<Rightarrow> addr" where
  "sf_get_past_block b blockSz = b - blockSz"

definition sf_get_next_block :: "addr \<Rightarrow> 64 word \<Rightarrow> addr" where
  "sf_get_next_block b blockSz = b + blockSz"

definition sf_set_block_footer :: "sf_env \<Rightarrow> addr \<Rightarrow> unit sf" where
  "sf_set_block_footer E b = bnd (get_header E b) (\<lambda>h.
     let offset = size_bits (unmagic E h) in set_footer E (b + offset) h)"

subsection \<open>Free lists\<close>

definition sf_put_in_free_list_helper :: "sf_env \<Rightarrow> addr \<Rightarrow> nat \<Rightarrow> unit sf" where
  "sf_put_in_free_list_helper E splitBlock curIdx =
     bnd (get_next E (head_of E curIdx)) (\<lambda>oldNext.
     sq (set_prev E oldNext splitBlock)
     (sq (set_next E splitBlock oldNext)
     (sq (set_prev E splitBlock (head_of E curIdx))
         (set_next E (head_of E curIdx) splitBlock))))"

definition sf_put_in_free_list :: "sf_env \<Rightarrow> addr \<Rightarrow> 64 word \<Rightarrow> unit sf" where
  "sf_put_in_free_list E splitBlock blockSize =
     (if blockSize \<le> 32 then sf_put_in_free_list_helper E splitBlock 0
      else if blockSize \<le> 64 then sf_put_in_free_list_helper E splitBlock 1
      else if blockSize \<le> 128 then sf_put_in_free_list_helper E splitBlock 2
      else if blockSize \<le> 256 then sf_put_in_free_list_helper E splitBlock 3
      else if blockSize \<le> 512 then sf_put_in_free_list_helper E splitBlock 4
      else if blockSize \<le> 1024 then sf_put_in_free_list_helper E splitBlock 5
      else if blockSize \<le> 2048 then sf_put_in_free_list_helper E splitBlock 6
      else if blockSize \<le> 4096 then sf_put_in_free_list_helper E splitBlock 7
      else if blockSize \<le> 8192 then sf_put_in_free_list_helper E splitBlock 8
      else sf_put_in_free_list_helper E splitBlock 9)"

text \<open>One list: \<open>True\<close> when the block was found and unlinked. Then the lists in order.\<close>

fun remove_walk :: "nat \<Rightarrow> sf_env \<Rightarrow> addr \<Rightarrow> addr \<Rightarrow> addr \<Rightarrow> bool sf" where
  "remove_walk 0 E sentinel curBlock removedBlock = fail OutOfFuel"
| "remove_walk (Suc n) E sentinel curBlock removedBlock =
     bnd (get_next E curBlock) (\<lambda>nx.
       if nx = sentinel then ret False
       else if nx = removedBlock then
         bnd (get_next E nx) (\<lambda>tempBlock. bnd (get_prev E nx) (\<lambda>pv.
         sq (set_prev E tempBlock pv)
         (bnd (get_prev E nx) (\<lambda>pv2. sq (set_next E pv2 tempBlock) (ret True)))))
       else remove_walk n E sentinel nx removedBlock)"

fun remove_lists :: "sf_env \<Rightarrow> addr \<Rightarrow> nat list \<Rightarrow> unit sf" where
  "remove_lists E b [] = ret ()"
| "remove_lists E b (i # is) =
     bnd (remove_walk (steps E) E (head_of E i) (head_of E i) b) (\<lambda>found.
       if found then ret () else remove_lists E b is)"

definition sf_remove_from_free_list :: "sf_env \<Rightarrow> addr \<Rightarrow> unit sf" where
  "sf_remove_from_free_list E removedBlock = remove_lists E removedBlock [0..<NUM_FREE_LISTS]"

subsection \<open>Coalescing\<close>

text \<open>\<open>(block, free, size)\<close> for a neighbour that is to be considered, \<open>(0, False, 0)\<close> for one that is not.\<close>

definition neighbour :: "sf_env \<Rightarrow> bool \<Rightarrow> addr \<Rightarrow> (addr \<times> bool \<times> 64 word) sf" where
  "neighbour E outside b =
     (if outside then ret (0, False, 0)
      else bnd (get_header E b) (\<lambda>h. ret (b, unmagic E h AND THIS_BLOCK_ALLOCATED = 0, size_bits (unmagic E h))))"

definition merged :: "sf_env \<Rightarrow> addr \<Rightarrow> 64 word \<Rightarrow> 64 word \<Rightarrow> bool sf" where
  "merged E newBlock newSize past_block_sz =
     sq (set_header E newBlock (unmagic E (newSize OR PREV_BLOCK_ALLOCATED)))
     (sq (set_footer E newBlock (unmagic E (past_block_sz OR THIS_BLOCK_ALLOCATED)))
     (sq (sf_set_block_footer E newBlock)
     (sq (sf_put_in_free_list E newBlock newSize) (ret True))))"

definition sf_coalesce :: "sf_env \<Rightarrow> addr \<Rightarrow> 64 word \<Rightarrow> 64 word \<Rightarrow> bool \<Rightarrow> bool sf" where
  "sf_coalesce E middleBlock blockSz prevFooter makingLargePage =
     bnd (gets mem_end) (\<lambda>e.
     let past0 = (if prevFooter > 0 then sf_get_past_block middleBlock prevFooter else 0);
         next0 = sf_get_next_block middleBlock blockSz in
     bnd (neighbour E (past0 < mem_start E \<or> past0 \<ge> e - 16) past0) (\<lambda>(past_block, past_block_all, past_block_sz).
     bnd (neighbour E (next0 \<ge> e - 16 \<or> next0 \<le> mem_start E) next0) (\<lambda>(next1, next_all1, next_block_sz).
     let next_block = (if makingLargePage then 0 else next1);
         next_block_all = (if makingLargePage then False else next_all1) in
     if \<not> past_block_all \<and> \<not> next_block_all then
       sq (sf_put_in_free_list E middleBlock blockSz) (ret False)
     else if past_block_all \<and> \<not> next_block_all then
       sq (sf_remove_from_free_list E middleBlock)
       (sq (sf_remove_from_free_list E past_block)
           (merged E past_block (blockSz + past_block_sz) past_block_sz))
     else if \<not> past_block_all \<and> next_block_all then
       sq (sf_remove_from_free_list E middleBlock)
       (sq (sf_remove_from_free_list E next_block)
           (merged E middleBlock (blockSz + next_block_sz) past_block_sz))
     else
       sq (sf_remove_from_free_list E middleBlock)
       (sq (sf_remove_from_free_list E past_block)
       (sq (sf_remove_from_free_list E next_block)
           (merged E past_block (blockSz + past_block_sz + next_block_sz) past_block_sz))))))"

subsection \<open>Quick lists\<close>

definition get_ql :: "nat \<Rightarrow> quick_list sf" where
  "get_ql i = gets (\<lambda>s. quick s ! i)"

definition set_ql :: "nat \<Rightarrow> quick_list \<Rightarrow> unit sf" where
  "set_ql i q = modify (\<lambda>s. s\<lparr>quick := (quick s)[i := q]\<rparr>)"

text \<open>
  The first loop of the flush: it clears the flags of each block, writes its footer and collects it
  in an array of \<open>QUICK_LIST_MAX\<close> elements.
\<close>

fun flush_collect :: "nat \<Rightarrow> sf_env \<Rightarrow> addr \<Rightarrow> addr list \<Rightarrow> addr list sf" where
  "flush_collect 0 E h acc = fail OutOfFuel"
| "flush_collect (Suc n) E h acc =
     (if h = 0 then ret acc
      else bnd (get_header E h) (\<lambda>v.
        sq (set_header E h (unmagic E (size_bits (unmagic E v))))
        (sq (sf_set_block_footer E h)
        (if length acc \<ge> QUICK_LIST_MAX then fail MemFault
         else bnd (get_next E h) (\<lambda>nx. flush_collect n E nx (acc @ [h]))))))"

fun flush_coalesce :: "sf_env \<Rightarrow> addr list \<Rightarrow> unit sf" where
  "flush_coalesce E [] = ret ()"
| "flush_coalesce E (b # bs) =
     bnd (sf_get_block_sz E b) (\<lambda>sz. bnd (get_footer E b) (\<lambda>f.
     sq (sf_coalesce E b sz f False) (flush_coalesce E bs)))"

definition sf_flush_quick_list :: "sf_env \<Rightarrow> addr \<Rightarrow> nat \<Rightarrow> unit sf" where
  "sf_flush_quick_list E curBlock listIdx =
     bnd (get_ql listIdx) (\<lambda>q.
       if ql_length q \<noteq> 0 then
         bnd (flush_collect (steps E) E (ql_first q) []) (\<lambda>blockArray.
         sq (set_next E curBlock 0)
         (sq (set_ql listIdx \<lparr>ql_length = 1, ql_first = curBlock\<rparr>)
             (flush_coalesce E blockArray)))
       else ret ())"

definition sf_put_in_quick_list_helper :: "sf_env \<Rightarrow> addr \<Rightarrow> nat \<Rightarrow> unit sf" where
  "sf_put_in_quick_list_helper E curBlock curIdx =
     bnd (get_ql curIdx) (\<lambda>q.
       if ql_length q = 5 then sf_flush_quick_list E curBlock curIdx
       else if ql_first q \<noteq> 0 then
         sq (set_next E curBlock (ql_first q))
            (set_ql curIdx \<lparr>ql_length = ql_length q + 1, ql_first = curBlock\<rparr>)
       else
         sq (set_next E curBlock 0)
            (set_ql curIdx \<lparr>ql_length = ql_length q + 1, ql_first = curBlock\<rparr>))"

definition sf_put_in_quick_list :: "sf_env \<Rightarrow> addr \<Rightarrow> 64 word \<Rightarrow> bool sf" where
  "sf_put_in_quick_list E curBlock blockSize =
     (if blockSize = 32 then sq (sf_put_in_quick_list_helper E curBlock 0) (ret True)
      else if blockSize = 48 then sq (sf_put_in_quick_list_helper E curBlock 1) (ret True)
      else if blockSize = 64 then sq (sf_put_in_quick_list_helper E curBlock 2) (ret True)
      else if blockSize = 80 then sq (sf_put_in_quick_list_helper E curBlock 3) (ret True)
      else if blockSize = 96 then sq (sf_put_in_quick_list_helper E curBlock 4) (ret True)
      else if blockSize = 112 then sq (sf_put_in_quick_list_helper E curBlock 5) (ret True)
      else if blockSize = 128 then sq (sf_put_in_quick_list_helper E curBlock 6) (ret True)
      else if blockSize = 144 then sq (sf_put_in_quick_list_helper E curBlock 7) (ret True)
      else if blockSize = 160 then sq (sf_put_in_quick_list_helper E curBlock 8) (ret True)
      else if blockSize = 176 then sq (sf_put_in_quick_list_helper E curBlock 9) (ret True)
      else ret False)"

subsection \<open>Initialisation\<close>

fun init_heads :: "sf_env \<Rightarrow> nat list \<Rightarrow> unit sf" where
  "init_heads E [] = ret ()"
| "init_heads E (i # is) = sq (set_prev E (head_of E i) (head_of E i))
     (sq (set_next E (head_of E i) (head_of E i)) (init_heads E is))"

definition sf_init_lists :: "sf_env \<Rightarrow> unit sf" where
  "sf_init_lists E =
     sq (modify (\<lambda>s. s\<lparr>quick := replicate NUM_QUICK_LISTS \<lparr>ql_length = 0, ql_first = 0\<rparr>\<rparr>))
        (init_heads E [0..<NUM_FREE_LISTS])"

definition sf_mem_grow :: "sf_env \<Rightarrow> addr sf" where
  "sf_mem_grow E s = Inr (mem_grow E s)"

definition sf_init_first_page :: "sf_env \<Rightarrow> unit sf" where
  "sf_init_first_page E =
     sq (sf_init_lists E)
     (bnd (sf_mem_grow E) (\<lambda>pgBlock.
      let pgBlockSz = unmagic E 4080 in
      sq (set_header E pgBlock pgBlockSz)
      (sq (set_footer E pgBlock 0)
      (sq (set_footer E (pgBlock + 4080) pgBlockSz)
      (sq (modify (\<lambda>s. s\<lparr>globalEnd := mem_start E\<rparr>))
      (sq (set_next E (head_of E 7) pgBlock)
      (sq (set_prev E pgBlock (head_of E 7))
          (set_next E pgBlock (head_of E 7)))))))))"

subsection \<open>sf_malloc\<close>

text \<open>
  The two rounding loops, on \<open>(blockSize, paddingSz)\<close> and on \<open>(blockSize, payloadSz)\<close>; a few dozen
  steps always suffice (\<open>block_size_bounds\<close>).
\<close>

fun pad_loop :: "nat \<Rightarrow> 64 word \<Rightarrow> 64 word \<Rightarrow> (64 word \<times> 64 word) outcome" where
  "pad_loop 0 b p = Inl OutOfFuel"
| "pad_loop (Suc n) b p = (if b mod 16 \<noteq> 0 then pad_loop n (b + 1) (p + 1) else Inr (b, p))"

fun min_loop :: "nat \<Rightarrow> 64 word \<Rightarrow> 64 word \<Rightarrow> (64 word \<times> 64 word) outcome" where
  "min_loop 0 b p = Inl OutOfFuel"
| "min_loop (Suc n) b p =
     (if b mod 16 \<noteq> 0 \<or> p < 24 then min_loop n (b + 1) (p + 1) else Inr (b, p))"

definition block_size :: "64 word \<Rightarrow> 64 word outcome" where
  "block_size req = obind (pad_loop 64 (req + 8) 0) (\<lambda>(b, paddingSz).
     obind (min_loop 64 b (req + paddingSz)) (\<lambda>(b', _). Inr b'))"

text \<open>The search of the quick lists: the first list whose first block has exactly the size.\<close>

fun quick_search :: "sf_env \<Rightarrow> nat list \<Rightarrow> 64 word \<Rightarrow> addr option sf" where
  "quick_search E [] bs = ret None"
| "quick_search E (i # is) bs = bnd (get_ql i) (\<lambda>q.
     if ql_length q > 0 then
       bnd (get_header E (ql_first q)) (\<lambda>h.
         if strip_flags (unmagic E h) = bs then
           bnd (get_next E (ql_first q)) (\<lambda>nx.
             sq (set_ql i \<lparr>ql_length = ql_length q - 1, ql_first = nx\<rparr>)
                (ret (Some (payload (ql_first q)))))
         else quick_search E is bs)
     else quick_search E is bs)"

text \<open>The search of the free lists: the first block large enough, with its size.\<close>

fun fit_walk :: "nat \<Rightarrow> sf_env \<Rightarrow> addr \<Rightarrow> addr \<Rightarrow> 64 word \<Rightarrow> (addr \<times> 64 word) option sf" where
  "fit_walk 0 E sentinel curBlock bs = fail OutOfFuel"
| "fit_walk (Suc n) E sentinel curBlock bs =
     bnd (get_next E curBlock) (\<lambda>nx.
       if nx = sentinel then ret None
       else bnd (get_header E nx) (\<lambda>h.
         let sz = strip_flags (unmagic E h) in
         if sz \<ge> bs then ret (Some (nx, sz)) else fit_walk n E sentinel nx bs))"

fun fit_lists :: "sf_env \<Rightarrow> nat list \<Rightarrow> 64 word \<Rightarrow> (addr \<times> 64 word) option sf" where
  "fit_lists E [] bs = ret None"
| "fit_lists E (i # is) bs = bnd (fit_walk (steps E) E (head_of E i) (head_of E i) bs) (\<lambda>r.
     case r of Some x \<Rightarrow> ret (Some x) | None \<Rightarrow> fit_lists E is bs)"

definition note_end :: "addr \<Rightarrow> unit sf" where
  "note_end b = modify (\<lambda>s. if b > globalEnd s then s\<lparr>globalEnd := b\<rparr> else s)"

text \<open>Taking a block of the free lists, split when at least 32 bytes are left.\<close>

definition take_fit :: "sf_env \<Rightarrow> addr \<Rightarrow> 64 word \<Rightarrow> 64 word \<Rightarrow> addr sf" where
  "take_fit E curBlock sz bs =
     (if sz - bs \<ge> 32 then
        let splitBlock = curBlock + bs in
        sq (set_header E splitBlock (unmagic E ((sz - bs) OR PREV_BLOCK_ALLOCATED)))
        (sq (set_footer E splitBlock (unmagic E (bs OR THIS_BLOCK_ALLOCATED)))
        (sq (sf_set_block_footer E splitBlock)
        (bnd (get_prev E curBlock) (\<lambda>newPrev. bnd (get_next E curBlock) (\<lambda>newNext.
        sq (set_next E newPrev newNext)
        (sq (set_prev E newNext newPrev)
        (sq (sf_put_in_free_list E splitBlock (sz - bs))
        (sq (set_header E curBlock (unmagic E (bs OR THIS_BLOCK_ALLOCATED OR PREV_BLOCK_ALLOCATED)))
        (sq (note_end splitBlock)
            (ret (payload curBlock)))))))))))
      else
        sq (sf_remove_from_free_list E curBlock)
        (bnd (gets globalEnd) (\<lambda>g. bnd (get_header E g) (\<lambda>gh. bnd (get_header E curBlock) (\<lambda>h.
         sq (if unmagic E gh AND THIS_BLOCK_ALLOCATED = THIS_BLOCK_ALLOCATED
             then set_header E curBlock (unmagic E (unmagic E h OR THIS_BLOCK_ALLOCATED OR PREV_BLOCK_ALLOCATED))
             else set_header E curBlock (unmagic E (unmagic E h OR THIS_BLOCK_ALLOCATED)))
         (sq (note_end curBlock) (ret (payload curBlock))))))))"

definition c_int :: "64 word \<Rightarrow> int" where
  "c_int w = sint (ucast w :: 32 word)"

text \<open>The loop that grows the heap; \<open>False\<close> when \<open>sf_mem_grow\<close> fails.\<close>

fun grow_loop :: "nat \<Rightarrow> sf_env \<Rightarrow> addr \<Rightarrow> 64 word \<Rightarrow> bool sf" where
  "grow_loop 0 E newPage tempSize = fail OutOfFuel"
| "grow_loop (Suc n) E newPage tempSize =
     (if c_int tempSize \<ge> 0 then
        bnd (sf_mem_grow E) (\<lambda>p.
          if p = 0 then sq (modify (\<lambda>s. s\<lparr>sf_errno := ENOMEM\<rparr>)) (ret False)
          else
            sq (set_header E newPage (unmagic E PAGE_SZ))
            (sq (sf_set_block_footer E newPage)
            (bnd (sf_get_block_sz E newPage) (\<lambda>sz. bnd (get_footer E newPage) (\<lambda>f.
             sq (sf_coalesce E newPage sz (unmagic E f) True)
                (grow_loop n E newPage (tempSize - PAGE_SZ)))))))
      else ret True)"

definition grow_heap :: "sf_env \<Rightarrow> 64 word \<Rightarrow> bool sf" where
  "grow_heap E req =
     bnd (gets globalEnd) (\<lambda>g. bnd (get_header E g) (\<lambda>gh. bnd (gets mem_end) (\<lambda>e.
     let globalEndHeader = unmagic E gh;
         globalEndBlockSz = size_bits globalEndHeader;
         prevAllForNewPage = (globalEndHeader AND THIS_BLOCK_ALLOCATED = THIS_BLOCK_ALLOCATED);
         newPage = e - 16 in
     sq (if prevAllForNewPage then set_header E newPage (unmagic E (PAGE_SZ OR PREV_BLOCK_ALLOCATED))
         else set_header E newPage (unmagic E PAGE_SZ))
     (sq (set_footer E newPage (unmagic E globalEndBlockSz))
     (bnd (get_header E g) (\<lambda>gh2.
      grow_loop (steps E) E newPage
        (if unmagic E gh2 AND THIS_BLOCK_ALLOCATED = THIS_BLOCK_ALLOCATED then req
         else req - globalEndBlockSz)))))))"

fun malloc_loop :: "nat \<Rightarrow> sf_env \<Rightarrow> 64 word \<Rightarrow> addr sf" where
  "malloc_loop 0 E req = fail OutOfFuel"
| "malloc_loop (Suc n) E req =
     (if req = 0 then ret 0
      else if c_int req < 0 then sq (modify (\<lambda>s. s\<lparr>sf_errno := ENOMEM\<rparr>)) (ret 0)
      else
        bnd (gets mem_end) (\<lambda>e.
        sq (when_do (mem_start E = e) (sf_init_first_page E))
        (bnd (lift_outcome (block_size req)) (\<lambda>blockSize.
         bnd (quick_search E [0..<NUM_QUICK_LISTS] blockSize) (\<lambda>q.
         case q of Some p \<Rightarrow> ret p
         | None \<Rightarrow>
             bnd (fit_lists E [0..<NUM_FREE_LISTS] blockSize) (\<lambda>f.
             case f of Some (curBlock, sz) \<Rightarrow> take_fit E curBlock sz blockSize
             | None \<Rightarrow> bnd (grow_heap E req) (\<lambda>ok. if ok then malloc_loop n E req else ret 0)))))))"

definition sf_malloc :: "sf_env \<Rightarrow> 64 word \<Rightarrow> addr sf" where
  "sf_malloc E req = malloc_loop (steps E) E req"

subsection \<open>sf_free and sf_realloc\<close>

text \<open>The checks of the pointer the two share; the result is the size and the header.\<close>

definition check_ptr :: "sf_env \<Rightarrow> addr \<Rightarrow> (addr \<times> 64 word \<times> 64 word) sf" where
  "check_ptr E pp =
     (let curBlock = pp - 16 in
      if curBlock = 0 then fail Aborted
      else if pp mod 16 \<noteq> 0 then fail Aborted
      else bnd (get_header E curBlock) (\<lambda>h.
        let v = unmagic E h in
        if v AND THIS_BLOCK_ALLOCATED \<noteq> 4 then fail Aborted
        else
          let v1 = v - 4; curBlockSz = (if v1 AND PREV_BLOCK_ALLOCATED = 2 then v1 - 2 else v1) in
          bnd (gets mem_end) (\<lambda>e.
            if curBlockSz < 32 \<or> curBlockSz mod 16 \<noteq> 0 \<or> pp < mem_start E \<or> curBlock + curBlockSz > e
            then fail Aborted else ret (curBlock, curBlockSz, v))))"

definition sf_free :: "sf_env \<Rightarrow> addr \<Rightarrow> unit sf" where
  "sf_free E pp =
     bnd (check_ptr E pp) (\<lambda>(curBlock, curBlockSz, v).
     let hadPrevAll = ((v - 4) AND PREV_BLOCK_ALLOCATED = 2) in
     sq (when_do (v AND PREV_BLOCK_ALLOCATED = 0)
           (let past_block = sf_get_past_block curBlock curBlockSz in
            bnd (gets mem_end) (\<lambda>e.
              if past_block \<ge> mem_start E \<and> past_block < e then
                bnd (get_header E past_block) (\<lambda>h.
                  if unmagic E h AND THIS_BLOCK_ALLOCATED \<noteq> 0 then fail Aborted else ret ())
              else ret ())))
     (bnd (sf_put_in_quick_list E curBlock curBlockSz) (\<lambda>quicked.
      if quicked then ret ()
      else
        let next_block = sf_get_next_block curBlock curBlockSz in
        bnd (get_header E next_block) (\<lambda>nh.
        sq (set_header E next_block (unmagic E (unmagic E nh AND NOT PREV_BLOCK_ALLOCATED)))
        (sq (sf_set_block_footer E next_block)
        (sq (set_header E curBlock
               (unmagic E (if hadPrevAll then curBlockSz OR PREV_BLOCK_ALLOCATED else curBlockSz)))
        (sq (sf_set_block_footer E curBlock)
        (bnd (get_footer E curBlock) (\<lambda>f.
         sq (sf_coalesce E curBlock curBlockSz (size_bits (unmagic E f)) False) (ret ()))))))))))"

fun copy_words :: "sf_env \<Rightarrow> addr \<Rightarrow> addr \<Rightarrow> nat \<Rightarrow> unit sf" where
  "copy_words E dst src 0 = ret ()"
| "copy_words E dst src (Suc n) =
     bnd (rd E src) (\<lambda>v. sq (wr E dst v) (copy_words E (dst + 8) (src + 8) n))"

fun shrink_loop :: "nat \<Rightarrow> 64 word \<Rightarrow> 64 word outcome" where
  "shrink_loop 0 b = Inl OutOfFuel"
| "shrink_loop (Suc n) b = (if b mod 16 \<noteq> 0 \<or> b \<le> 16 then shrink_loop n (b + 1) else Inr b)"

definition sf_realloc :: "sf_env \<Rightarrow> addr \<Rightarrow> 64 word \<Rightarrow> addr sf" where
  "sf_realloc E pp rsize =
     bnd (check_ptr E pp) (\<lambda>(curBlock, curBlockSz, v).
     sq (when_do (v AND PREV_BLOCK_ALLOCATED = 0)
           (let past_block = sf_get_past_block curBlock curBlockSz in
            if past_block \<ge> mem_start E then
              bnd (get_header E past_block) (\<lambda>h.
                if unmagic E h AND THIS_BLOCK_ALLOCATED \<noteq> 0 then fail Aborted else ret ())
            else ret ()))
     (if rsize = 0 then sq (sf_free E pp) (ret 0)
      else
        bnd (lift_outcome (pad_loop 64 (rsize + 8) 0)) (\<lambda>(difference, _).
        if curBlockSz = rsize + 8 then ret pp
        else if curBlockSz < rsize then
          bnd (sf_malloc E rsize) (\<lambda>newBiggerBlock.
            if newBiggerBlock = 0 then ret 0
            else sq (copy_words E newBiggerBlock curBlock (unat (curBlockSz - 8) div 8))
                 (sq (sf_free E (curBlock + 16)) (ret newBiggerBlock)))
        else if curBlockSz > rsize then
          if curBlockSz - difference < 32 then ret pp
          else
            bnd (lift_outcome (shrink_loop 64 (rsize + 8))) (\<lambda>newBlockSz.
            let splitBlock = curBlock + newBlockSz; rest = curBlockSz - newBlockSz in
            sq (set_header E splitBlock (unmagic E (rest OR PREV_BLOCK_ALLOCATED)))
            (sq (set_footer E splitBlock (unmagic E (newBlockSz OR THIS_BLOCK_ALLOCATED)))
            (sq (sf_set_block_footer E splitBlock)
            (bnd (get_prev E curBlock) (\<lambda>newPrev. bnd (get_next E curBlock) (\<lambda>newNext.
            sq (set_next E newPrev newNext)
            (sq (set_prev E newNext newPrev)
            (sq (sf_put_in_free_list E splitBlock rest)
            (sq (set_header E curBlock
                   (unmagic E (newBlockSz OR THIS_BLOCK_ALLOCATED OR PREV_BLOCK_ALLOCATED)))
            (sq (note_end splitBlock)
            (bnd (get_footer E splitBlock) (\<lambda>f.
            sq (sf_coalesce E splitBlock rest (size_bits (unmagic E f)) False)
               (ret (payload curBlock))))))))))))))
        else ret 0)))"

subsection \<open>Lemmas: reading and writing\<close>

lemma rd_ok: "valid_addr E s a \<Longrightarrow> rd E a s = Inr (mem s a, s)"
  by (simp add: rd_def)

lemma wr_ok: "valid_addr E s a \<Longrightarrow> wr E a v s = Inr ((), s\<lparr>mem := (mem s)(a := v)\<rparr>)"
  by (simp add: wr_def)

lemma valid_upd [simp]:
  "valid_addr E (s\<lparr>mem := m\<rparr>) a = valid_addr E s a" "valid_addr E (s\<lparr>quick := q\<rparr>) a = valid_addr E s a"
  "valid_addr E (s\<lparr>globalEnd := g\<rparr>) a = valid_addr E s a" "valid_addr E (s\<lparr>sf_errno := e\<rparr>) a = valid_addr E s a"
  by (simp_all add: valid_addr_def)

lemma bnd_rd: "valid_addr E s a \<Longrightarrow> bnd (rd E a) k s = k (mem s a) s"
  by (simp add: bnd_def rd_def)

lemma sq_wr: "valid_addr E s a \<Longrightarrow> sq (wr E a v) k s = k (s\<lparr>mem := (mem s)(a := v)\<rparr>)"
  by (simp add: sq_def bnd_def wr_def)

lemma bnd_get_ql: "bnd (get_ql i) k s = k (quick s ! i) s"
  by (simp add: get_ql_def)

lemma sq_set_ql: "sq (set_ql i q) k s = k (s\<lparr>quick := (quick s)[i := q]\<rparr>)"
  by (simp add: set_ql_def)

lemmas sf_run = bnd_rd sq_wr bnd_get_ql sq_set_ql

subsection \<open>Lemmas: sizes and headers\<close>

lemma unmagic_twice [simp]: "unmagic E (unmagic E h) = h"
  by (simp add: unmagic_def xor.assoc)

lemma mod16_unat: "(b :: 64 word) mod 16 = 0 \<longleftrightarrow> unat b mod 16 = 0"
proof -
  have "unat (b mod 16) = unat b mod 16" by (simp add: unat_mod)
  then show ?thesis by (metis unat_eq_zero)
qed

lemma pad_loop_value:
  "(unat b + j) mod 16 = 0 \<Longrightarrow> (\<And>i. i < j \<Longrightarrow> (unat b + i) mod 16 \<noteq> 0) \<Longrightarrow> unat b + j < 2 ^ 64 \<Longrightarrow>
   j < n \<Longrightarrow> pad_loop n b p = Inr (b + of_nat j, p + of_nat j)"
proof (induction j arbitrary: n b p)
  case 0
  then obtain m where "n = Suc m" by (cases n) auto
  moreover have "b mod 16 = 0" using 0(1) by (simp add: mod16_unat)
  ultimately show ?case by simp
next
  case (Suc j)
  then obtain m where n: "n = Suc m" by (cases n) auto
  have "unat b mod 16 \<noteq> 0" using Suc.prems(2) [of 0] by simp
  then have b: "b mod 16 \<noteq> 0" using mod16_unat [of b] by (auto simp: mod16_unat)
  have u: "unat (b + 1) = unat b + 1" using Suc.prems(3) by (simp add: unat_word_ariths)
  have "pad_loop m (b + 1) (p + 1) = Inr (b + 1 + of_nat j, p + 1 + of_nat j)"
  proof (rule Suc.IH)
    show "(unat (b + 1) + j) mod 16 = 0" using Suc.prems(1) u by simp
    show "(unat (b + 1) + i) mod 16 \<noteq> 0" if "i < j" for i
      using Suc.prems(2) [of "Suc i"] that u by simp
  qed (use Suc.prems u n in simp_all)
  then show ?case using n b by (simp add: algebra_simps)
qed


text \<open>The block size is the least multiple of 16 that holds the request with its header, at least 32.\<close>

lemma pad_exists:
  fixes n :: nat
  shows "\<exists>j < 16. (n + j) mod 16 = 0 \<and> (\<forall>i < j. (n + i) mod 16 \<noteq> 0)"
proof -
  let ?p = "\<lambda>j. (n + j) mod 16 = 0"
  have "n mod 16 < 16" by simp
  then have p: "?p (16 - n mod 16)"
    by (metis add.commute add_diff_inverse_nat less_or_eq_imp_le mod_add_right_eq mod_self not_less)
  let ?j = "LEAST j. ?p j"
  from p have 1: "?p ?j" by (rule LeastI)
  have 2: "\<forall>i < ?j. \<not> ?p i" by (intro allI impI) (erule not_less_Least)
  obtain j where j: "?p j" "\<forall>i < j. \<not> ?p i" by (rule that [OF 1 2])
  have "j < 16"
  proof (rule ccontr)
    assume g: "\<not> j < 16"
    have "(n + (j - 16) + 16) mod 16 = (n + (j - 16)) mod 16" by (rule mod_add_self2)
    with g j(1) have "?p (j - 16)" by simp
    moreover have "\<not> ?p (j - 16)" by (rule j(2) [rule_format]) (use g in simp)
    ultimately show False by contradiction
  qed
  show ?thesis by (rule exI [of _ j], intro conjI \<open>j < 16\<close> j)
qed

definition fits :: "nat \<Rightarrow> nat \<Rightarrow> bool" where
  "fits r m \<longleftrightarrow> m mod 16 = 0 \<and> 32 \<le> m \<and> r + 8 \<le> m"

lemma block_size_least:
  assumes "unat req + 64 < 2 ^ 64"
  shows "\<exists>b. block_size req = Inr b \<and> fits (unat req) (unat b) \<and> (\<forall>m. fits (unat req) m \<longrightarrow> unat b \<le> m)"
proof -
  have r8: "unat (req + 8) = unat req + 8" using assms by (simp add: unat_word_ariths)
  from pad_exists [of "unat (req + 8)"] obtain j where
    j0: "j < 16 \<and> (unat (req + 8) + j) mod 16 = 0 \<and> (\<forall>i < j. (unat (req + 8) + i) mod 16 \<noteq> 0)" ..
  note j = j0 [THEN conjunct1] j0 [THEN conjunct2, THEN conjunct1]
    j0 [THEN conjunct2, THEN conjunct2, rule_format]
  let ?b = "req + 8 + of_nat j"
  have pad: "pad_loop 64 (req + 8) 0 = Inr (?b, of_nat j)"
  proof -
    have a: "unat (req + 8) + j < 2 ^ 64" using assms j(1) r8 by linarith
    have b: "j < 64" using j(1) by simp
    have "pad_loop 64 (req + 8) 0 = Inr (?b, 0 + of_nat j)"
      by (rule pad_loop_value [OF j(2,3) a b])
    then show ?thesis by (simp only: add_0_left)
  qed
  have uj: "unat (of_nat j :: 64 word) = j" using j(1) by (simp add: unat_of_nat)
  have ub: "unat ?b = unat req + 8 + j"
    using assms j(1) r8 by (simp add: unat_word_ariths uj)
  have b16: "unat ?b mod 16 = 0" using j(2) r8 ub by simp
  show ?thesis
  proof (cases "unat ?b = 16")
    case True
    then have b: "?b = 16" by (intro unsigned_word_eqI [where ?'a = nat]) simp
    have p: "req + of_nat j = 8" using True ub assms by (intro unsigned_word_eqI [where ?'a = nat]) (simp add: unat_word_ariths uj)
    have "min_loop 64 (16 :: 64 word) 8 = Inr (32, 24)" by code_simp
    then have "block_size req = Inr 32" by (simp add: block_size_def pad b p)
    then show ?thesis using True ub by (simp add: fits_def)
  next
    case False
    with b16 ub have ge: "32 \<le> unat ?b" by presburger
    have up: "unat (req + of_nat j) = unat req + j"
      using assms j(1) by (simp add: unat_word_ariths uj)
    have "\<not> req + of_nat j < 24" using up ge ub by (simp add: word_less_nat_alt)
    then have "min_loop 64 ?b (req + of_nat j) = Inr (?b, req + of_nat j)"
      using min_loop.simps(2) [of 63 ?b "req + of_nat j"] b16 by (simp add: mod16_unat)
    then have "block_size req = Inr ?b" by (simp add: block_size_def pad)
    moreover have "unat ?b \<le> m" if "fits (unat req) m" for m
    proof (rule ccontr)
      assume "\<not> unat ?b \<le> m"
      with that ub have "m - (unat req + 8) < j" "m = unat (req + 8) + (m - (unat req + 8))"
        by (auto simp: fits_def r8)
      with j(3) that show False by (metis fits_def)
    qed
    ultimately show ?thesis using b16 ge ub by (auto simp: fits_def)
  qed
qed


text \<open>A size with its low bits clear keeps its value when flags are added, and the flags can be read.\<close>

definition szok :: "64 word \<Rightarrow> bool" where
  "szok z \<longleftrightarrow> size_bits z = z"

lemma mask_3: "(7 :: 64 word) = mask 3"
  by (simp add: mask_eq_exp_minus_1)

lemma szok_mod: "unat z mod 8 = 0 \<Longrightarrow> szok z"
proof -
  assume "unat z mod 8 = 0"
  then have "unat (z mod 8) = 0" by (simp only: unat_mod) simp
  then have "z mod 8 = 0" by (simp only: unat_eq_zero)
  then have "take_bit 3 z = 0" by (simp add: take_bit_eq_mod)
  then have "z AND 7 = 0" by (simp add: mask_3 take_bit_eq_mask)
  moreover have "z = (z AND 7) OR (z AND NOT 7)"
    by (simp only: bit.conj_disj_distrib [symmetric] bit.disj_cancel_right bit.conj_one_right)
  ultimately show "szok z" by (simp add: szok_def size_bits_def)
qed

lemma szok_and: "szok z \<Longrightarrow> z AND 4 = 0" "szok z \<Longrightarrow> z AND 2 = 0" "szok z \<Longrightarrow> z AND 6 = 0"
proof -
  have a: "z AND f = 0" if "szok z" "NOT 7 AND f = 0" for f
  proof -
    have "z AND f = z AND (NOT 7 AND f)"
      using that(1) unfolding szok_def size_bits_def by (metis and.assoc)
    then show ?thesis using that(2) by simp
  qed
  show "szok z \<Longrightarrow> z AND 4 = 0" "szok z \<Longrightarrow> z AND 2 = 0" "szok z \<Longrightarrow> z AND 6 = 0"
    by (auto intro: a)
qed

lemma szok_or:
  assumes "szok z"
  shows "size_bits (z OR 2) = z" "size_bits (z OR 4) = z" "size_bits (z OR 6) = z" "size_bits z = z"
  using assms by (simp_all add: szok_def size_bits_def bit.conj_disj_distrib2)

lemma szok_flags:
  assumes "szok z"
  shows "(z OR 2) AND 4 = 0" "(z OR 4) AND 4 = 4" "(z OR 6) AND 4 = 4"
    "(z OR 2) AND 2 = 2" "(z OR 4) AND 2 = 0" "(z OR 6) AND 2 = 2"
  using szok_and [OF assms] by (simp_all add: bit.conj_disj_distrib2)

lemma szok_plus:
  assumes "szok z"
  shows "z OR 2 = z + 2" "z OR 4 = z + 4" "z OR 6 = z + 6"
  using szok_and [OF assms] by (simp_all add: disjunctive_add_eq_or [symmetric])

lemma strip_ok:
  assumes "szok z"
  shows "strip_flags (z OR 2) = z" "strip_flags (z OR 4) = z" "strip_flags (z OR 6) = z" "strip_flags z = z"
proof -
  note p = szok_plus [OF assms]
  note c = strip_flags_def sf_consts Let_def p szok_flags [OF assms, unfolded p] szok_and [OF assms]
    szok_flags [OF assms, unfolded p add.commute [of z]]
  show "strip_flags (z OR 2) = z" "strip_flags (z OR 4) = z" "strip_flags (z OR 6) = z" "strip_flags z = z"
    by (simp_all add: c)
qed


subsection \<open>Lemmas: quick lists\<close>

text \<open>The quick lists are segregated by size: the first block of list \<open>j\<close> has size \<open>32 + 16 j\<close>.\<close>

definition quick_size :: "nat \<Rightarrow> 64 word" where
  "quick_size j = 32 + 16 * of_nat j"

definition quick_ok :: "sf_env \<Rightarrow> sfmm \<Rightarrow> bool" where
  "quick_ok E s \<longleftrightarrow> length (quick s) = NUM_QUICK_LISTS \<and> (\<forall>j < NUM_QUICK_LISTS.
     let q = quick s ! j in 0 \<le> ql_length q \<and> ql_length q \<le> int QUICK_LIST_MAX
       \<and> (0 < ql_length q \<longrightarrow> ql_first q mod 16 = 0 \<and> valid_addr E s (ql_first q + 8)
            \<and> strip_flags (unmagic E (mem s (ql_first q + 8))) = quick_size j))"

lemma below_10: "j < NUM_QUICK_LISTS \<Longrightarrow> j \<in> {0, 1, 2, 3, 4, 5, 6, 7, 8, 9}"
  by (auto simp: NUM_QUICK_LISTS_def)

lemma put_quick: "i < NUM_QUICK_LISTS \<Longrightarrow>
    sf_put_in_quick_list E b (quick_size i) = sq (sf_put_in_quick_list_helper E b i) (ret True)"
  by (drule below_10) (auto simp: sf_put_in_quick_list_def quick_size_def)

lemma quick_size_inj: "i < NUM_QUICK_LISTS \<Longrightarrow> j < NUM_QUICK_LISTS \<Longrightarrow> quick_size i = quick_size j \<Longrightarrow> i = j"
  by (drule below_10, drule below_10) (auto simp: quick_size_def)

lemma quick_size_szok: "i < NUM_QUICK_LISTS \<Longrightarrow> szok (quick_size i)"
  by (drule below_10) (auto simp: szok_def size_bits_def quick_size_def)

lemma quick_size_props: "i < NUM_QUICK_LISTS \<Longrightarrow> \<not> quick_size i < 32" "i < NUM_QUICK_LISTS \<Longrightarrow> quick_size i mod 16 = 0"
  by (drule below_10, force simp: quick_size_def)+

lemma put_quick_helper:
  assumes "ql_length (quick s ! i) \<noteq> 5" and "valid_addr E s (b + 16)"
  shows "sf_put_in_quick_list_helper E b i s = Inr ((), s\<lparr>mem := (mem s)(b + 16 := ql_first (quick s ! i)),
     quick := (quick s)[i := \<lparr>ql_length = ql_length (quick s ! i) + 1, ql_first = b\<rparr>]\<rparr>)"
  using assms
  by (simp add: sf_put_in_quick_list_helper_def sf_fields get_ql_def set_ql_def sq_wr)

lemma quick_search_skip:
  assumes "\<forall>j \<in> set js. 0 < ql_length (quick s ! j) \<longrightarrow> valid_addr E s (ql_first (quick s ! j) + 8)
      \<and> strip_flags (unmagic E (mem s (ql_first (quick s ! j) + 8))) \<noteq> bs"
  shows "quick_search E (js @ ks) bs s = quick_search E ks bs s"
  using assms by (induction js) (auto simp: sf_fields get_ql_def bnd_rd)

lemma quick_search_hit:
  assumes "0 < ql_length (quick s ! i)" and "ql_first (quick s ! i) = b"
    and "valid_addr E s (b + 8)" and "valid_addr E s (b + 16)"
    and "strip_flags (unmagic E (mem s (b + 8))) = bs"
  shows "quick_search E (i # ks) bs s = Inr (Some (payload b),
    s\<lparr>quick := (quick s)[i := \<lparr>ql_length = ql_length (quick s ! i) - 1, ql_first = mem s (b + 16)\<rparr>]\<rparr>)"
  using assms by (simp add: sf_fields get_ql_def set_ql_def bnd_rd)

lemma mod16_plus8: "(a :: 64 word) mod 16 = 0 \<Longrightarrow> (a + 8) mod 16 \<noteq> 0"
proof -
  assume "a mod 16 = 0"
  then have a: "unat a mod 16 = 0" by (simp add: mod16_unat)
  have "unat (a + 8) = (unat a + 8) mod 2 ^ 64" by (simp add: unat_word_ariths)
  then have "unat (a + 8) mod 16 = (unat a + 8) mod 16" by (simp add: mod_mod_cancel)
  also have "\<dots> = (unat a mod 16 + 8) mod 16" by (simp only: mod_add_left_eq)
  finally show ?thesis using a by (simp add: mod16_unat)
qed

lemma check_ptr_ok:
  assumes "b \<noteq> 0" and "b mod 16 = 0" and "valid_addr E s (b + 8)"
    and "unmagic E (mem s (b + 8)) = z OR 6" and "szok z" and "\<not> z < 32" and "z mod 16 = 0"
    and "\<not> b + 16 < mem_start E" and "\<not> b + z > mem_end s"
  shows "check_ptr E (b + 16) s = Inr ((b, z, z OR 6), s)"
proof -
  have "(b + 16) mod 16 = 0"
  proof -
    have "unat (b + 16) mod 16 = (unat b + 16) mod 2 ^ 64 mod 16" by (simp add: unat_word_ariths)
    also have "\<dots> = (unat b + 16) mod 16" by (simp add: mod_mod_cancel)
    finally show ?thesis using assms(2) by (simp add: mod16_unat)
  qed
  moreover have "(z OR 6) - 4 = z OR 2" by (simp add: szok_plus [OF assms(5)])
  moreover have "(z OR 2) - 2 = z" by (simp add: szok_plus [OF assms(5)])
  ultimately show ?thesis
    using assms by (simp add: check_ptr_def Let_def sf_fields bnd_rd sf_consts szok_flags)
qed


lemma free_small:
  assumes "b \<noteq> 0" and "b mod 16 = 0" and "valid_addr E s (b + 8)" and "valid_addr E s (b + 16)"
    and "unmagic E (mem s (b + 8)) = quick_size i OR 6" and i: "i < NUM_QUICK_LISTS"
    and "\<not> b + 16 < mem_start E" and "\<not> b + quick_size i > mem_end s"
    and "ql_length (quick s ! i) \<noteq> 5"
  shows "sf_free E (b + 16) s = Inr ((), s\<lparr>mem := (mem s)(b + 16 := ql_first (quick s ! i)),
     quick := (quick s)[i := \<lparr>ql_length = ql_length (quick s ! i) + 1, ql_first = b\<rparr>]\<rparr>)"
proof -
  note z = quick_size_szok [OF i]
  have c: "check_ptr E (b + 16) s = Inr ((b, quick_size i, quick_size i OR 6), s)"
    using check_ptr_ok [OF assms(1,2,3,5) z quick_size_props [OF i] assms(7,8)] .
  have p: "(quick_size i OR 6) AND PREV_BLOCK_ALLOCATED \<noteq> 0"
    using szok_flags(6) [OF z] by (simp add: sf_consts)
  show ?thesis
    using put_quick_helper [OF assms(9,4)] p
    by (simp add: sf_free_def bnd_def sq_def c Let_def put_quick [OF i])
qed

lemma malloc_quick:
  assumes "req \<noteq> 0" and "0 \<le> c_int req" and "block_size req = Inr (quick_size i)" and i: "i < NUM_QUICK_LISTS"
    and "mem_start E \<noteq> mem_end s" and "steps E \<noteq> 0"
    and skip: "\<forall>j < i. 0 < ql_length (quick s ! j) \<longrightarrow> valid_addr E s (ql_first (quick s ! j) + 8)
      \<and> strip_flags (unmagic E (mem s (ql_first (quick s ! j) + 8))) \<noteq> quick_size i"
    and hit: "0 < ql_length (quick s ! i)" "ql_first (quick s ! i) = b" "valid_addr E s (b + 8)"
      "valid_addr E s (b + 16)" "strip_flags (unmagic E (mem s (b + 8))) = quick_size i"
  shows "sf_malloc E req s = Inr (b + 16,
    s\<lparr>quick := (quick s)[i := \<lparr>ql_length = ql_length (quick s ! i) - 1, ql_first = mem s (b + 16)\<rparr>]\<rparr>)"
proof -
  obtain n where n: "steps E = Suc n" using assms(6) by (cases "steps E") auto
  have "[0..<NUM_QUICK_LISTS] = [0..<i] @ i # [Suc i..<NUM_QUICK_LISTS]"
    using i by (metis less_imp_le_nat upt_add_eq_append upt_conv_Cons le_add_diff_inverse zero_le)
  moreover have "\<forall>j \<in> set [0..<i]. 0 < ql_length (quick s ! j) \<longrightarrow> valid_addr E s (ql_first (quick s ! j) + 8)
      \<and> strip_flags (unmagic E (mem s (ql_first (quick s ! j) + 8))) \<noteq> quick_size i" using skip by simp
  ultimately have "quick_search E [0..<NUM_QUICK_LISTS] (quick_size i) s = Inr (Some (payload b),
    s\<lparr>quick := (quick s)[i := \<lparr>ql_length = ql_length (quick s ! i) - 1, ql_first = mem s (b + 16)\<rparr>]\<rparr>)"
    using quick_search_skip [of "[0..<i]" s E "quick_size i" "i # [Suc i..<NUM_QUICK_LISTS]"]
      quick_search_hit [OF hit] by metis
  then show ?thesis
    using assms(1-3,5) by (simp add: sf_malloc_def n bnd_def sq_def payload_def)
qed

text \<open>
  Freeing a small block puts it on its quick list and allocating a size that needs the same block
  size takes it back: on a heap whose quick lists are well formed, \<open>sf_free\<close> of a block of one of the
  ten quick sizes followed by \<open>sf_malloc\<close> returns the same pointer and restores the heap, except for
  the first word of the payload, which holds the link.
\<close>

theorem free_malloc_quick:
  assumes ok: "quick_ok E s" and i: "i < NUM_QUICK_LISTS" and room: "ql_length (quick s ! i) < 5"
    and b: "b \<noteq> 0" "b mod 16 = 0" "mem_start E \<le> b + 16" "b + quick_size i \<le> mem_end s"
    and addr: "valid_addr E s (b + 8)" "valid_addr E s (b + 16)"
    and hdr: "unmagic E (mem s (b + 8)) = quick_size i OR 6"
    and req: "req \<noteq> 0" "0 \<le> c_int req" "block_size req = Inr (quick_size i)"
    and env: "mem_start E \<noteq> mem_end s" "0 < steps E"
  shows "\<exists>s1. sf_free E (b + 16) s = Inr ((), s1) \<and> quick_ok E s1
    \<and> sf_malloc E req s1 = Inr (b + 16, s\<lparr>mem := (mem s)(b + 16 := ql_first (quick s ! i))\<rparr>)"
proof -
  let ?q = "quick s ! i"
  let ?s1 = "s\<lparr>mem := (mem s)(b + 16 := ql_first ?q),
     quick := (quick s)[i := \<lparr>ql_length = ql_length ?q + 1, ql_first = b\<rparr>]\<rparr>"
  note z = quick_size_szok [OF i]
  have len: "length (quick s) = NUM_QUICK_LISTS" and l0: "0 \<le> ql_length ?q"
    using ok i by (auto simp: quick_ok_def Let_def)
  have free: "sf_free E (b + 16) s = Inr ((), ?s1)"
    using free_small [OF b(1,2) addr hdr i] b room by simp
  have hb: "strip_flags (unmagic E (mem ?s1 (b + 8))) = quick_size i"
    using hdr strip_ok(3) [OF z] by simp
  have other: "ql_first (quick s ! j) + 8 \<noteq> b + 16" if "ql_first (quick s ! j) mod 16 = 0" for j
  proof
    assume "ql_first (quick s ! j) + 8 = b + 16"
    then have "ql_first (quick s ! j) = b + 8" by (simp add: algebra_simps)
    with that mod16_plus8 [OF b(2)] show False by simp
  qed

  have ok1: "quick_ok E ?s1"
    unfolding quick_ok_def Let_def
  proof (intro conjI allI impI)
    fix j assume j: "j < NUM_QUICK_LISTS"
    note okj = ok [unfolded quick_ok_def Let_def, THEN conjunct2, rule_format, OF j]
    show "0 \<le> ql_length (quick ?s1 ! j)" "ql_length (quick ?s1 ! j) \<le> int QUICK_LIST_MAX"
      using okj room l0 len i j by (auto simp: nth_list_update QUICK_LIST_MAX_def)
    assume "0 < ql_length (quick ?s1 ! j)"
    then have "ql_first (quick ?s1 ! j) mod 16 = 0 \<and> valid_addr E ?s1 (ql_first (quick ?s1 ! j) + 8)
      \<and> strip_flags (unmagic E (mem ?s1 (ql_first (quick ?s1 ! j) + 8))) = quick_size j"
    proof (cases "j = i")
      case True
      then show ?thesis using b(2) addr(1) hb len i by simp
    next
      case False
      then have q: "quick ?s1 ! j = quick s ! j" by simp
      assume "0 < ql_length (quick ?s1 ! j)"
      with okj q have k: "ql_first (quick s ! j) mod 16 = 0" "valid_addr E s (ql_first (quick s ! j) + 8)"
        "strip_flags (unmagic E (mem s (ql_first (quick s ! j) + 8))) = quick_size j" by simp_all
      have "mem ?s1 (ql_first (quick s ! j) + 8) = mem s (ql_first (quick s ! j) + 8)"
        using fun_upd_other [OF other [OF k(1)], of "mem s"] by simp
      then show ?thesis unfolding q using k by (simp only: valid_upd)
    qed
    then show "ql_first (quick ?s1 ! j) mod 16 = 0" "valid_addr E ?s1 (ql_first (quick ?s1 ! j) + 8)"
      "strip_flags (unmagic E (mem ?s1 (ql_first (quick ?s1 ! j) + 8))) = quick_size j" by blast+
  qed (use len in simp)
  have skip: "\<forall>j < i. 0 < ql_length (quick ?s1 ! j) \<longrightarrow> valid_addr E ?s1 (ql_first (quick ?s1 ! j) + 8)
      \<and> strip_flags (unmagic E (mem ?s1 (ql_first (quick ?s1 ! j) + 8))) \<noteq> quick_size i"
  proof (intro allI impI)
    fix j assume j: "j < i" "0 < ql_length (quick ?s1 ! j)"
    then have j10: "j < NUM_QUICK_LISTS" using i by simp
    note okj = ok1 [unfolded quick_ok_def Let_def, THEN conjunct2, rule_format, OF j10, THEN conjunct2,
        THEN conjunct2, rule_format, OF j(2)]
    have "quick_size j \<noteq> quick_size i" using quick_size_inj [OF j10 i] j(1) by auto
    then show "valid_addr E ?s1 (ql_first (quick ?s1 ! j) + 8)
      \<and> strip_flags (unmagic E (mem ?s1 (ql_first (quick ?s1 ! j) + 8))) \<noteq> quick_size i"
      using okj by (simp only: simp_thms)
  qed
  have "sf_malloc E req ?s1 = Inr (b + 16,
    ?s1\<lparr>quick := (quick ?s1)[i := \<lparr>ql_length = ql_length (quick ?s1 ! i) - 1, ql_first = mem ?s1 (b + 16)\<rparr>]\<rparr>)"
    using hb addr len i l0 env by (intro malloc_quick [OF req i _ _ skip]) auto
  also have "?s1\<lparr>quick := (quick ?s1)[i := \<lparr>ql_length = ql_length (quick ?s1 ! i) - 1, ql_first = mem ?s1 (b + 16)\<rparr>]\<rparr>
      = s\<lparr>mem := (mem s)(b + 16 := ql_first ?q)\<rparr>"
  proof -
    have "\<lparr>ql_length = ql_length ?q, ql_first = ql_first ?q\<rparr> = ?q" by simp
    then have "(quick s)[i := \<lparr>ql_length = ql_length ?q, ql_first = ql_first ?q\<rparr>] = quick s"
      by (simp only: list_update_id)
    then show ?thesis using len i by (cases s) simp
  qed
  finally show ?thesis using free ok1 by blast
qed


text \<open>An environment and a heap of one page with one allocated block of 32 bytes at its start.\<close>

definition demo_E :: sf_env where
  "demo_E = \<lparr>sf_magic = 0xDEADBEEF12345678, mem_start = 0x10000, mem_grow = (\<lambda>s. (0, s)),
     heads = 0x1000, steps = 100\<rparr>"

definition demo_s :: sfmm where
  "demo_s = \<lparr>mem = (\<lambda>_. 0)(0x10008 := (32 OR 6) XOR 0xDEADBEEF12345678), mem_end = 0x11000,
     quick = replicate NUM_QUICK_LISTS \<lparr>ql_length = 0, ql_first = 0\<rparr>, globalEnd = 0x10000, sf_errno = 0\<rparr>"

theorem free_malloc_quick_witness:
  "\<exists>s1. sf_free demo_E 0x10010 demo_s = Inr ((), s1)
    \<and> sf_malloc demo_E 24 s1 = Inr (0x10010, demo_s\<lparr>mem := (mem demo_s)(0x10010 := 0)\<rparr>)"
proof -
  have q: "quick_ok demo_E demo_s"
    by (auto simp: quick_ok_def demo_s_def QUICK_LIST_MAX_def Let_def)
  have i: "0 < NUM_QUICK_LISTS" by (simp add: NUM_QUICK_LISTS_def)
  have b: "(0x10000 :: addr) \<noteq> 0" "(0x10000 :: addr) mod 16 = 0" "mem_start demo_E \<le> 0x10000 + 16"
    "0x10000 + quick_size 0 \<le> mem_end demo_s"
    by (simp_all add: demo_E_def demo_s_def quick_size_def)
  have v: "valid_addr demo_E demo_s (0x10000 + 8)" "valid_addr demo_E demo_s (0x10000 + 16)"
    by (simp_all add: valid_addr_def demo_E_def demo_s_def)
  have h: "unmagic demo_E (mem demo_s (0x10000 + 8)) = quick_size 0 OR 6"
    by (simp add: unmagic_def demo_E_def demo_s_def quick_size_def)
  have r: "(24 :: 64 word) \<noteq> 0" "0 \<le> c_int 24" "block_size 24 = Inr (quick_size 0)"
    by (simp_all add: c_int_def) code_simp
  have l: "ql_length (quick demo_s ! 0) < 5" and f: "ql_first (quick demo_s ! 0) = 0"
    using i by (simp_all add: demo_s_def)
  have e: "mem_start demo_E \<noteq> mem_end demo_s" "0 < steps demo_E" by (simp_all add: demo_E_def demo_s_def)
  from free_malloc_quick [OF q i l b v h r e] f show ?thesis by auto
qed

subsection \<open>Lemmas: free lists\<close>

text \<open>
  The addresses of the two links of a block. \<open>seg m p xs q\<close>: from \<open>p\<close> the forward links lead through
  the blocks \<open>xs\<close> to \<open>q\<close>, and each block of \<open>xs\<close> points back to the one before. The back link of a list
  head is not constrained: the allocator never follows it, and \<open>sf_init_first_page\<close> does not set it.
\<close>

definition nx :: "addr \<Rightarrow> addr" where "nx b = b + 16"
definition pv :: "addr \<Rightarrow> addr" where "pv b = b + 24"

fun seg :: "(addr \<Rightarrow> 64 word) \<Rightarrow> addr \<Rightarrow> addr list \<Rightarrow> addr \<Rightarrow> bool" where
  "seg m p [] q = (m (nx p) = q)"
| "seg m p (x # xs) q = (m (nx p) = x \<and> m (pv x) = p \<and> seg m x xs q)"

definition blk :: "sf_env \<Rightarrow> sfmm \<Rightarrow> addr \<Rightarrow> bool" where
  "blk E s x \<longleftrightarrow> x mod 16 = 0 \<and> valid_addr E s (nx x) \<and> valid_addr E s (pv x)"

definition is_head :: "sf_env \<Rightarrow> addr \<Rightarrow> bool" where
  "is_head E x \<longleftrightarrow> x \<in> head_of E ` {..<NUM_FREE_LISTS}"

definition free_lists :: "sf_env \<Rightarrow> sfmm \<Rightarrow> (nat \<Rightarrow> addr list) \<Rightarrow> bool" where
  "free_lists E s fl \<longleftrightarrow> (\<forall>i < NUM_FREE_LISTS. blk E s (head_of E i)
     \<and> seg (mem s) (head_of E i) (fl i) (head_of E i) \<and> distinct (fl i)
     \<and> (\<forall>x \<in> set (fl i). blk E s x \<and> \<not> is_head E x
          \<and> (\<forall>j < NUM_FREE_LISTS. j \<noteq> i \<longrightarrow> x \<notin> set (fl j))))"

lemma link_eq [simp]: "nx x = nx y \<longleftrightarrow> x = y" "pv x = pv y \<longleftrightarrow> x = y"
  by (simp_all add: nx_def pv_def)

lemma nx_pv: "x mod 16 = 0 \<Longrightarrow> y mod 16 = 0 \<Longrightarrow> nx x \<noteq> pv y \<and> pv y \<noteq> nx x"
proof -
  assume a: "x mod 16 = 0" "y mod 16 = 0"
  have "nx x \<noteq> pv y"
  proof
    assume "nx x = pv y"
    then have "x = y + 8" by (simp add: nx_def pv_def algebra_simps)
    with a mod16_plus8 [OF a(2)] show False by simp
  qed
  then show ?thesis by metis
qed

lemma blk_upd [simp]: "blk E (s\<lparr>mem := m\<rparr>) x = blk E s x"
  by (simp add: blk_def)

lemma head_inj: "i < NUM_FREE_LISTS \<Longrightarrow> j < NUM_FREE_LISTS \<Longrightarrow> head_of E i = head_of E j \<Longrightarrow> i = j"
proof -
  assume "i < NUM_FREE_LISTS" "j < NUM_FREE_LISTS" "head_of E i = head_of E j"
  then have "i \<in> {0, 1, 2, 3, 4, 5, 6, 7, 8, 9}" "j \<in> {0, 1, 2, 3, 4, 5, 6, 7, 8, 9}"
    "32 * of_nat i = (32 * of_nat j :: 64 word)"
    using below_10 [of i] below_10 [of j] by (auto simp: NUM_FREE_LISTS_def NUM_QUICK_LISTS_def head_of_def)
  then show "i = j" by auto
qed

lemma seg_frame:
  "(\<And>x. x \<in> set (p # xs) \<Longrightarrow> m' (nx x) = m (nx x)) \<Longrightarrow> (\<And>x. x \<in> set xs \<Longrightarrow> m' (pv x) = m (pv x)) \<Longrightarrow>
   seg m' p xs q = seg m p xs q"
  by (induction xs arbitrary: p) auto

lemma seg_app:
  "seg m p (xs @ y # ys) q \<longleftrightarrow> seg m p xs y \<and> m (pv y) = last (p # xs) \<and> seg m y ys q"
  by (induction xs arbitrary: p) auto

lemma seg_redirect:
  "seg m p xs q \<Longrightarrow> distinct (p # xs) \<Longrightarrow> (\<And>x y. x \<in> set (p # xs) \<Longrightarrow> y \<in> set (p # xs) \<Longrightarrow> nx x \<noteq> pv y) \<Longrightarrow>
   seg (m(nx (last (p # xs)) := t)) p xs t"
proof (induction xs arbitrary: p)
  case (Cons x xs)
  let ?L = "last (x # xs)"
  have 1: "seg (m(nx ?L := t)) x xs t"
    using Cons.prems by (intro Cons.IH) auto
  have "?L \<noteq> p" using Cons.prems(2) last_in_set [of "x # xs"] by auto
  then have 2: "(m(nx ?L := t)) (nx p) = x" using Cons.prems(1) by simp
  have "nx ?L \<noteq> pv x" using Cons.prems(3) [of ?L x] last_in_set [of "x # xs"] by auto
  then have "pv x \<noteq> nx ?L" by (rule not_sym)
  then have 3: "(m(nx ?L := t)) (pv x) = p"
    using Cons.prems(1) by (simp only: fun_upd_other seg.simps simp_thms)
  have "last (p # x # xs) = ?L" by simp
  then show ?case using 1 2 3 by (simp only: seg.simps)
qed simp


lemma put_helper_run:
  assumes "valid_addr E s (nx (head_of E i))" and "valid_addr E s (pv (mem s (nx (head_of E i))))"
    and "blk E s b" and "valid_addr E s (pv (head_of E i))"
  shows "sf_put_in_free_list_helper E b i s = Inr ((), s\<lparr>mem := (mem s)
     (pv (mem s (nx (head_of E i))) := b, nx b := mem s (nx (head_of E i)), pv b := head_of E i,
      nx (head_of E i) := b)\<rparr>)"
proof -
  let ?h = "head_of E i"
  have "valid_addr E s (nx b)" "valid_addr E s (pv b)" using assms(3) by (simp_all add: blk_def)
  note v = assms(1,2,4) this
  have f: "get_next E x = rd E (nx x)" "set_next E x = wr E (nx x)" "set_prev E x = wr E (pv x)" for x
    by (simp_all add: sf_fields nx_def pv_def)
  show ?thesis
    unfolding sf_put_in_free_list_helper_def f
    by (simp add: bnd_rd sq_wr wr_def v del: fun_upd_apply)
qed

lemma free_listsD:
  assumes "free_lists E s fl" and "i < NUM_FREE_LISTS"
  shows "blk E s (head_of E i)" "seg (mem s) (head_of E i) (fl i) (head_of E i)" "distinct (fl i)"
    "x \<in> set (fl i) \<Longrightarrow> blk E s x" "x \<in> set (fl i) \<Longrightarrow> \<not> is_head E x"
    "x \<in> set (fl i) \<Longrightarrow> j < NUM_FREE_LISTS \<Longrightarrow> j \<noteq> i \<Longrightarrow> x \<notin> set (fl j)"
proof -
  note a = assms(1) [unfolded free_lists_def, rule_format, OF assms(2)]
  show "blk E s (head_of E i)" "seg (mem s) (head_of E i) (fl i) (head_of E i)" "distinct (fl i)"
    using a by simp_all
  show "x \<in> set (fl i) \<Longrightarrow> blk E s x" "x \<in> set (fl i) \<Longrightarrow> \<not> is_head E x"
    "x \<in> set (fl i) \<Longrightarrow> j < NUM_FREE_LISTS \<Longrightarrow> j \<noteq> i \<Longrightarrow> x \<notin> set (fl j)"
    using a [THEN conjunct2, THEN conjunct2, THEN conjunct2] by simp_all
qed

lemma free_listsI:
  assumes "\<And>i. i < NUM_FREE_LISTS \<Longrightarrow> blk E s (head_of E i)"
    and "\<And>i. i < NUM_FREE_LISTS \<Longrightarrow> seg (mem s) (head_of E i) (fl i) (head_of E i)"
    and "\<And>i. i < NUM_FREE_LISTS \<Longrightarrow> distinct (fl i)"
    and "\<And>i x. i < NUM_FREE_LISTS \<Longrightarrow> x \<in> set (fl i) \<Longrightarrow> blk E s x"
    and "\<And>i x. i < NUM_FREE_LISTS \<Longrightarrow> x \<in> set (fl i) \<Longrightarrow> \<not> is_head E x"
    and "\<And>i x k. i < NUM_FREE_LISTS \<Longrightarrow> x \<in> set (fl i) \<Longrightarrow> k < NUM_FREE_LISTS \<Longrightarrow> k \<noteq> i \<Longrightarrow> x \<notin> set (fl k)"
  shows "free_lists E s fl"
  using assms unfolding free_lists_def by (intro allI impI conjI ballI)

lemma head_is_head: "i < NUM_FREE_LISTS \<Longrightarrow> is_head E (head_of E i)"
  by (simp add: is_head_def)

lemma blk_mod: "blk E s x \<Longrightarrow> x mod 16 = 0"
  by (simp add: blk_def)

text \<open>Inserting at the front.\<close>

lemma put_helper_spec:
  assumes fl: "free_lists E s fl" and i: "i < NUM_FREE_LISTS" and b: "blk E s b" "\<not> is_head E b"
    and new: "\<forall>j < NUM_FREE_LISTS. b \<notin> set (fl j)"
  shows "\<exists>s'. sf_put_in_free_list_helper E b i s = Inr ((), s') \<and> free_lists E s' (fl(i := b # fl i))
    \<and> (\<exists>m. s' = s\<lparr>mem := m\<rparr> \<and> (\<forall>a. (\<forall>x. is_head E x \<or> x = b \<or> x \<in> set (fl i) \<longrightarrow> a \<noteq> nx x \<and> a \<noteq> pv x)
          \<longrightarrow> m a = mem s a))"
proof -
  let ?h = "head_of E i" and ?m = "mem s"
  let ?f = "?m (nx ?h)"
  let ?m' = "?m(pv ?f := b, nx b := ?f, pv b := ?h, nx ?h := b)"
  note D = free_listsD [OF fl]
  have f: "?f = (case fl i of [] \<Rightarrow> ?h | x # _ \<Rightarrow> x)"
    using D(2) [OF i] by (cases "fl i") auto
  then have f2: "?f = ?h \<or> ?f \<in> set (fl i)" by (cases "fl i") auto
  then have fb: "blk E s ?f" using D(1,4) [OF i] by auto
  have hb: "blk E s ?h" by (rule D(1) [OF i])
  have bh: "b \<noteq> ?h" using b(2) head_is_head [OF i] by auto
  have bf: "b \<noteq> ?f" using f2 bh new i by auto
  note np = nx_pv [OF blk_mod blk_mod]
  have run: "sf_put_in_free_list_helper E b i s = Inr ((), s\<lparr>mem := ?m'\<rparr>)"
    using put_helper_run [of E s i b] hb fb b(1) by (simp add: blk_def)
  have old_nx: "?m' (nx x) = ?m (nx x)" if "blk E s x" "x \<noteq> b" "x \<noteq> ?h" for x
    using that np [OF that(1) fb] np [OF that(1) b(1)] by simp
  have old_pv: "?m' (pv x) = ?m (pv x)" if "blk E s x" "x \<noteq> b" "x \<noteq> ?f" for x
    using that np [OF b(1) that(1)] np [OF hb that(1)] by simp
  have new_vals: "?m' (nx ?h) = b" "?m' (nx b) = ?f" "?m' (pv b) = ?h" "?m' (pv ?f) = b"
    using bh bf np [OF b(1) b(1)] np [OF hb b(1)] np [OF b(1) fb] np [OF hb fb] by auto
  have seg_i: "seg ?m' ?h (b # fl i) ?h"
  proof (cases "fl i")
    case Nil
    then show ?thesis using new_vals f by (simp del: fun_upd_apply)
  next
    case (Cons x xs)
    have "seg ?m' x xs ?h = seg ?m x xs ?h"
    proof (rule seg_frame)
      fix y assume y: "y \<in> set (x # xs)"
      then have "y \<in> set (fl i)" using Cons by simp
      with D(4,5) [OF i] new i head_is_head [OF i] show "?m' (nx y) = ?m (nx y)"
        by (intro old_nx) auto
    next
      fix y assume y: "y \<in> set xs"
      then have "y \<in> set (fl i)" "y \<noteq> ?f" using Cons D(3) [OF i] f by auto
      with D(4,5) [OF i] new i show "?m' (pv y) = ?m (pv y)"
        by (intro old_pv) auto
    qed
    moreover have "seg ?m x xs ?h" using D(2) [OF i] Cons by simp
    ultimately show ?thesis using new_vals f Cons by (simp del: fun_upd_apply)
  qed
  have seg_j: "seg ?m' (head_of E j) (fl j) (head_of E j)" if j: "j < NUM_FREE_LISTS" "j \<noteq> i" for j
  proof -
    have hj: "head_of E j \<noteq> ?h" using head_inj [OF j(1) i] j(2) by auto
    have "seg ?m' (head_of E j) (fl j) (head_of E j) = seg ?m (head_of E j) (fl j) (head_of E j)"
    proof (rule seg_frame)
      fix y assume y: "y \<in> set (head_of E j # fl j)"
      then show "?m' (nx y) = ?m (nx y)"
        using D(1,4) [OF j(1)] new j(1) hj b(2) head_is_head [OF j(1), of E] head_is_head [OF i, of E]
        by (intro old_nx) (auto dest: D(5) [OF j(1)])
    next
      fix y assume y: "y \<in> set (fl j)"
      then have "y \<noteq> ?f" using f2 D(5) [OF j(1) y] D(6) [OF j(1) y i] j(2) head_is_head [OF i] by auto
      then show "?m' (pv y) = ?m (pv y)" using D(4) [OF j(1) y] new j(1) y by (intro old_pv) auto
    qed
    then show ?thesis using D(2) [OF j(1)] by simp
  qed
  have "free_lists E (s\<lparr>mem := ?m'\<rparr>) (fl(i := b # fl i))"
  proof (rule free_listsI)
    fix j assume j: "j < NUM_FREE_LISTS"
    let ?fl = "fl(i := b # fl i)"
    show "blk E (s\<lparr>mem := ?m'\<rparr>) (head_of E j)" using D(1) [OF j] by simp
    show "seg (mem (s\<lparr>mem := ?m'\<rparr>)) (head_of E j) (?fl j) (head_of E j)"
      using seg_i seg_j [OF j] by (cases "j = i") (simp_all del: fun_upd_apply add: fun_upd_def [of fl])
    show "distinct (?fl j)" using D(3) [OF j] D(3) [OF i] new i by (cases "j = i") auto
    fix x assume x: "x \<in> set (?fl j)"
    show "blk E (s\<lparr>mem := ?m'\<rparr>) x" "\<not> is_head E x"
      using x b D(4,5) [OF j] D(4,5) [OF i] by (auto split: if_splits)
    show "x \<notin> set (?fl k)" if "k < NUM_FREE_LISTS" "k \<noteq> j" for k
      using x that new j D(6) [OF j _ that] D(6) [OF i _ that(1)] D(6) [OF j] i by (auto split: if_splits)
  qed
  moreover have "?m' a = ?m a"
    if "\<forall>x. is_head E x \<or> x = b \<or> x \<in> set (fl i) \<longrightarrow> a \<noteq> nx x \<and> a \<noteq> pv x" for a
  proof -
    have "is_head E ?f \<or> ?f = b \<or> ?f \<in> set (fl i)" using f2 head_is_head [OF i, of E] by auto
    then have "a \<noteq> pv ?f" "a \<noteq> nx b" "a \<noteq> pv b" "a \<noteq> nx ?h"
      using that [rule_format, of ?f] that [rule_format, of b] that [rule_format, of ?h]
        head_is_head [OF i, of E] by simp_all
    then show ?thesis by simp
  qed
  ultimately show ?thesis using run by blast
qed


text \<open>Unlinking.\<close>

lemma walk_miss:
  "seg (mem s) p xs h \<Longrightarrow> \<forall>x \<in> set (p # xs). valid_addr E s (nx x) \<Longrightarrow> h \<notin> set xs \<Longrightarrow> b \<notin> set xs \<Longrightarrow>
   length xs < n \<Longrightarrow> remove_walk n E h p b s = Inr (False, s)"
proof (induction xs arbitrary: p n)
  case Nil
  then obtain k where "n = Suc k" by (cases n) auto
  then show ?case using Nil by (simp add: get_next_def bnd_rd nx_def)
next
  case (Cons x xs)
  then obtain k where n: "n = Suc k" by (cases n) auto
  have "remove_walk k E h x b s = Inr (False, s)" using Cons n by (intro Cons.IH) auto
  then show ?case using Cons.prems n by (auto simp: get_next_def bnd_rd nx_def)
qed

lemma walk_hit:
  assumes "seg (mem s) p (ys @ b # zs) h" and "\<forall>x \<in> set (p # ys @ b # zs). valid_addr E s (nx x) \<and> valid_addr E s (pv x)"
    and "h \<notin> set (ys @ b # zs)" and "b \<notin> set ys" and "b \<notin> set zs" and "length ys < n"
    and "valid_addr E s (pv h)"
  shows "remove_walk n E h p b s = Inr (True, s\<lparr>mem := (mem s)
     (pv (hd (zs @ [h])) := last (p # ys), nx (last (p # ys)) := hd (zs @ [h]))\<rparr>)"
  using assms
proof (induction ys arbitrary: p n)
  case Nil
  let ?t = "hd (zs @ [h])"
  from Nil obtain k where n: "n = Suc k" by (cases n) auto
  have m: "mem s (nx p) = b" "mem s (pv b) = p" using Nil.prems(1) by simp_all
  have m3: "mem s (nx b) = ?t" using Nil.prems(1) by (cases zs) simp_all
  have bh: "b \<noteq> h" using Nil.prems(3) by auto
  have "?t \<in> set zs \<or> ?t = h" by (cases zs) simp_all
  then have t: "?t \<noteq> b" "valid_addr E s (pv ?t)" using Nil.prems(2,5,7) bh by auto
  have v: "valid_addr E s (nx p)" "valid_addr E s (nx b)" "valid_addr E s (pv b)"
    using Nil.prems(2) by simp_all
  have f: "get_next E x = rd E (nx x)" "get_prev E x = rd E (pv x)" "set_next E x = wr E (nx x)"
    "set_prev E x = wr E (pv x)" for x
    by (simp_all add: sf_fields nx_def pv_def)
  have u: "((mem s)(pv ?t := p)) (pv b) = p" using t(1) m(2) by simp
  show ?case unfolding n
    by (simp add: f bnd_rd sq_wr m m3 v t u bh del: fun_upd_apply)
next
  case (Cons y ys)
  from Cons.prems obtain k where n: "n = Suc k" by (cases n) auto
  have "remove_walk k E h y b s = Inr (True, s\<lparr>mem := (mem s)
     (pv (hd (zs @ [h])) := last (y # ys), nx (last (y # ys)) := hd (zs @ [h]))\<rparr>)"
    using Cons.prems n by (intro Cons.IH) auto
  moreover have "y \<noteq> h" "y \<noteq> b" "mem s (nx p) = y" "valid_addr E s (nx p)" using Cons.prems by auto
  moreover have "get_next E p = rd E (nx p)" by (simp add: get_next_def nx_def)
  moreover have "last (p # y # ys) = last (y # ys)" by simp
  ultimately show ?case unfolding n
    by (simp only: remove_walk.simps bnd_rd append_Cons if_False)
qed

lemma unlink_seg:
  assumes s: "seg m h (ys @ b # zs) h" and d: "distinct (h # ys @ b # zs)"
    and np: "\<And>x y. x \<in> set (h # ys @ b # zs) \<Longrightarrow> y \<in> set (h # ys @ b # zs) \<Longrightarrow> nx x \<noteq> pv y"
  shows "seg (m(pv (hd (zs @ [h])) := last (h # ys), nx (last (h # ys)) := hd (zs @ [h]))) h (ys @ zs) h"
proof -
  let ?L = "last (h # ys)" and ?t = "hd (zs @ [h])"
  let ?m1 = "m(nx ?L := ?t)"
  let ?m2 = "m(pv ?t := ?L, nx ?L := ?t)"
  have s3: "seg m h ys b" "m (pv b) = ?L" "seg m b zs h" using s by (simp_all add: seg_app)
  have L: "?L \<in> set (h # ys)" by (rule last_in_set) simp
  have t: "?t \<in> set (h # zs)" by (cases zs) auto
  have r: "seg ?m1 h ys ?t" using d np by (intro seg_redirect [OF s3(1)]) auto
  have "seg ?m2 h ys ?t = seg ?m1 h ys ?t"
  proof (rule seg_frame)
    fix x assume "x \<in> set (h # ys)"
    then have "nx x \<noteq> pv ?t" using np [of x ?t] t by auto
    then show "?m2 (nx x) = ?m1 (nx x)" by simp
  next
    fix x assume x: "x \<in> set ys"
    then have "x \<noteq> ?t" using t d by auto
    then show "?m2 (pv x) = ?m1 (pv x)" by simp
  qed
  with r have r2: "seg ?m2 h ys ?t" by simp
  show ?thesis
  proof (cases zs)
    case Nil
    then show ?thesis using r2 by simp
  next
    case (Cons z zs')
    have nL: "nx ?L \<noteq> pv z" using np [of ?L z] L Cons by auto
    have "seg m z zs' h" using s3(3) Cons by simp
    moreover have "seg ?m2 z zs' h = seg m z zs' h"
    proof (rule seg_frame)
      fix x assume x: "x \<in> set (z # zs')"
      then have "x \<noteq> ?L" using L d Cons by auto
      moreover have "nx x \<noteq> pv ?t" using np [of x ?t] t x Cons by auto
      ultimately show "?m2 (nx x) = m (nx x)" by simp
    next
      fix x assume x: "x \<in> set zs'"
      then have "x \<noteq> ?t" using d Cons by auto
      moreover have "nx ?L \<noteq> pv x" using np [of ?L x] L x Cons by auto
      ultimately show "?m2 (pv x) = m (pv x)" using not_sym by simp
    qed
    moreover have "?m2 (pv z) = ?L" using nL not_sym Cons by simp
    ultimately show ?thesis using r2 Cons by (simp add: seg_app del: fun_upd_apply)
  qed
qed


text \<open>Removing a block from whichever list holds it; \<open>steps\<close> exceeds the length of every list.\<close>

lemma remove_lists_skip:
  assumes fl: "free_lists E s fl" and "\<forall>i \<in> set is. i < NUM_FREE_LISTS \<and> b \<notin> set (fl i) \<and> length (fl i) < steps E"
  shows "remove_lists E b (is @ js) s = remove_lists E b js s"
  using assms(2)
proof (induction "is")
  case (Cons i "is")
  then have i: "i < NUM_FREE_LISTS" "b \<notin> set (fl i)" "length (fl i) < steps E" by simp_all
  note D = free_listsD [OF fl i(1)]
  have "\<forall>x \<in> set (head_of E i # fl i). valid_addr E s (nx x)" using D(1,4) by (auto simp: blk_def)
  moreover have "head_of E i \<notin> set (fl i)" using D(5) head_is_head [OF i(1), of E] by blast
  ultimately have "remove_walk (steps E) E (head_of E i) (head_of E i) b s = Inr (False, s)"
    using walk_miss [OF D(2)] i(2,3) by blast
  then show ?case using Cons by (simp add: bnd_def)
qed simp

lemma unlink_spec:
  assumes fl: "free_lists E s fl" and i: "i < NUM_FREE_LISTS" and yz: "fl i = ys @ b # zs"
    and p: "p = last (head_of E i # ys)" and t: "t = hd (zs @ [head_of E i])"
  shows "free_lists E (s\<lparr>mem := (mem s)(pv t := p, nx p := t)\<rparr>) (fl(i := remove1 b (fl i)))"
    and "mem s (pv b) = p" and "mem s (nx b) = t"
    and "p \<in> set (head_of E i # fl i)" and "t \<in> set (head_of E i # fl i)" and "p \<noteq> b" and "t \<noteq> b"
proof -
  let ?h = "head_of E i" and ?m = "mem s"
  note D = free_listsD [OF fl]
  have rem: "remove1 b (fl i) = ys @ zs"
    using D(3) [OF i] yz by (simp add: remove1_append)
  let ?m' = "?m(pv t := p, nx p := t)"
  have hn: "?h \<notin> set (fl i)" using D(5) [OF i] head_is_head [OF i, of E] by blast
  have L: "p \<in> set (?h # ys)" unfolding p by (rule last_in_set) simp
  have T: "t \<in> set (?h # zs)" unfolding t by (cases zs) auto
  have blks: "\<forall>x \<in> set (?h # fl i). blk E s x" using D(1,4) [OF i] by auto
  have np: "nx x \<noteq> pv y" if "blk E s x" "blk E s y" for x y
    using nx_pv [OF blk_mod blk_mod] that by blast
  have LT: "p \<in> set (?h # fl i)" "t \<in> set (?h # fl i)" using L T yz by auto
  then show "p \<in> set (?h # fl i)" "t \<in> set (?h # fl i)" .
  show "p \<noteq> b" "t \<noteq> b" using L T D(3) [OF i] hn yz by auto
  show "mem s (pv b) = p" using D(2) [OF i] yz by (simp add: seg_app p)
  have "seg ?m b zs ?h" using D(2) [OF i] yz by (simp add: seg_app)
  then show "mem s (nx b) = t" by (cases zs) (simp_all add: t)
  have seg_i: "seg ?m' ?h (ys @ zs) ?h"
    unfolding p t
  proof (rule unlink_seg)
    show "seg ?m ?h (ys @ b # zs) ?h" using D(2) [OF i] yz by simp
    show "distinct (?h # ys @ b # zs)" using D(3) [OF i] hn yz by simp
    show "nx x \<noteq> pv y" if "x \<in> set (?h # ys @ b # zs)" "y \<in> set (?h # ys @ b # zs)" for x y
      using np blks that yz by auto
  qed
  have seg_j: "seg ?m' (head_of E j) (fl j) (head_of E j)" if j: "j < NUM_FREE_LISTS" "j \<noteq> i" for j
  proof -
    have hj: "head_of E j \<noteq> ?h" using head_inj [OF j(1) i] j(2) by auto
    have out: "x \<noteq> p \<and> x \<noteq> t" if "x \<in> set (fl j)" for x
    proof -
      have "x \<notin> set (fl i)" "x \<noteq> ?h"
        using D(6) [OF j(1) that i] j(2) D(5) [OF j(1) that] head_is_head [OF i, of E] by auto
      then show ?thesis using LT by auto
    qed
    have hout: "head_of E j \<noteq> p \<and> head_of E j \<noteq> t"
      using LT hj D(5) [OF i] head_is_head [OF j(1), of E] by auto
    have bj: "\<forall>x \<in> set (head_of E j # fl j). blk E s x" using D(1,4) [OF j(1)] by auto
    have "seg ?m' (head_of E j) (fl j) (head_of E j) = seg ?m (head_of E j) (fl j) (head_of E j)"
    proof (rule seg_frame)
      fix y assume y: "y \<in> set (head_of E j # fl j)"
      then have "y = head_of E j \<or> y \<in> set (fl j)" by simp
      then have "y \<noteq> p"
      proof
        assume "y = head_of E j"
        then show ?thesis using hout by (simp only: simp_thms)
      next
        assume "y \<in> set (fl j)"
        from out [OF this] show ?thesis by (rule conjunct1)
      qed
      moreover have "nx y \<noteq> pv t" using np bj blks y LT(2) by blast
      ultimately show "?m' (nx y) = ?m (nx y)" by simp
    next
      fix y assume y: "y \<in> set (fl j)"
      then have "y \<noteq> t" using out [of y] by blast
      moreover have "pv y \<noteq> nx p" using np [of p y] bj blks y LT(1) by (metis list.set_intros(2))
      ultimately show "?m' (pv y) = ?m (pv y)" by simp
    qed
    then show ?thesis using D(2) [OF j(1)] by simp
  qed
  show "free_lists E (s\<lparr>mem := ?m'\<rparr>) (fl(i := remove1 b (fl i)))"
  proof (rule free_listsI)
    fix j assume j: "j < NUM_FREE_LISTS"
    let ?fl = "fl(i := remove1 b (fl i))"
    have sub: "set (?fl k) \<subseteq> set (fl k)" for k using set_remove1_subset [of b "fl i"] by auto
    show "blk E (s\<lparr>mem := ?m'\<rparr>) (head_of E j)" using D(1) [OF j] by simp
    show "seg (mem (s\<lparr>mem := ?m'\<rparr>)) (head_of E j) (?fl j) (head_of E j)"
      using seg_i seg_j [OF j] rem by (cases "j = i") (simp_all del: fun_upd_apply add: fun_upd_def [of fl])
    show "distinct (?fl j)" using D(3) [OF j] by (cases "j = i") (auto simp: distinct_remove1)
    fix x assume x: "x \<in> set (?fl j)"
    then have x': "x \<in> set (fl j)" using sub by blast
    then show "blk E (s\<lparr>mem := ?m'\<rparr>) x" "\<not> is_head E x" using D(4,5) [OF j] by auto
    show "x \<notin> set (?fl k)" if "k < NUM_FREE_LISTS" "k \<noteq> j" for k
      using D(6) [OF j x' that] sub by blast
  qed
qed

lemma remove_spec:
  assumes fl: "free_lists E s fl" and i: "i < NUM_FREE_LISTS" and b: "b \<in> set (fl i)"
    and len: "\<forall>j < NUM_FREE_LISTS. length (fl j) < steps E"
  shows "\<exists>s'. sf_remove_from_free_list E b s = Inr ((), s') \<and> free_lists E s' (fl(i := remove1 b (fl i)))
    \<and> (\<exists>m. s' = s\<lparr>mem := m\<rparr> \<and> (\<forall>a. (\<forall>x. x = head_of E i \<or> x \<in> set (fl i) \<longrightarrow> a \<noteq> nx x \<and> a \<noteq> pv x)
          \<longrightarrow> m a = mem s a))"
proof -
  let ?h = "head_of E i"
  note D = free_listsD [OF fl]
  obtain ys zs where yz: "fl i = ys @ b # zs" using b by (meson split_list)
  let ?p = "last (?h # ys)" and ?t = "hd (zs @ [?h])"
  note U = unlink_spec [OF fl i yz refl refl]
  let ?m' = "(mem s)(pv ?t := ?p, nx ?p := ?t)"
  have hn: "?h \<notin> set (fl i)" using D(5) [OF i] head_is_head [OF i, of E] by blast
  have blks: "\<forall>x \<in> set (?h # fl i). blk E s x" using D(1,4) [OF i] by auto
  have walk: "remove_walk (steps E) E ?h ?h b s = Inr (True, s\<lparr>mem := ?m'\<rparr>)"
    using walk_hit [of s ?h ys b zs ?h E "steps E"] D(2,3) [OF i] yz hn len [rule_format, OF i] blks
    by (auto simp: blk_def)
  have "[0..<NUM_FREE_LISTS] = [0..<i] @ i # [Suc i..<NUM_FREE_LISTS]"
    using i by (metis less_imp_le_nat upt_add_eq_append upt_conv_Cons le_add_diff_inverse zero_le)
  moreover have "\<forall>j \<in> set [0..<i]. j < NUM_FREE_LISTS \<and> b \<notin> set (fl j) \<and> length (fl j) < steps E"
    using D(6) [OF i b] len i by auto
  ultimately have run: "sf_remove_from_free_list E b s = Inr ((), s\<lparr>mem := ?m'\<rparr>)"
    using remove_lists_skip [OF fl] walk by (simp add: sf_remove_from_free_list_def bnd_def)
  have "?m' a = mem s a" if "\<forall>x. x = ?h \<or> x \<in> set (fl i) \<longrightarrow> a \<noteq> nx x \<and> a \<noteq> pv x" for a
    using that U(4,5) by auto
  then show ?thesis using run U(1) by blast
qed


lemma find_None_conv: "find p xs = None \<longleftrightarrow> (\<forall>x \<in> set xs. \<not> p x)"
  by (induction xs) auto

lemma fit_walk_find:
  "seg (mem s) p xs h \<Longrightarrow> \<forall>x \<in> set (p # xs). valid_addr E s (nx x) \<Longrightarrow>
   \<forall>x \<in> set xs. valid_addr E s (x + 8) \<Longrightarrow> h \<notin> set xs \<Longrightarrow> length xs < n \<Longrightarrow>
   fit_walk n E h p bs s = Inr (map_option (\<lambda>x. (x, strip_flags (unmagic E (mem s (x + 8)))))
     (find (\<lambda>x. bs \<le> strip_flags (unmagic E (mem s (x + 8)))) xs), s)"
proof (induction xs arbitrary: p n)
  case Nil
  then obtain k where "n = Suc k" by (cases n) auto
  then show ?case using Nil by (simp add: get_next_def bnd_rd nx_def)
next
  case (Cons x xs)
  then obtain k where n: "n = Suc k" by (cases n) auto
  have "fit_walk k E h x bs s = Inr (map_option (\<lambda>x. (x, strip_flags (unmagic E (mem s (x + 8)))))
     (find (\<lambda>x. bs \<le> strip_flags (unmagic E (mem s (x + 8)))) xs), s)"
    using Cons.prems n by (intro Cons.IH) auto
  moreover have "x \<noteq> h" "mem s (nx p) = x" "valid_addr E s (nx p)" "valid_addr E s (x + 8)"
    using Cons.prems by auto
  moreover have "get_next E p = rd E (nx p)" by (simp add: get_next_def nx_def)
  ultimately show ?case unfolding n
    by (simp add: bnd_rd get_header_def Let_def)
qed

lemma find_app: "find p (xs @ ys) = (case find p xs of None \<Rightarrow> find p ys | Some x \<Rightarrow> Some x)"
  by (induction xs) auto

lemma fit_lists_find:
  assumes fl: "free_lists E s fl"
    and "\<forall>i \<in> set is. i < NUM_FREE_LISTS \<and> length (fl i) < steps E \<and> (\<forall>x \<in> set (fl i). valid_addr E s (x + 8))"
  shows "fit_lists E is bs s = Inr (map_option (\<lambda>x. (x, strip_flags (unmagic E (mem s (x + 8)))))
     (find (\<lambda>x. bs \<le> strip_flags (unmagic E (mem s (x + 8)))) (concat (map fl is))), s)"
  using assms(2)
proof (induction "is")
  case (Cons i "is")
  then have i: "i < NUM_FREE_LISTS" "length (fl i) < steps E" "\<forall>x \<in> set (fl i). valid_addr E s (x + 8)"
    by simp_all
  note D = free_listsD [OF fl i(1)]
  let ?p = "\<lambda>x. bs \<le> strip_flags (unmagic E (mem s (x + 8)))"
  have "\<forall>x \<in> set (head_of E i # fl i). valid_addr E s (nx x)" using D(1,4) by (auto simp: blk_def)
  moreover have "head_of E i \<notin> set (fl i)" using D(5) head_is_head [OF i(1), of E] by blast
  ultimately have w: "fit_walk (steps E) E (head_of E i) (head_of E i) bs s
      = Inr (map_option (\<lambda>x. (x, strip_flags (unmagic E (mem s (x + 8))))) (find ?p (fl i)), s)"
    using fit_walk_find [OF D(2)] i(2,3) by blast
  have app: "find ?p (fl i @ ys) = (case find ?p (fl i) of None \<Rightarrow> find ?p ys | Some x \<Rightarrow> Some x)" for ys
    by (rule find_app)
  show ?case using Cons w by (cases "find ?p (fl i)") (simp_all add: bnd_def app)
qed simp

subsection \<open>Properties\<close>

text \<open>
  The block for a request: whatever the size (up to 64 bytes below the end of the address space)
  the two rounding loops end, and the result is the least multiple of 16 that is at least 32 and
  holds the request with its 8-byte header.
\<close>

theorem malloc_block_size:
  assumes "unat req + 64 < 2 ^ 64"
  shows "\<exists>b. block_size req = Inr b \<and> unat b mod 16 = 0 \<and> 32 \<le> unat b \<and> unat req + 8 \<le> unat b
    \<and> (\<forall>m. m mod 16 = 0 \<and> 32 \<le> m \<and> unat req + 8 \<le> m \<longrightarrow> unat b \<le> m)"
  using block_size_least [OF assms] by (auto simp: fits_def)

theorem malloc_block_size_witness:
  "unat (40 :: 64 word) + 64 < 2 ^ 64 \<and> (\<exists>b. block_size 40 = Inr b \<and> unat b = 48)"
proof -
  have l: "unat (40 :: 64 word) + 64 < 2 ^ 64" by simp
  from malloc_block_size [OF l] obtain b where b: "block_size 40 = Inr b" "unat b mod 16 = 0" "32 \<le> unat b"
    "unat (40 :: 64 word) + 8 \<le> unat b"
    "\<forall>m. m mod 16 = 0 \<and> 32 \<le> m \<and> unat (40 :: 64 word) + 8 \<le> m \<longrightarrow> unat b \<le> m"
    by (elim exE conjE) (rule that)
  have "unat b \<le> 48" using b(5) [rule_format, of 48] by simp
  with b(4) have "unat b = 48" by simp
  with b(1) l show ?thesis by blast
qed

text \<open>
  Searching for a block: with well-formed free lists the search ends, changes nothing and finds the
  first block, in the order of the lists and within a list from its head, whose size without the
  flags is at least the size asked for; it finds none only if every free block is smaller.
\<close>

theorem first_fit:
  assumes "free_lists E s fl" and "\<forall>i < NUM_FREE_LISTS. length (fl i) < steps E"
    and "\<forall>i < NUM_FREE_LISTS. \<forall>x \<in> set (fl i). valid_addr E s (x + 8)"
  shows "fit_lists E [0..<NUM_FREE_LISTS] bs s
    = Inr (map_option (\<lambda>x. (x, strip_flags (unmagic E (mem s (x + 8)))))
        (find (\<lambda>x. bs \<le> strip_flags (unmagic E (mem s (x + 8)))) (concat (map fl [0..<NUM_FREE_LISTS]))), s)"
  by (rule fit_lists_find [OF assms(1)]) (use assms(2,3) in auto)


text \<open>A heap of one free page: list 7 holds the block, the other lists are empty.\<close>

definition demo_fs :: sfmm where
  "demo_fs = \<lparr>mem = (\<lambda>a. if a = 0x10F0 then 0x10000 else if a = 0x10008 then 4080 XOR 0xDEADBEEF12345678
       else if a = 0x10010 \<or> a = 0x10018 then 0x10E0
       else if 0x1000 \<le> a \<and> a < 0x1140 then (a div 32) * 32 else 0),
     mem_end = 0x11000, quick = replicate NUM_QUICK_LISTS \<lparr>ql_length = 0, ql_first = 0\<rparr>,
     globalEnd = 0x10000, sf_errno = 0\<rparr>"

definition demo_fl :: "nat \<Rightarrow> addr list" where
  "demo_fl i = (if i = 7 then [0x10000] else [])"

lemma demo_head: "i < NUM_FREE_LISTS \<Longrightarrow> head_of demo_E i \<in>
    {0x1000, 0x1020, 0x1040, 0x1060, 0x1080, 0x10A0, 0x10C0, 0x10E0, 0x1100, 0x1120}"
  using below_10 [of i] by (auto simp: NUM_FREE_LISTS_def NUM_QUICK_LISTS_def head_of_def demo_E_def)

lemma demo_heap: "free_lists demo_E demo_fs demo_fl"
proof (rule free_listsI)
  fix i assume i: "i < NUM_FREE_LISTS"
  show "blk demo_E demo_fs (head_of demo_E i)"
    using demo_head [OF i]
    by (auto simp: blk_def nx_def pv_def valid_addr_def demo_E_def demo_fs_def)
  show "seg (mem demo_fs) (head_of demo_E i) (demo_fl i) (head_of demo_E i)"
    using below_10 [of i] i
    by (auto simp: NUM_FREE_LISTS_def NUM_QUICK_LISTS_def head_of_def demo_E_def demo_fs_def demo_fl_def nx_def pv_def)
  fix x assume x: "x \<in> set (demo_fl i)"
  then have e: "x = 0x10000" "i = 7" by (auto simp: demo_fl_def split: if_splits)
  show "blk demo_E demo_fs x"
    by (simp add: e blk_def nx_def pv_def valid_addr_def demo_E_def demo_fs_def)
  show "\<not> is_head demo_E x" using demo_head by (force simp: is_head_def e)
  show "x \<notin> set (demo_fl k)" if "k \<noteq> i" for k using that e by (simp add: demo_fl_def)
qed (simp add: demo_fl_def)

theorem first_fit_witness:
  "fit_lists demo_E [0..<NUM_FREE_LISTS] 64 demo_fs = Inr (Some (0x10000, 4080), demo_fs)
   \<and> fit_lists demo_E [0..<NUM_FREE_LISTS] 4096 demo_fs = Inr (None, demo_fs)"
proof -
  have l: "\<forall>i < NUM_FREE_LISTS. length (demo_fl i) < steps demo_E" by (simp add: demo_fl_def demo_E_def)
  have v: "\<forall>i < NUM_FREE_LISTS. \<forall>x \<in> set (demo_fl i). valid_addr demo_E demo_fs (x + 8)"
    by (simp add: demo_fl_def valid_addr_def demo_E_def demo_fs_def)
  have c: "concat (map demo_fl [0..<NUM_FREE_LISTS]) = [0x10000]"
    by (simp add: demo_fl_def NUM_FREE_LISTS_def upt_rec)
  have z: "strip_flags (unmagic demo_E (mem demo_fs (0x10000 + 8))) = 4080"
    by (simp add: strip_flags_def unmagic_def demo_E_def demo_fs_def sf_consts)
  from first_fit [OF demo_heap l v, of 64] first_fit [OF demo_heap l v, of 4096] c z show ?thesis by simp
qed

lemma put_size_class:
  "\<exists>k < NUM_FREE_LISTS. sf_put_in_free_list E b z = sf_put_in_free_list_helper E b k
     \<and> (k < 9 \<longrightarrow> unat z \<le> 32 * 2 ^ k) \<and> (0 < k \<longrightarrow> 32 * 2 ^ (k - 1) < unat z)"
proof -
  note d = sf_put_in_free_list_def NUM_FREE_LISTS_def word_le_nat_alt
  consider "unat z \<le> 32"
    | "32 < unat z" "unat z \<le> 64"
    | "64 < unat z" "unat z \<le> 128"
    | "128 < unat z" "unat z \<le> 256"
    | "256 < unat z" "unat z \<le> 512"
    | "512 < unat z" "unat z \<le> 1024"
    | "1024 < unat z" "unat z \<le> 2048"
    | "2048 < unat z" "unat z \<le> 4096"
    | "4096 < unat z" "unat z \<le> 8192"
    | "8192 < unat z" by linarith
  then show ?thesis
  proof cases
    case 1
    then show ?thesis by (intro exI [of _ "0 :: nat"]) (simp add: d)
  next
    case 2
    then show ?thesis by (intro exI [of _ "1 :: nat"]) (simp add: d)
  next
    case 3
    then show ?thesis by (intro exI [of _ "2 :: nat"]) (simp add: d)
  next
    case 4
    then show ?thesis by (intro exI [of _ "3 :: nat"]) (simp add: d)
  next
    case 5
    then show ?thesis by (intro exI [of _ "4 :: nat"]) (simp add: d)
  next
    case 6
    then show ?thesis by (intro exI [of _ "5 :: nat"]) (simp add: d)
  next
    case 7
    then show ?thesis by (intro exI [of _ "6 :: nat"]) (simp add: d)
  next
    case 8
    then show ?thesis by (intro exI [of _ "7 :: nat"]) (simp add: d)
  next
    case 9
    then show ?thesis by (intro exI [of _ "8 :: nat"]) (simp add: d)
  next
    case 10
    then show ?thesis by (intro exI [of _ "9 :: nat"]) (simp add: d)
  qed
qed

text \<open>
  Inserting a free block: \<open>sf_put_in_free_list\<close> puts it at the front of the list of its size class
  (sizes in \<open>(32 2^(k-1), 32 2^k]\<close>, the last class being unbounded), keeps the lists well formed and the other
  lists as they are, and writes only link fields of the block, the heads and that list.
\<close>

theorem free_list_insert:
  assumes "free_lists E s fl" and "blk E s b" and "\<not> is_head E b"
    and "\<forall>j < NUM_FREE_LISTS. b \<notin> set (fl j)"
  shows "\<exists>k s' m. k < NUM_FREE_LISTS \<and> (k < 9 \<longrightarrow> unat z \<le> 32 * 2 ^ k) \<and> (0 < k \<longrightarrow> 32 * 2 ^ (k - 1) < unat z)
    \<and> sf_put_in_free_list E b z s = Inr ((), s') \<and> free_lists E s' (fl(k := b # fl k))
    \<and> s' = s\<lparr>mem := m\<rparr>
    \<and> (\<forall>a. (\<forall>x. is_head E x \<or> x = b \<or> x \<in> set (fl k) \<longrightarrow> a \<noteq> nx x \<and> a \<noteq> pv x) \<longrightarrow> m a = mem s a)"
  using put_size_class [of E b z] put_helper_spec [OF assms(1) _ assms(2,3,4)] by metis

theorem free_list_insert_witness:
  "\<exists>s'. sf_put_in_free_list demo_E 0x10200 64 demo_fs = Inr ((), s')
     \<and> free_lists demo_E s' (demo_fl(1 := [0x10200]))"
proof -
  have b: "blk demo_E demo_fs 0x10200"
    by (simp add: blk_def nx_def pv_def valid_addr_def demo_E_def demo_fs_def)
  have h: "\<not> is_head demo_E 0x10200" using demo_head by (force simp: is_head_def)
  have n: "\<forall>j < NUM_FREE_LISTS. 0x10200 \<notin> set (demo_fl j)" by (simp add: demo_fl_def)
  from free_list_insert [OF demo_heap b h n, of 64] obtain k s' where
    k: "k < NUM_FREE_LISTS" "k < 9 \<longrightarrow> (64 :: nat) \<le> 32 * 2 ^ k" "0 < k \<longrightarrow> 32 * 2 ^ (k - 1) < (64 :: nat)"
    and s: "sf_put_in_free_list demo_E 0x10200 64 demo_fs = Inr ((), s')"
      "free_lists demo_E s' (demo_fl(k := 0x10200 # demo_fl k))" by auto
  have "k = 1" using k below_10 [of k] by (auto simp: NUM_FREE_LISTS_def NUM_QUICK_LISTS_def)
  with s show ?thesis by (auto simp: demo_fl_def)
qed

text \<open>
  Removing a free block: \<open>sf_remove_from_free_list\<close> finds the list that holds the block and takes it
  out, the other blocks keeping their order and the other lists their contents; only links of that
  list are written, and removing what was just inserted gives the lists back.
\<close>

theorem free_list_remove:
  assumes "free_lists E s fl" and "i < NUM_FREE_LISTS" and "b \<in> set (fl i)"
    and "\<forall>j < NUM_FREE_LISTS. length (fl j) < steps E"
  shows "\<exists>s' m. sf_remove_from_free_list E b s = Inr ((), s') \<and> free_lists E s' (fl(i := remove1 b (fl i)))
    \<and> s' = s\<lparr>mem := m\<rparr>
    \<and> (\<forall>a. (\<forall>x. x = head_of E i \<or> x \<in> set (fl i) \<longrightarrow> a \<noteq> nx x \<and> a \<noteq> pv x) \<longrightarrow> m a = mem s a)"
  using remove_spec [OF assms] by metis

theorem free_list_remove_witness:
  "\<exists>s'. sf_remove_from_free_list demo_E 0x10000 demo_fs = Inr ((), s') \<and> free_lists demo_E s' (\<lambda>_. [])"
proof -
  have i: "7 < NUM_FREE_LISTS" by (simp add: NUM_FREE_LISTS_def)
  have b: "0x10000 \<in> set (demo_fl 7)" by (simp add: demo_fl_def)
  have l: "\<forall>i < NUM_FREE_LISTS. length (demo_fl i) < steps demo_E" by (simp add: demo_fl_def demo_E_def)
  have "demo_fl(7 := remove1 0x10000 (demo_fl 7)) = (\<lambda>_. [])" by (auto simp: demo_fl_def)
  with free_list_remove [OF demo_heap i b l] show ?thesis by auto
qed



end
