(* ===== verification/Audio.thy ===== *)
theory Audio
  imports Interfaces
begin

unbundle bit_operations_syntax

section \<open>Sun audio files (hw1/src/audio.c)\<close>

text \<open>
  A \<open>FILE *\<close> open for reading is the list of bytes still to come, one open for writing the list of
  bytes written. \<open>fgetc\<close> returns -1 at the end, as often as it is called.
\<close>

definition EOF :: int where "EOF = -1"

definition fgetc :: "byte list \<Rightarrow> int \<times> byte list" where
  "fgetc s = (case s of [] \<Rightarrow> (EOF, []) | b # s' \<Rightarrow> (uint b, s'))"

record audio_header =
  magic_number :: "32 word"
  data_offset :: "32 word"
  data_size :: "32 word"
  encoding :: "32 word"
  sample_rate :: "32 word"
  channels :: "32 word"

definition AUDIO_MAGIC :: "32 word" where "AUDIO_MAGIC = 0x2e736e64"
definition PCM16_ENCODING :: "32 word" where "PCM16_ENCODING = 3"
definition AUDIO_FRAME_RATE :: "32 word" where "AUDIO_FRAME_RATE = 8000"
definition AUDIO_CHANNELS :: "32 word" where "AUDIO_CHANNELS = 1"
definition AUDIO_DATA_OFFSET :: "32 word" where "AUDIO_DATA_OFFSET = 24"

lemmas audio_consts = AUDIO_MAGIC_def PCM16_ENCODING_def AUDIO_FRAME_RATE_def AUDIO_CHANNELS_def
  AUDIO_DATA_OFFSET_def

subsection \<open>Operations\<close>

definition traverse_audio_file_header :: "byte list \<Rightarrow> 32 word \<times> byte list" where
  "traverse_audio_file_header s0 =
     (let (c1, s1) = fgetc s0; full1 = push_bit 8 (0 XOR word_of_int c1);
          (c2, s2) = fgetc s1; full2 = push_bit 8 (full1 XOR word_of_int c2);
          (c3, s3) = fgetc s2; full3 = push_bit 8 (full2 XOR word_of_int c3);
          (c4, s4) = fgetc s3
      in (full3 XOR word_of_int c4, s4))"

definition check_audio_header :: "audio_header \<Rightarrow> bool" where
  "check_audio_header h =
     (if magic_number h \<noteq> AUDIO_MAGIC then False
      else if data_offset h < AUDIO_DATA_OFFSET then False
      else if encoding h \<noteq> PCM16_ENCODING then False
      else if sample_rate h \<noteq> AUDIO_FRAME_RATE then False
      else if channels h \<noteq> AUDIO_CHANNELS then False
      else True)"

fun skip_bytes :: "nat \<Rightarrow> byte list \<Rightarrow> byte list" where
  "skip_bytes 0 s = s"
| "skip_bytes (Suc n) s = skip_bytes n (snd (fgetc s))"

text \<open>The result, the header as it was filled in, and the stream after the call.\<close>

definition audio_read_header :: "byte list option \<Rightarrow> audio_header \<Rightarrow> int \<times> audio_header \<times> byte list" where
  "audio_read_header inp hp = (case inp of
     None \<Rightarrow> (EOF, hp, [])
   | Some s0 \<Rightarrow>
       let (v1, s1) = traverse_audio_file_header s0;
           (v2, s2) = traverse_audio_file_header s1;
           (v3, s3) = traverse_audio_file_header s2;
           (v4, s4) = traverse_audio_file_header s3;
           (v5, s5) = traverse_audio_file_header s4;
           (v6, s6) = traverse_audio_file_header s5;
           h = \<lparr>magic_number = v1, data_offset = v2, data_size = v3, encoding = v4,
                sample_rate = v5, channels = v6\<rparr>
       in if \<not> check_audio_header h then (EOF, h, s6)
          else
            let headerOffset = sint (data_offset h - 24)
            in (0, h, skip_bytes (nat headerOffset) s6))"

text \<open>\<open>count\<close> runs from 3 down to 0; here it is one more.\<close>

fun helper_write_loop :: "nat \<Rightarrow> 32 word \<Rightarrow> byte list" where
  "helper_write_loop 0 v = []"
| "helper_write_loop (Suc count) v = ucast (drop_bit (8 * count) (0 XOR v)) # helper_write_loop count v"

definition helper_audio_write_header :: "byte list \<Rightarrow> 32 word \<Rightarrow> byte list" where
  "helper_audio_write_header out v = out @ helper_write_loop 4 v"

text \<open>\<open>None\<close> is a NULL stream; \<open>at_eof\<close> is \<open>feof(out)\<close>.\<close>

definition audio_write_header :: "byte list option \<Rightarrow> bool \<Rightarrow> audio_header \<Rightarrow> int \<times> byte list" where
  "audio_write_header out at_eof h = (case out of
     None \<Rightarrow> (EOF, [])
   | Some o0 \<Rightarrow>
       if at_eof then (EOF, o0)
       else
         let o1 = helper_audio_write_header o0 (magic_number h);
             o2 = helper_audio_write_header o1 (data_offset h);
             o3 = helper_audio_write_header o2 (data_size h);
             o4 = helper_audio_write_header o3 (encoding h);
             o5 = helper_audio_write_header o4 (sample_rate h);
             o6 = helper_audio_write_header o5 (channels h)
         in (0, o6))"

text \<open>
  The result, \<open>*samplep\<close> and the rest of the stream. \<open>curHex\<close> is an \<open>int16_t\<close>: the test against EOF is
  on the value after the conversion.
\<close>

definition audio_read_sample :: "byte list \<Rightarrow> 16 word \<Rightarrow> int \<times> 16 word \<times> byte list" where
  "audio_read_sample s0 samplep =
     (let (c1, s1) = fgetc s0; curHex = (word_of_int c1 :: 16 word) in
      if sint curHex \<noteq> EOF then
        let fullHex = push_bit 8 (0 XOR curHex);
            (c2, s2) = fgetc s1; curHex2 = (word_of_int c2 :: 16 word) in
        if sint curHex2 \<noteq> EOF then (0, fullHex XOR curHex2, s2) else (EOF, samplep, s2)
      else (EOF, -1, s1))"

definition audio_write_sample :: "byte list \<Rightarrow> 16 word \<Rightarrow> byte list" where
  "audio_write_sample out sample =
     out @ [ucast (drop_bit 8 (sample AND 0xFF00))] @ [ucast (sample AND 0x00FF)]"

subsection \<open>Lemmas\<close>

lemma fgetc_Cons [simp]: "fgetc (b # s) = (uint b, s)"
  by (simp add: fgetc_def)

lemma fgetc_Nil [simp]: "fgetc [] = (EOF, [])"
  by (simp add: fgetc_def)

lemma skip_bytes_drop: "skip_bytes n s = drop n s"
proof (induction n arbitrary: s)
  case (Suc n)
  then show ?case by (cases s) simp_all
qed simp

definition be32 :: "32 word \<Rightarrow> byte list" where
  "be32 v = helper_write_loop 4 v"

definition of_be32 :: "byte list \<Rightarrow> 32 word" where
  "of_be32 bs = fst (traverse_audio_file_header bs)"

definition be16 :: "16 word \<Rightarrow> byte list" where
  "be16 v = audio_write_sample [] v"

definition of_be16 :: "byte list \<Rightarrow> 16 word" where
  "of_be16 bs = fst (snd (audio_read_sample bs 0))"

lemma be32_bytes: "be32 v = [ucast (drop_bit 24 v), ucast (drop_bit 16 v), ucast (drop_bit 8 v), ucast v]"
  by (simp add: be32_def numeral_eq_Suc)

lemma traverse_bytes:
  "traverse_audio_file_header (a # b # c # d # s) =
     (push_bit 24 (ucast a) XOR push_bit 16 (ucast b) XOR push_bit 8 (ucast c) XOR ucast d, s)"
  by (simp add: traverse_audio_file_header_def Let_def xor.assoc)

lemma traverse_be32: "traverse_audio_file_header (be32 v @ s) = (v, s)"
proof -
  have "push_bit 24 (ucast (ucast (drop_bit 24 v) :: byte)) XOR push_bit 16 (ucast (ucast (drop_bit 16 v) :: byte))
      XOR push_bit 8 (ucast (ucast (drop_bit 8 v) :: byte)) XOR (ucast (ucast v :: byte) :: 32 word) = v"
  proof (rule bit_word_eqI)
    fix n assume n: "n < LENGTH(32)"
    consider "n < 8" | "8 \<le> n" "n < 16" | "16 \<le> n" "n < 24" | "24 \<le> n" "n < 32"
      using n by fastforce
    then show "bit (push_bit 24 (ucast (ucast (drop_bit 24 v) :: byte)) XOR push_bit 16 (ucast (ucast (drop_bit 16 v) :: byte))
      XOR push_bit 8 (ucast (ucast (drop_bit 8 v) :: byte)) XOR (ucast (ucast v :: byte) :: 32 word)) n = bit v n"
      by cases (simp_all add: bit_simps less_diff_conv2)
  qed
  then show ?thesis by (simp add: be32_bytes traverse_bytes)
qed

lemma be16_bytes: "be16 v = [ucast (drop_bit 8 (v AND 0xFF00)), ucast (v AND 0xFF)]"
  by (simp add: be16_def audio_write_sample_def)

lemma byte_not_eof: "sint (word_of_int (uint (b :: byte)) :: 16 word) \<noteq> EOF"
proof -
  have u: "uint (ucast b :: 16 word) = uint b" by (simp add: unsigned_ucast_eq take_bit_int_eq_self)
      (use uint_lt2p [of b] in \<open>simp add: take_bit_int_eq_self\<close>)
  have "sint (ucast b :: 16 word) = uint b"
  proof -
    have "uint b < 2 ^ 15" using uint_lt2p [of b] by simp
    moreover have "- (2 ^ 15) \<le> uint b"
      by (rule order_trans [OF _ uint_ge_0]) simp
    ultimately have "signed_take_bit 15 (uint b) = uint b" by (simp only: signed_take_bit_int_eq_self)
    then show ?thesis by (simp add: sint_uint u)
  qed
  then have "sint (word_of_int (uint b) :: 16 word) = uint b" by (simp only: ucast_eq)
  then show ?thesis using uint_ge_0 [of b] unfolding EOF_def by linarith
qed

lemma read_sample_bytes:
  "audio_read_sample (a # b # s) old = (0, push_bit 8 (ucast a) XOR ucast b, s)"
  using byte_not_eof [of a] byte_not_eof [of b]
  by (simp add: audio_read_sample_def Let_def del: of_int_uint) (simp add: Let_def)

lemma read_be16: "audio_read_sample (be16 v @ s) old = (0, v, s)"
proof -
  have "push_bit 8 (ucast (ucast (drop_bit 8 (v AND 0xFF00)) :: byte)) XOR ucast (ucast (v AND 0xFF) :: byte) = v"
  proof -
    have m: "(0xFF :: 16 word) = mask 8" "(0xFF00 :: 16 word) = push_bit 8 (mask 8)"
      by (simp_all add: mask_eq_exp_minus_1)
    show ?thesis unfolding m by (rule bit_word_eqI) (auto simp: bit_simps)
  qed
  then show ?thesis by (simp add: be16_bytes read_sample_bytes)
qed

interpretation be32: fixed_codec 4 be32 of_be32
proof unfold_locales
  show "length (be32 v) = 4" for v by (simp add: be32_bytes)
  show "of_be32 (be32 v) = v" for v using traverse_be32 [of v "[]"] by (simp add: of_be32_def)
qed

interpretation be16: fixed_codec 2 be16 of_be16
proof unfold_locales
  show "length (be16 v) = 2" for v by (simp add: be16_bytes)
  show "of_be16 (be16 v) = v" for v using read_be16 [of v "[]"] by (simp add: of_be16_def)
qed


subsection \<open>Properties\<close>

lemma write_header_bytes:
  "audio_write_header (Some out) False h = (0, out @ be32 (magic_number h) @ be32 (data_offset h)
     @ be32 (data_size h) @ be32 (encoding h) @ be32 (sample_rate h) @ be32 (channels h))"
  by (simp add: audio_write_header_def helper_audio_write_header_def be32_def Let_def)

lemma read_header_bytes:
  "audio_read_header (Some (be32 (magic_number h) @ be32 (data_offset h) @ be32 (data_size h)
     @ be32 (encoding h) @ be32 (sample_rate h) @ be32 (channels h) @ rest)) old
   = (if check_audio_header h then (0, h, drop (nat (sint (data_offset h - 24))) rest) else (EOF, h, rest))"
  by (cases h) (simp add: audio_read_header_def traverse_be32 Let_def skip_bytes_drop)

text \<open>
  C30. A header that \<open>audio_write_header\<close> writes is read back by \<open>audio_read_header\<close> field by field, in
  big-endian order; it is accepted exactly when the magic number, encoding, rate and channel count are
  the supported ones and the data offset is at least 24, and then the stream is left at the first
  sample, after an annotation of \<open>data_offset - 24\<close> bytes, provided the offset is below \<open>2^31 + 24\<close>.
\<close>

theorem audio_header_roundtrip:
  assumes "unat (data_offset h) < 2 ^ 31 + 24" and "length note = unat (data_offset h - 24)"
  shows "\<exists>bs. audio_write_header (Some out) False h = (0, out @ bs) \<and> length bs = 24
    \<and> (if magic_number h = AUDIO_MAGIC \<and> 24 \<le> data_offset h \<and> encoding h = PCM16_ENCODING
          \<and> sample_rate h = AUDIO_FRAME_RATE \<and> channels h = AUDIO_CHANNELS
       then audio_read_header (Some (bs @ note @ samples)) old = (0, h, samples)
       else fst (audio_read_header (Some (bs @ note @ samples)) old) = EOF)"
proof -
  let ?bs = "be32 (magic_number h) @ be32 (data_offset h) @ be32 (data_size h)
     @ be32 (encoding h) @ be32 (sample_rate h) @ be32 (channels h)"
  have c: "check_audio_header h \<longleftrightarrow> magic_number h = AUDIO_MAGIC \<and> 24 \<le> data_offset h
      \<and> encoding h = PCM16_ENCODING \<and> sample_rate h = AUDIO_FRAME_RATE \<and> channels h = AUDIO_CHANNELS"
    by (auto simp: check_audio_header_def AUDIO_DATA_OFFSET_def)
  have s: "nat (sint (data_offset h - 24)) = length note" if "24 \<le> data_offset h"
  proof -
    have "unat (data_offset h - 24) = unat (data_offset h) - 24"
      using that by (simp add: unat_sub)
    with assms(1) have "unat (data_offset h - 24) < 2 ^ 31" by simp
    then have "sint (data_offset h - 24) = int (unat (data_offset h - 24))"
    proof -
      assume u: "unat (data_offset h - 24) < 2 ^ 31"
      have "uint (data_offset h - 24) < 2 ^ 31"
      proof -
        have "int (unat (data_offset h - 24)) < int (2 ^ 31)" using u by (simp only: of_nat_less_iff)
        then show ?thesis by simp
      qed
      moreover have "- (2 ^ 31) \<le> uint (data_offset h - 24)"
        by (rule order_trans [OF _ uint_ge_0]) simp
      ultimately have "signed_take_bit 31 (uint (data_offset h - 24)) = uint (data_offset h - 24)"
        by (simp only: signed_take_bit_int_eq_self)
      then show ?thesis by (simp add: sint_uint)
    qed
    then show ?thesis using assms(2) by simp
  qed
  have "length ?bs = 24" by (simp add: be32.enc_width)
  moreover have "if check_audio_header h then audio_read_header (Some (?bs @ note @ samples)) old = (0, h, samples)
      else fst (audio_read_header (Some (?bs @ note @ samples)) old) = EOF"
  proof (cases "check_audio_header h")
    case True
    then have "24 \<le> data_offset h" using c by simp
    from s [OF this] True read_header_bytes [of h "note @ samples" old] show ?thesis by simp
  next
    case False
    then show ?thesis using read_header_bytes [of h "note @ samples" old] by simp
  qed
  ultimately show ?thesis using write_header_bytes c by (intro exI [of _ ?bs]) simp
qed

theorem audio_header_roundtrip_witness:
  "\<exists>bs. audio_write_header (Some []) False \<lparr>magic_number = AUDIO_MAGIC, data_offset = 26, data_size = 4,
       encoding = 3, sample_rate = 8000, channels = 1\<rparr> = (0, bs)
     \<and> snd (snd (audio_read_header (Some (bs @ [65, 0] @ [1, 2, 3, 4]))
          \<lparr>magic_number = 0, data_offset = 0, data_size = 0, encoding = 0, sample_rate = 0, channels = 0\<rparr>))
         = [1, 2, 3, 4]"
proof -
  let ?h = "\<lparr>magic_number = AUDIO_MAGIC, data_offset = 26, data_size = 4,
       encoding = 3, sample_rate = 8000, channels = 1\<rparr>"
  have a: "unat (data_offset ?h) < 2 ^ 31 + 24" "length [65, 0 :: byte] = unat (data_offset ?h - 24)" by simp_all
  from audio_header_roundtrip [OF a, of "[]" "[1, 2, 3, 4]"
      "\<lparr>magic_number = 0, data_offset = 0, data_size = 0, encoding = 0, sample_rate = 0, channels = 0\<rparr>"]
  show ?thesis by (auto simp: audio_consts)
qed

text \<open>All the samples of a stream, until a read fails.\<close>

fun read_samples :: "nat \<Rightarrow> byte list \<Rightarrow> 16 word list \<times> byte list" where
  "read_samples 0 s = ([], s)"
| "read_samples (Suc n) s = (case audio_read_sample s 0 of (r, x, s') \<Rightarrow>
     if r = 0 then (let (xs, s'') = read_samples n s' in (x # xs, s'')) else ([], s'))"

lemma read_samples_dec:
  "2 * n \<le> length s \<Longrightarrow> read_samples n s = dec_many 2 of_be16 n s"
proof (induction n arbitrary: s)
  case (Suc n)
  then obtain a b s' where s: "s = a # b # s'" by (cases s; cases "tl s") auto
  then show ?case using Suc by (simp add: read_sample_bytes of_be16_def)
qed simp

text \<open>
  Samples written with \<open>audio_write_sample\<close> are read back by \<open>audio_read_sample\<close> one by one, whatever
  follows them; and a stream that ends before or inside a sample makes the read return EOF. The value
  -1 that the read leaves in the sample at the end of the stream is also the value of a sample, so
  the sample alone does not tell the end of the stream.
\<close>

theorem audio_sample_roundtrip:
  "read_samples (length xs) (concat (map (audio_write_sample []) xs) @ rest) = (xs, rest)
   \<and> audio_read_sample [] old = (EOF, -1, []) \<and> audio_read_sample [b] old = (EOF, old, [])
   \<and> audio_read_sample (audio_write_sample [] (-1) @ rest) old = (0, -1, rest)"
proof -
  have w: "audio_write_sample [] = be16" by (rule ext) (simp add: be16_def)
  have "read_samples (length xs) (concat (map be16 xs) @ rest)
      = dec_many 2 of_be16 (length xs) (concat (map be16 xs) @ rest)"
    by (rule read_samples_dec) (simp add: be16.length_enc_all)
  then have "read_samples (length xs) (concat (map be16 xs) @ rest) = (xs, rest)"
    by (simp only: be16.dec_enc_many)
  moreover have "audio_read_sample [] old = (EOF, -1, [])"
    by (simp add: audio_read_sample_def EOF_def)
  moreover have "audio_read_sample [b] old = (EOF, old, [])"
    using byte_not_eof [of b] by (simp add: audio_read_sample_def Let_def EOF_def)
  ultimately show ?thesis using read_be16 [of "-1" rest old] by (simp add: w)
qed

end
