(* ===== verification/Goertzel.thy ===== *)
theory Goertzel
  imports Prelude
begin

section \<open>The Goertzel filter (hw1/src/goertzel.c)\<close>

text \<open>
  The \<open>double\<close> fields are reals; \<open>N\<close> is a \<open>uint32_t\<close>, and the product \<open>N * N\<close> is taken at that width.
\<close>

record goertzel_state =
  g_N :: "32 word"
  g_k :: real
  g_A :: real
  g_B :: real
  s0 :: real
  s1 :: real
  s2 :: real

record complex_pair =
  cp_real :: real
  cp_imag :: real

definition goertzel_init :: "32 word \<Rightarrow> real \<Rightarrow> goertzel_state" where
  "goertzel_init N k = (let A = (2 * pi) * (k / real (unat N)) in
     \<lparr>g_N = N, g_k = k, g_A = A, g_B = cos A * 2, s0 = 0, s1 = 0, s2 = 0\<rparr>)"

definition goertzel_step :: "goertzel_state \<Rightarrow> real \<Rightarrow> goertzel_state" where
  "goertzel_step g x = (let t = g_B g * s1 g + x - s2 g in g\<lparr>s0 := t, s2 := s1 g, s1 := t\<rparr>)"

definition goertzel_strength :: "goertzel_state \<Rightarrow> real \<Rightarrow> real \<times> goertzel_state" where
  "goertzel_strength g x =
     (let N1 = real (unat (g_N g)) - 1;
          constant_c = \<lparr>cp_real = cos (g_A g), cp_imag = - 1 * sin (g_A g)\<rparr>;
          constant_d = \<lparr>cp_real = cos (g_A g * N1), cp_imag = - 1 * sin (g_A g * N1)\<rparr>;
          t = g_B g * s1 g + x - s2 g;
          y_A = (- 1 * s1 g * cp_real constant_c) + t;
          y_B = s1 g * cp_imag constant_c;
          y_C = cp_real constant_d;
          y_D = cp_imag constant_d;
          y = \<lparr>cp_real = y_A * y_C - y_B * y_D, cp_imag = y_A * y_D + y_B * y_C\<rparr>;
          sqrd_mag_y = cp_real y ^ 2 + cp_imag y ^ 2
      in (2 * sqrd_mag_y / real (unat (g_N g * g_N g)), g\<lparr>s0 := t\<rparr>))"

subsection \<open>What the recurrence computes\<close>

text \<open>The two components of the correlation of a signal with a complex exponential, from its last sample back.\<close>

definition corr_cos :: "real \<Rightarrow> real list \<Rightarrow> real" where
  "corr_cos A xs = (\<Sum>m<length xs. xs ! m * cos (A * (real (length xs) - 1 - real m)))"

definition corr_sin :: "real \<Rightarrow> real list \<Rightarrow> real" where
  "corr_sin A xs = (\<Sum>m<length xs. xs ! m * sin (A * (real (length xs) - 1 - real m)))"

lemma turn:
  fixes c t A :: real
  shows "c * cos (t + A) = cos A * (c * cos t) - sin A * (c * sin t)"
    "c * sin (t + A) = sin A * (c * cos t) + cos A * (c * sin t)"
    "c * cos (A - t) = cos A * (c * cos t) + sin A * (c * sin t)"
    "c * sin (A - t) = sin A * (c * cos t) - cos A * (c * sin t)"
  by (simp_all add: cos_add sin_add cos_diff sin_diff algebra_simps)

lemma corr_snoc:
  "corr_cos A (xs @ [x]) = cos A * corr_cos A xs - sin A * corr_sin A xs + x"
  "corr_sin A (xs @ [x]) = sin A * corr_cos A xs + cos A * corr_sin A xs"
proof -
  have shift: "A * (real (length (xs @ [x])) - 1 - real m) = A * (real (length xs) - 1 - real m) + A" for m
    by (simp add: algebra_simps)
  have "corr_cos A (xs @ [x]) = (\<Sum>m<length xs. xs ! m * cos (A * (real (length xs) - 1 - real m) + A)) + x"
    unfolding corr_cos_def shift by (simp add: nth_append)
  also have "(\<Sum>m<length xs. xs ! m * cos (A * (real (length xs) - 1 - real m) + A))
      = cos A * corr_cos A xs - sin A * corr_sin A xs"
    by (simp only: corr_cos_def corr_sin_def turn sum_distrib_left sum_subtractf)
  finally show "corr_cos A (xs @ [x]) = cos A * corr_cos A xs - sin A * corr_sin A xs + x" .
  have "corr_sin A (xs @ [x]) = (\<Sum>m<length xs. xs ! m * sin (A * (real (length xs) - 1 - real m) + A))"
    unfolding corr_sin_def shift by (simp add: nth_append)
  also have "\<dots> = sin A * corr_cos A xs + cos A * corr_sin A xs"
    by (simp only: corr_cos_def corr_sin_def turn sum_distrib_left sum.distrib)
  finally show "corr_sin A (xs @ [x]) = sin A * corr_cos A xs + cos A * corr_sin A xs" .
qed

definition run_steps :: "goertzel_state \<Rightarrow> real list \<Rightarrow> goertzel_state" where
  "run_steps g xs = fold (\<lambda>x g. goertzel_step g x) xs g"

lemma run_snoc: "run_steps g (xs @ [x]) = goertzel_step (run_steps g xs) x"
  by (simp add: run_steps_def)

lemma run_const:
  "g_N (run_steps g xs) = g_N g" "g_A (run_steps g xs) = g_A g" "g_B (run_steps g xs) = g_B g"
  by (induction xs rule: rev_induct) (simp_all add: run_steps_def goertzel_step_def Let_def)

lemma run_invariant:
  assumes "g_B g = cos (g_A g) * 2" and "s1 g = 0" and "s2 g = 0"
  shows "s1 (run_steps g xs) - cos (g_A g) * s2 (run_steps g xs) = corr_cos (g_A g) xs
    \<and> sin (g_A g) * s2 (run_steps g xs) = corr_sin (g_A g) xs"
proof (induction xs rule: rev_induct)
  case Nil
  then show ?case using assms by (simp add: run_steps_def corr_cos_def corr_sin_def)
next
  case (snoc x xs)
  let ?A = "g_A g" and ?h = "run_steps g xs"
  have s: "s1 ?h = corr_cos ?A xs + cos ?A * s2 ?h" "sin ?A * s2 ?h = corr_sin ?A xs"
    using snoc by auto
  have n: "s1 (run_steps g (xs @ [x])) = 2 * cos ?A * s1 ?h + x - s2 ?h"
    "s2 (run_steps g (xs @ [x])) = s1 ?h"
    by (simp_all add: run_snoc goertzel_step_def Let_def run_const assms(1))
  have "sin ?A * corr_sin ?A xs + cos ?A * (cos ?A * s2 ?h) = s2 ?h"
  proof -
    have "sin ?A * corr_sin ?A xs + cos ?A * (cos ?A * s2 ?h) = (sin ?A * sin ?A + cos ?A * cos ?A) * s2 ?h"
      unfolding s(2) [symmetric] by (simp only: distrib_right mult.assoc)
    also have "sin ?A * sin ?A + cos ?A * cos ?A = 1"
      using sin_cos_squared_add [of ?A] by (simp add: power2_eq_square)
    finally show ?thesis by simp
  qed
  then have "s1 (run_steps g (xs @ [x])) - cos ?A * s2 (run_steps g (xs @ [x])) = corr_cos ?A (xs @ [x])"
    unfolding n corr_snoc s(1) by (simp add: algebra_simps)
  moreover have "sin ?A * s2 (run_steps g (xs @ [x])) = corr_sin ?A (xs @ [x])"
    unfolding n corr_snoc s(1) by (simp add: algebra_simps s(2) [symmetric])
  ultimately show ?case by simp
qed

text \<open>The discrete Fourier sums, and that the correlation has the same magnitude.\<close>

definition dft_cos :: "real \<Rightarrow> real list \<Rightarrow> real" where
  "dft_cos A xs = (\<Sum>m<length xs. xs ! m * cos (A * real m))"

definition dft_sin :: "real \<Rightarrow> real list \<Rightarrow> real" where
  "dft_sin A xs = (\<Sum>m<length xs. xs ! m * sin (A * real m))"

lemma rotate_square:
  fixes c s d e :: real
  assumes "c ^ 2 + s ^ 2 = 1"
  shows "(c * d + s * e) ^ 2 + (s * d - c * e) ^ 2 = d ^ 2 + e ^ 2"
proof -
  have "(c * d + s * e) ^ 2 + (s * d - c * e) ^ 2 = (c ^ 2 + s ^ 2) * (d ^ 2 + e ^ 2)"
    by (simp add: power2_eq_square algebra_simps)
  then show ?thesis using assms by simp
qed

lemma corr_dft: "corr_cos A xs ^ 2 + corr_sin A xs ^ 2 = dft_cos A xs ^ 2 + dft_sin A xs ^ 2"
proof -
  let ?t = "A * (real (length xs) - 1)"
  have a: "A * (real (length xs) - 1 - real m) = ?t - A * real m" for m by (simp add: algebra_simps)
  have "corr_cos A xs = cos ?t * dft_cos A xs + sin ?t * dft_sin A xs"
    unfolding corr_cos_def dft_cos_def dft_sin_def a
    by (simp only: turn sum_distrib_left sum.distrib)
  moreover have "corr_sin A xs = sin ?t * dft_cos A xs - cos ?t * dft_sin A xs"
    unfolding corr_sin_def dft_cos_def dft_sin_def a
    by (simp only: turn sum_distrib_left sum_subtractf)
  ultimately show ?thesis using rotate_square [of "cos ?t" "sin ?t"] by simp
qed



end
