(* ===== verification/DtmfArgs.thy ===== *)
theory DtmfArgs
  imports Audio
begin

section \<open>The command line of dtmf (hw1/src/dtmf.c: validargs, hw1/src/main.c)\<close>

text \<open>
  \<open>argv\<close> is a list of strings without NUL; what follows its last element is NULL. The global
  variables that \<open>validargs\<close> sets are a record; \<open>None\<close> is a NULL file name.
\<close>

record dtmf_options =
  global_options :: int
  noise_file :: "string option"
  noise_level :: int
  block_size :: int
  audio_samples :: int

definition HELP_OPTION :: int where "HELP_OPTION = 1"
definition GENERATE_OPTION :: int where "GENERATE_OPTION = 2"
definition DETECT_OPTION :: int where "DETECT_OPTION = 4"

subsection \<open>Flags and values\<close>

text \<open>The flag length, and the last two characters looked at, in a loop over pairs of characters.\<close>

fun flag_loop :: "string \<Rightarrow> nat \<Rightarrow> char \<Rightarrow> char \<Rightarrow> nat \<times> char \<times> char" where
  "flag_loop [] flagLen frst scnd = (flagLen, frst, scnd)"
| "flag_loop [c] flagLen frst scnd = (flagLen + 1, c, scnd)"
| "flag_loop [c, d] flagLen frst scnd = (flagLen + 1, c, d)"
| "flag_loop (c # d # e # r) flagLen frst scnd = flag_loop (e # r) (flagLen + 3) c d"

definition get_current_flag :: "string \<Rightarrow> char \<Rightarrow> char \<Rightarrow> nat \<times> char \<times> char" where
  "get_current_flag flagPtr frst scnd = flag_loop flagPtr 0 frst scnd"

text \<open>\<open>None\<close>: not a number. A minus sign counts wherever it stands; the value is a \<open>long\<close>.\<close>

fun value_loop :: "string \<Rightarrow> int \<Rightarrow> int \<Rightarrow> (int \<times> int) option" where
  "value_loop [] v neg = Some (v, neg)"
| "value_loop (c # r) v neg =
     (if c_char c = 45 then value_loop r v (-1)
      else if c_char c > 57 \<or> c_char c < 48 then None
      else value_loop r (wrap64 (wrap64 (v + (c_char c - 48)) * 10)) neg)"

definition get_current_value :: "string option \<Rightarrow> int option" where
  "get_current_value valPtr = (case valPtr of None \<Rightarrow> None
     | Some s \<Rightarrow> (case value_loop s 0 1 of None \<Rightarrow> None
        | Some (v, neg) \<Rightarrow> Some (wrap64 (c_div v 10 * neg))))"

fun check_string_equality :: "string \<Rightarrow> string \<Rightarrow> int" where
  "check_string_equality [] [] = 0"
| "check_string_equality (c # r) [] = EOF"
| "check_string_equality [] (d # s) = EOF"
| "check_string_equality (c # r) (d # s) = (if c \<noteq> d then EOF else check_string_equality r s)"

text \<open>\<open>string_copy\<close> overwrites both strings; it is not called.\<close>

definition string_copy :: "string \<Rightarrow> string option \<Rightarrow> (int \<times> string \<times> string) outcome" where
  "string_copy src dest = (case dest of None \<Rightarrow> Inr (EOF, src, [])
     | Some d \<Rightarrow>
         if length d < length src then Inl MemFault
         else Inr (if length src < 4 then EOF else int (length src),
                   replicate (length src) (CHR ''b''), replicate (length src) (CHR ''a'') @ drop (length src) d))"

subsection \<open>validargs\<close>

record scan_state =
  frstChar :: char
  scndChar :: char
  tFlagSeen :: bool
  lFlagSeen :: bool
  nFlagSeen :: bool
  bFlagSeen :: bool
  temp_audio_samples :: int
  temp_noise_level :: int
  temp_block_size :: int
  noiseFileLen :: nat
  fname :: "string option"

text \<open>\<open>Inr None\<close> is the return of EOF, with the value of \<open>noise_file\<close>; the file name of \<open>-n\<close> is dereferenced.\<close>

fun gen_args :: "string list \<Rightarrow> scan_state \<Rightarrow> (string option \<times> scan_state option) outcome" where
  "gen_args [] s = Inr (fname s, Some s)"
| "gen_args (a # as) s =
     (let (len, f, c) = get_current_flag a (frstChar s) (scndChar s);
          s1 = s\<lparr>frstChar := f, scndChar := c\<rparr> in
      if len > 3 then Inr (fname s, None)
      else if f \<noteq> CHR ''-'' then Inr (fname s, None)
      else if c = CHR ''t'' \<and> \<not> tFlagSeen s then
        (case as of [] \<Rightarrow> Inr (fname s, None)
         | v # as' \<Rightarrow> (case get_current_value (Some v) of None \<Rightarrow> Inr (fname s, None)
            | Some n \<Rightarrow> if n < 0 \<or> n > 268435455 then Inr (fname s, None)
                else gen_args as' (s1\<lparr>tFlagSeen := True, temp_audio_samples := n\<rparr>)))
      else if c = CHR ''l'' \<and> \<not> lFlagSeen s then
        (case as of [] \<Rightarrow> Inr (fname s, None)
         | v # as' \<Rightarrow> (case get_current_value (Some v) of None \<Rightarrow> Inr (fname s, None)
            | Some n \<Rightarrow> if n < -30 \<or> n > 30 then Inr (fname s, None)
                else gen_args as' (s1\<lparr>lFlagSeen := True, temp_noise_level := n\<rparr>)))
      else if c = CHR ''n'' \<and> \<not> nFlagSeen s then
        (case as of [] \<Rightarrow> Inl MemFault
         | v # as' \<Rightarrow>
             if noiseFileLen s + length v < 4 then Inr (Some v, None)
             else gen_args as' (s1\<lparr>nFlagSeen := True, fname := Some v, noiseFileLen := noiseFileLen s + length v\<rparr>))
      else Inr (fname s, None))"

fun det_args :: "string list \<Rightarrow> scan_state \<Rightarrow> scan_state option" where
  "det_args [] s = Some s"
| "det_args (a # as) s =
     (let (len, f, c) = get_current_flag a (frstChar s) (scndChar s);
          s1 = s\<lparr>frstChar := f, scndChar := c\<rparr> in
      if len > 3 then None
      else if f \<noteq> CHR ''-'' then None
      else if c = CHR ''b'' \<and> \<not> bFlagSeen s then
        (case as of [] \<Rightarrow> None
         | v # as' \<Rightarrow> (case get_current_value (Some v) of None \<Rightarrow> None
            | Some n \<Rightarrow> if n < 10 \<or> n > 1000 then None
                else det_args as' (s1\<lparr>bFlagSeen := True, temp_block_size := n\<rparr>)))
      else None)"

text \<open>The assignments of the globals at the end of either mode: -1 stands for \<open>not given\<close>.\<close>

definition set_globals :: "scan_state \<Rightarrow> int \<Rightarrow> dtmf_options \<Rightarrow> dtmf_options" where
  "set_globals s mode g = g\<lparr>
     audio_samples := (if temp_audio_samples s \<noteq> -1 then temp_audio_samples s else 1000),
     block_size := (if temp_block_size s \<noteq> -1 then temp_block_size s else 100),
     noise_level := (if temp_noise_level s \<noteq> -1 then temp_noise_level s else 0),
     noise_file := (if noiseFileLen s = 0 then None else fname s),
     global_options := mode\<rparr>"

definition scan_start :: "char \<Rightarrow> char \<Rightarrow> string option \<Rightarrow> scan_state" where
  "scan_start f c nf = \<lparr>frstChar = f, scndChar = c, tFlagSeen = False, lFlagSeen = False, nFlagSeen = False,
     bFlagSeen = False, temp_audio_samples = -1, temp_noise_level = -1, temp_block_size = -1,
     noiseFileLen = 0, fname = nf\<rparr>"

definition validargs :: "string list \<Rightarrow> dtmf_options \<Rightarrow> (int \<times> dtmf_options) outcome" where
  "validargs argv g0 =
     (let g = g0\<lparr>global_options := 0\<rparr> in
      case argv of
        prog # a # as \<Rightarrow>
          let (len, f, c) = get_current_flag a (CHR ''0'') (CHR ''0'');
              s = scan_start f c (noise_file g) in
          if len > 3 then Inr (EOF, g)
          else if f = CHR ''-'' \<and> c = CHR ''h'' then Inr (0, g\<lparr>global_options := HELP_OPTION\<rparr>)
          else if f = CHR ''-'' \<and> c = CHR ''g'' then
            obind (gen_args as s) (\<lambda>(nf, r). case r of
                None \<Rightarrow> Inr (EOF, g\<lparr>noise_file := nf\<rparr>)
              | Some s' \<Rightarrow> Inr (0, set_globals s' GENERATE_OPTION g))
          else if f = CHR ''-'' \<and> c = CHR ''d'' then
            (case det_args as s of None \<Rightarrow> Inr (EOF, g)
             | Some s' \<Rightarrow> Inr (0, set_globals s' DETECT_OPTION g))
          else Inr (EOF, g)
      | _ \<Rightarrow> Inr (EOF, g))"

subsection \<open>main\<close>

text \<open>\<open>generate\<close> and \<open>detect\<close> are the two modes on the standard streams, as results; the exit status is the result.\<close>

definition dtmf_main :: "(dtmf_options \<Rightarrow> 32 word \<Rightarrow> int) \<Rightarrow> (dtmf_options \<Rightarrow> int) \<Rightarrow> string list \<Rightarrow>
    dtmf_options \<Rightarrow> int outcome" where
  "dtmf_main generate detect argv g0 = obind (validargs argv g0) (\<lambda>(r, g).
     let opts = (word_of_int (global_options g) :: 32 word) in
     if r = -1 \<and> global_options g = 0 then Inr 1
     else if and opts 1 \<noteq> 0 then Inr 0
     else if and opts 2 \<noteq> 0 then
       (if generate g (word_of_int (audio_samples g * 8)) = EOF then Inr 1 else Inr 0)
     else if and opts 4 \<noteq> 0 then (if detect g = EOF then Inr 1 else Inr 0)
     else Inr 1)"

subsection \<open>Lemmas\<close>

lemma c_char_minus: "c_char (CHR ''-'') = 45"
  by code_simp

lemma value_digits:
  "0 \<le> m \<Longrightarrow> (m * 10 ^ length (show_nat n) + int n) * 10 < 2 ^ 63 \<Longrightarrow>
   value_loop (show_nat n @ r) (m * 10) neg = value_loop r ((m * 10 ^ length (show_nat n) + int n) * 10) neg"
proof (induction n arbitrary: r rule: show_nat.induct)
  case (1 n)
  have step: "value_loop (digit_char d # r) (k * 10) neg = value_loop r ((k * 10 + int d) * 10) neg"
    if "d < 10" "0 \<le> k" "(k * 10 + int d) * 10 < 2 ^ 63" for d k r
  proof -
    have "wrap64 (k * 10 + int d) = k * 10 + int d" using that by (intro wrap64_id) auto
    moreover have "wrap64 ((k * 10 + int d) * 10) = (k * 10 + int d) * 10" using that by (intro wrap64_id) auto
    ultimately show ?thesis using that(1) by (simp add: c_char_digit)
  qed
  show ?case
  proof (cases "n < 10")
    case True
    then show ?thesis using step [of n m] 1(2,3) by (simp add: show_nat_digit)
  next
    case False
    then have s: "show_nat n = show_nat (n div 10) @ [digit_char (n mod 10)]"
      by (subst show_nat.simps) simp
    let ?k = "m * 10 ^ length (show_nat (n div 10)) + int (n div 10)"
    have e: "m * 10 ^ length (show_nat n) + int n = ?k * 10 + int (n mod 10)"
    proof -
      have "n = n div 10 * 10 + n mod 10" by simp
      then have "int n = int (n div 10) * 10 + int (n mod 10)" by linarith
      then show ?thesis by (simp add: s algebra_simps)
    qed
    have k0: "0 \<le> ?k" using 1(2) by simp
    have lin: "y < c" if "x * 10 < c" "0 \<le> y" "y \<le> x" for x y c :: int using that by linarith
    have "?k * 10 < 2 ^ 63" using 1(3) by (rule lin) (use k0 e in simp_all)
    from "1.IH" [OF False 1(2) this]
    have "value_loop (show_nat n @ r) (m * 10) neg = value_loop ([digit_char (n mod 10)] @ r) (?k * 10) neg"
      by (simp add: s)
    also have "\<dots> = value_loop r ((?k * 10 + int (n mod 10)) * 10) neg"
      using step [of "n mod 10" ?k] k0 1(3) e by simp
    finally show ?thesis using e by simp
  qed
qed

lemma value_show_int:
  assumes "\<bar>n\<bar> < 10 ^ 17"
  shows "get_current_value (Some (show_int n)) = Some n"
proof -
  have d: "value_loop (show_nat k) 0 neg = Some (int k * 10, neg)" if "k < 10 ^ 17" for k neg
    using value_digits [of 0 k "[]" neg] that by simp
  have w: "wrap64 x = x" if "\<bar>x\<bar> < 10 ^ 17" for x using that by (intro wrap64_id) auto
  show ?thesis
  proof (cases "n < 0")
    case True
    then have "nat (- n) < 10 ^ 17" using assms by (simp add: nat_less_iff)
    from d [OF this, of "-1"] True assms show ?thesis
      by (simp add: get_current_value_def show_int_def c_char_minus c_div_mult_cancel c_div_minus w)
  next
    case False
    then have "nat n < 10 ^ 17" using assms by (simp add: nat_less_iff)
    from d [OF this, of 1] False assms show ?thesis
      by (simp add: get_current_value_def show_int_def c_div_mult_cancel w)
  qed
qed

text \<open>The options of generate mode, as a user writes them.\<close>

datatype gen_opt = OptT nat | OptL int | OptN string

fun render_opt :: "gen_opt \<Rightarrow> string list" where
  "render_opt (OptT t) = [''-t'', show_int (int t)]"
| "render_opt (OptL l) = [''-l'', show_int l]"
| "render_opt (OptN f) = [''-n'', f]"

fun opt_ok :: "gen_opt \<Rightarrow> bool" where
  "opt_ok (OptT t) = (t \<le> 268435455)"
| "opt_ok (OptL l) = (-30 \<le> l \<and> l \<le> 30)"
| "opt_ok (OptN f) = (4 \<le> length f)"

fun apply_opt :: "gen_opt \<Rightarrow> scan_state \<Rightarrow> scan_state" where
  "apply_opt (OptT t) s = s\<lparr>frstChar := CHR ''-'', scndChar := CHR ''t'', tFlagSeen := True, temp_audio_samples := int t\<rparr>"
| "apply_opt (OptL l) s = s\<lparr>frstChar := CHR ''-'', scndChar := CHR ''l'', lFlagSeen := True, temp_noise_level := l\<rparr>"
| "apply_opt (OptN f) s = s\<lparr>frstChar := CHR ''-'', scndChar := CHR ''n'', nFlagSeen := True, fname := Some f,
     noiseFileLen := noiseFileLen s + length f\<rparr>"

fun opt_new :: "gen_opt \<Rightarrow> scan_state \<Rightarrow> bool" where
  "opt_new (OptT t) s = (\<not> tFlagSeen s)"
| "opt_new (OptL l) s = (\<not> lFlagSeen s)"
| "opt_new (OptN f) s = (\<not> nFlagSeen s \<and> noiseFileLen s = 0)"

lemma gen_args_opt:
  "opt_ok p \<Longrightarrow> opt_new p s \<Longrightarrow> gen_args (render_opt p @ as) s = gen_args as (apply_opt p s)"
proof (cases p)
  case (OptT t)
  assume "opt_ok p" "opt_new p s"
  then show ?thesis using OptT value_show_int [of "int t"]
    by (simp add: get_current_flag_def Let_def)
next
  case (OptL l)
  assume "opt_ok p" "opt_new p s"
  then have l: "-30 \<le> l" "l \<le> 30" "\<not> lFlagSeen s" using OptL by simp_all
  then have "get_current_value (Some (show_int l)) = Some l" by (intro value_show_int) simp
  then show ?thesis using OptL l by (simp add: get_current_flag_def Let_def)
next
  case (OptN f)
  assume "opt_ok p" "opt_new p s"
  then show ?thesis using OptN by (simp add: get_current_flag_def Let_def)
qed


text \<open>Which options of each kind a list has; no kind twice.\<close>

fun times :: "gen_opt list \<Rightarrow> nat option" where
  "times [] = None"
| "times (OptT t # ps) = Some t"
| "times (p # ps) = times ps"

fun levels :: "gen_opt list \<Rightarrow> int option" where
  "levels [] = None"
| "levels (OptL l # ps) = Some l"
| "levels (p # ps) = levels ps"

fun files :: "gen_opt list \<Rightarrow> string option" where
  "files [] = None"
| "files (OptN f # ps) = Some f"
| "files (p # ps) = files ps"

fun once :: "gen_opt list \<Rightarrow> bool" where
  "once [] = True"
| "once (OptT t # ps) = (times ps = None \<and> once ps)"
| "once (OptL l # ps) = (levels ps = None \<and> once ps)"
| "once (OptN f # ps) = (files ps = None \<and> once ps)"

lemma gen_args_opts:
  "list_all opt_ok ps \<Longrightarrow> once ps \<Longrightarrow> (tFlagSeen s \<longrightarrow> times ps = None) \<Longrightarrow>
   (lFlagSeen s \<longrightarrow> levels ps = None) \<Longrightarrow> (nFlagSeen s \<or> 0 < noiseFileLen s \<longrightarrow> files ps = None) \<Longrightarrow>
   \<exists>s'. gen_args (concat (map render_opt ps)) s = Inr (fname s', Some s')
     \<and> temp_audio_samples s' = (case times ps of None \<Rightarrow> temp_audio_samples s | Some t \<Rightarrow> int t)
     \<and> temp_noise_level s' = (case levels ps of None \<Rightarrow> temp_noise_level s | Some l \<Rightarrow> l)
     \<and> temp_block_size s' = temp_block_size s
     \<and> fname s' = (case files ps of None \<Rightarrow> fname s | Some f \<Rightarrow> Some f)
     \<and> noiseFileLen s' = (case files ps of None \<Rightarrow> noiseFileLen s | Some f \<Rightarrow> noiseFileLen s + length f)"
proof (induction ps arbitrary: s)
  case (Cons p ps)
  have ok: "opt_ok p" "list_all opt_ok ps" using Cons.prems(1) by simp_all
  have new: "opt_new p s" using Cons.prems by (cases p) auto
  have run: "gen_args (concat (map render_opt (p # ps))) s = gen_args (concat (map render_opt ps)) (apply_opt p s)"
    using gen_args_opt [OF ok(1) new] by simp
  have "\<exists>s'. gen_args (concat (map render_opt ps)) (apply_opt p s) = Inr (fname s', Some s')
     \<and> temp_audio_samples s' = (case times ps of None \<Rightarrow> temp_audio_samples (apply_opt p s) | Some t \<Rightarrow> int t)
     \<and> temp_noise_level s' = (case levels ps of None \<Rightarrow> temp_noise_level (apply_opt p s) | Some l \<Rightarrow> l)
     \<and> temp_block_size s' = temp_block_size (apply_opt p s)
     \<and> fname s' = (case files ps of None \<Rightarrow> fname (apply_opt p s) | Some f \<Rightarrow> Some f)
     \<and> noiseFileLen s' = (case files ps of None \<Rightarrow> noiseFileLen (apply_opt p s)
         | Some f \<Rightarrow> noiseFileLen (apply_opt p s) + length f)"
    using Cons.prems ok by (intro Cons.IH) (cases p; simp)+
  then obtain s' where "gen_args (concat (map render_opt ps)) (apply_opt p s) = Inr (fname s', Some s')"
     "temp_audio_samples s' = (case times ps of None \<Rightarrow> temp_audio_samples (apply_opt p s) | Some t \<Rightarrow> int t)"
     "temp_noise_level s' = (case levels ps of None \<Rightarrow> temp_noise_level (apply_opt p s) | Some l \<Rightarrow> l)"
     "temp_block_size s' = temp_block_size (apply_opt p s)"
     "fname s' = (case files ps of None \<Rightarrow> fname (apply_opt p s) | Some f \<Rightarrow> Some f)"
     "noiseFileLen s' = (case files ps of None \<Rightarrow> noiseFileLen (apply_opt p s)
         | Some f \<Rightarrow> noiseFileLen (apply_opt p s) + length f)" by blast
  then show ?case unfolding run using Cons.prems
    by (intro exI [of _ s']) (cases p; simp cong: option.case_cong)
qed simp




definition scan_ok :: "scan_state \<Rightarrow> bool" where
  "scan_ok s \<longleftrightarrow> -1 \<le> temp_audio_samples s \<and> temp_audio_samples s \<le> 268435455
     \<and> -30 \<le> temp_noise_level s \<and> temp_noise_level s \<le> 30
     \<and> (temp_block_size s = -1 \<or> 10 \<le> temp_block_size s \<and> temp_block_size s \<le> 1000)
     \<and> (0 < noiseFileLen s \<longrightarrow> nFlagSeen s \<and> (\<exists>f. fname s = Some f \<and> 4 \<le> length f))"

lemma gen_args_ok: "gen_args as s = Inr (nf, Some s') \<Longrightarrow> scan_ok s \<Longrightarrow> scan_ok s'"
proof (induction "as" s rule: gen_args.induct)
  case (2 a as' s)
  obtain len f c where fl: "get_current_flag a (frstChar s) (scndChar s) = (len, f, c)"
    by (cases "get_current_flag a (frstChar s) (scndChar s)") auto
  let ?s1 = "s\<lparr>frstChar := f, scndChar := c\<rparr>"
  have g: "\<not> len > 3" "f = CHR ''-''" using 2(4) fl by (auto simp: Let_def split: if_splits)
  note IH = 2(1-3)
  consider (t) v n r where "as' = v # r" "c = CHR ''t''" "\<not> tFlagSeen s" "get_current_value (Some v) = Some n"
      "0 \<le> n" "n \<le> 268435455"
      "gen_args r (?s1\<lparr>tFlagSeen := True, temp_audio_samples := n\<rparr>) = Inr (nf, Some s')"
    | (l) v n r where "as' = v # r" "\<not> (c = CHR ''t'' \<and> \<not> tFlagSeen s)" "c = CHR ''l''" "\<not> lFlagSeen s"
      "get_current_value (Some v) = Some n" "-30 \<le> n" "n \<le> 30"
      "gen_args r (?s1\<lparr>lFlagSeen := True, temp_noise_level := n\<rparr>) = Inr (nf, Some s')"
    | (n) v r where "as' = v # r" "\<not> (c = CHR ''t'' \<and> \<not> tFlagSeen s)" "\<not> (c = CHR ''l'' \<and> \<not> lFlagSeen s)"
      "c = CHR ''n''" "\<not> nFlagSeen s" "4 \<le> noiseFileLen s + length v"
      "gen_args r (?s1\<lparr>nFlagSeen := True, fname := Some v, noiseFileLen := noiseFileLen s + length v\<rparr>) = Inr (nf, Some s')"
    using 2(4) fl g by (auto simp: Let_def split: if_split_asm list.split_asm option.split_asm)
  then show ?case
  proof cases
    case t
    have "scan_ok (?s1\<lparr>tFlagSeen := True, temp_audio_samples := n\<rparr>)" using 2(5) t by (simp add: scan_ok_def)
    with IH(1) fl g t show ?thesis by auto
  next
    case l
    have "scan_ok (?s1\<lparr>lFlagSeen := True, temp_noise_level := n\<rparr>)" using 2(5) l by (simp add: scan_ok_def)
    with IH(2) fl g l show ?thesis by auto
  next
    case n
    have "scan_ok (?s1\<lparr>nFlagSeen := True, fname := Some v, noiseFileLen := noiseFileLen s + length v\<rparr>)"
      using 2(5) n by (auto simp: scan_ok_def)
    with IH(3) fl g n show ?thesis by auto
  qed
qed auto

lemma det_args_ok: "det_args as s = Some s' \<Longrightarrow> scan_ok s \<Longrightarrow> noiseFileLen s = 0 \<Longrightarrow>
    scan_ok s' \<and> noiseFileLen s' = 0"
proof (induction "as" s rule: det_args.induct)
  case (2 a as' s)
  obtain len f c where fl: "get_current_flag a (frstChar s) (scndChar s) = (len, f, c)"
    by (cases "get_current_flag a (frstChar s) (scndChar s)") auto
  let ?s1 = "s\<lparr>frstChar := f, scndChar := c\<rparr>"
  from 2(2) fl obtain v n r where b: "as' = v # r" "\<not> len > 3" "f = CHR ''-''" "c = CHR ''b''" "\<not> bFlagSeen s"
      "get_current_value (Some v) = Some n" "10 \<le> n" "n \<le> 1000"
      "det_args r (?s1\<lparr>bFlagSeen := True, temp_block_size := n\<rparr>) = Some s'"
    by (auto simp: Let_def split: if_split_asm list.split_asm option.split_asm)
  have "scan_ok (?s1\<lparr>bFlagSeen := True, temp_block_size := n\<rparr>)" using 2(3) b by (simp add: scan_ok_def)
  with 2(1) fl b 2(4) show ?case by auto
qed auto

lemma scan_start_ok: "scan_ok (scan_start f c nf)" "noiseFileLen (scan_start f c nf) = 0"
  by (simp_all add: scan_ok_def scan_start_def)

definition options_ok :: "dtmf_options \<Rightarrow> bool" where
  "options_ok g \<longleftrightarrow> 0 \<le> audio_samples g \<and> audio_samples g \<le> 268435455 \<and> -30 \<le> noise_level g
     \<and> noise_level g \<le> 30 \<and> 10 \<le> block_size g \<and> block_size g \<le> 1000
     \<and> (\<forall>f. noise_file g = Some f \<longrightarrow> 4 \<le> length f)"

lemma set_globals_ok: "scan_ok s \<Longrightarrow> options_ok (set_globals s m g)"
  by (auto simp: scan_ok_def options_ok_def set_globals_def)



end
