(* ===== verification/Dtmf.thy ===== *)
theory Dtmf
  imports Audio Goertzel DtmfArgs
begin

section \<open>Generating and detecting tones (hw1/src/dtmf.c)\<close>

text \<open>
  The streams are those of \<open>Audio\<close>; text streams are strings. A \<open>double\<close> is a real, except that a
  division by zero gives infinity or no number as in C (\<open>ratio_ge\<close>, \<open>ratio_le\<close>), and a \<open>double\<close>
  assigned to an \<open>int16_t\<close> is truncated towards zero and wraps.
\<close>

subsection \<open>Tables\<close>

definition dtmf_freqs :: "int list" where
  "dtmf_freqs = [697, 770, 852, 941, 1209, 1336, 1477, 1633]"

definition dtmf_symbol_names :: "string list" where
  "dtmf_symbol_names = [''123A'', ''456B'', ''789C'', ''*0#D'']"

text \<open>\<open>*dtmf_symbol_names\<close> advanced by \<open>i\<close>: the table read as one array.\<close>

definition symbol_at :: "int \<Rightarrow> char outcome" where
  "symbol_at i = (let t = concat dtmf_symbol_names in
     if 0 \<le> i \<and> i < int (length t) then Inr (t ! nat i) else Inl MemFault)"

definition getCurFreqColRow :: "char \<Rightarrow> int \<times> real \<times> real" where
  "getCurFreqColRow c =
     (if c = CHR ''1'' then (1, 697, 1209) else if c = CHR ''2'' then (1, 697, 1336)
      else if c = CHR ''3'' then (1, 697, 1477) else if c = CHR ''A'' then (1, 697, 1633)
      else if c = CHR ''4'' then (1, 770, 1209) else if c = CHR ''5'' then (1, 770, 1336)
      else if c = CHR ''6'' then (1, 770, 1477) else if c = CHR ''B'' then (1, 770, 1633)
      else if c = CHR ''7'' then (1, 852, 1209) else if c = CHR ''8'' then (1, 852, 1336)
      else if c = CHR ''9'' then (1, 852, 1477) else if c = CHR ''C'' then (1, 852, 1633)
      else if c = CHR ''*'' then (1, 941, 1209) else if c = CHR ''0'' then (1, 941, 1336)
      else if c = CHR ''#'' then (1, 941, 1477) else if c = CHR ''D'' then (1, 941, 1633)
      else (0, 0, 0))"

definition get_noise_w :: "int \<Rightarrow> real" where
  "get_noise_w level = 10 powr (real_of_int level / 10) / (1 + 10 powr (real_of_int level / 10))"

definition getMax :: "real \<Rightarrow> real \<Rightarrow> real" where
  "getMax d1 d2 = (if d1 > d2 then d1 else d2)"

subsection \<open>dtmf_generate\<close>

definition LINE_BUF_SIZE :: nat where "LINE_BUF_SIZE = 80"

text \<open>\<open>fgets\<close> leaves what was in the buffer after the terminating NUL.\<close>

fun line_len :: "nat \<Rightarrow> string \<Rightarrow> nat" where
  "line_len 0 s = 0"
| "line_len (Suc n) [] = 0"
| "line_len (Suc n) (c # s) = (if c = nl then 1 else Suc (line_len n s))"

definition fgets :: "string \<Rightarrow> string \<Rightarrow> (string \<times> string) option" where
  "fgets buf s = (if s = [] then None
     else (let k = line_len (LINE_BUF_SIZE - 1) s
           in Some (take k s @ [CHR 0x00] @ drop (k + 1) buf, drop k s)))"

text \<open>The condition of the loop is always true; it ends at the first character that is not a digit.\<close>

fun idx_loop :: "string \<Rightarrow> int \<Rightarrow> nat \<Rightarrow> (nat \<times> int) outcome" where
  "idx_loop [] v count = Inl MemFault"
| "idx_loop (c # s) v count =
     (if c_char c > 57 \<or> c_char c < 48 then Inr (count, c_div v 10)
      else idx_loop s (wrap32 (wrap32 (v + (c_char c - 48)) * 10)) (count + 1))"

definition get_txt_idx :: "string \<Rightarrow> (nat \<times> int) outcome" where
  "get_txt_idx valPtr = idx_loop valPtr 0 0"

definition tone :: "real \<Rightarrow> real \<Rightarrow> int \<Rightarrow> real" where
  "tone row col i = cos ((2 * pi * row * real_of_int i) / 8000) * 0.5
     + cos ((2 * pi * col * real_of_int i) / 8000) * 0.5"

definition to_int16 :: "real \<Rightarrow> 16 word" where
  "to_int16 x = word_of_int (c_trunc x)"

text \<open>The noise file, when it could be opened, with the last sample read from it.\<close>

type_synonym noise = "byte list option \<times> 16 word"

definition next_noise :: "noise \<Rightarrow> 16 word \<times> noise" where
  "next_noise n = (case n of (None, c) \<Rightarrow> (c, n)
     | (Some s, c) \<Rightarrow> (case audio_read_sample s c of (_, c', s') \<Rightarrow> (c', (Some s', c'))))"

definition mixed_sample :: "real \<Rightarrow> real \<Rightarrow> noise \<Rightarrow> 16 word \<times> noise" where
  "mixed_sample w d n =
     (if fst n \<noteq> None then
        let (c, n') = next_noise n; dnoise = real_of_int (sint c) * w
        in (to_int16 ((d * (1 - w) + dnoise * w) * 32767), n')
      else (to_int16 (d * 32767), n))"

fun gap_loop :: "nat \<Rightarrow> real \<Rightarrow> byte list \<Rightarrow> noise \<Rightarrow> byte list \<times> noise" where
  "gap_loop 0 w out n = (out, n)"
| "gap_loop (Suc k) w out n =
     (if fst n \<noteq> None then
        let (s, n') = mixed_sample w 0 n in gap_loop k w (audio_write_sample out s) n'
      else gap_loop k w (audio_write_sample out 0) n)"

fun tone_loop :: "nat \<Rightarrow> int \<Rightarrow> real \<Rightarrow> real \<Rightarrow> real \<Rightarrow> byte list \<Rightarrow> noise \<Rightarrow> byte list \<times> noise" where
  "tone_loop 0 i row col w out n = (out, n)"
| "tone_loop (Suc k) i row col w out n =
     (let (s, n') = mixed_sample w (tone row col i) n
      in tone_loop k (i + 1) row col w (audio_write_sample out s) n')"

record gen_state =
  prevStrIdx :: int
  prevEndIdx :: int
  prevValChangeOnce :: bool
  gen_line :: string
  gen_out :: "byte list"
  gen_noise :: noise

text \<open>One line of the event file; \<open>False\<close> is the return of EOF, what has been written stays.\<close>

definition gen_line_step :: "real \<Rightarrow> gen_state \<Rightarrow> (bool \<times> gen_state) outcome" where
  "gen_line_step w g =
     obind (get_txt_idx (gen_line g)) (\<lambda>(k1, curStrIdx).
     obind (get_txt_idx (drop (k1 + 1) (gen_line g))) (\<lambda>(k2, curEndIdx).
     let rest = drop (k1 + 1 + (k2 + 1)) (gen_line g) in
     if rest = [] then Inl MemFault else
     let (_, row, col) = getCurFreqColRow (rest ! 0) in
     if curEndIdx < curStrIdx then Inr (False, g)
     else if prevStrIdx g \<noteq> -1 \<and> prevEndIdx g \<noteq> -1 \<and> curStrIdx < prevEndIdx g then Inr (False, g)
     else
       let g1 = (if \<not> (prevStrIdx g \<noteq> -1 \<and> prevEndIdx g \<noteq> -1) \<and> prevValChangeOnce g \<and> curStrIdx > 0
                 then g\<lparr>prevStrIdx := 0, prevEndIdx := 0, prevValChangeOnce := False\<rparr> else g);
           (o1, n1) = (if prevStrIdx g1 \<noteq> -1 \<and> prevEndIdx g1 \<noteq> -1
                       then gap_loop (nat (curStrIdx - prevEndIdx g1)) w (gen_out g1) (gen_noise g1)
                       else (gen_out g1, gen_noise g1));
           (o2, n2) = tone_loop (nat (curEndIdx - curStrIdx)) curStrIdx row col w o1 n1
       in Inr (True, g1\<lparr>prevStrIdx := curStrIdx, prevEndIdx := curEndIdx, gen_out := o2, gen_noise := n2\<rparr>)))"

lemma line_len_pos: "s \<noteq> [] \<Longrightarrow> 0 < line_len (Suc n) s"
  by (cases s) auto

function gen_loop :: "real \<Rightarrow> string \<Rightarrow> gen_state \<Rightarrow> (bool \<times> gen_state) outcome" where
  "gen_loop w events g = (case fgets (gen_line g) events of
     None \<Rightarrow> Inr (True, g)
   | Some (buf, events') \<Rightarrow>
       (case gen_line_step w (g\<lparr>gen_line := buf\<rparr>) of
          Inl e \<Rightarrow> Inl e
        | Inr (go_on, g') \<Rightarrow> if go_on then gen_loop w events' g' else Inr (False, g')))"
  by pat_completeness auto

termination
proof (relation "measure (\<lambda>(w, ev, g). length ev)")
  fix w ev g x buf ev' y go_on g'
  assume a: "fgets (gen_line g) ev = Some x" "(buf, ev') = x"
  then have ne: "ev \<noteq> []" by (auto simp: fgets_def split: if_splits)
  then have "0 < line_len (Suc 78) ev" by (rule line_len_pos)
  then show "((w, ev', g'), w, ev, g) \<in> measure (\<lambda>(w, ev, g). length ev)"
    using a ne by (auto simp: fgets_def LINE_BUF_SIZE_def Let_def)
qed auto

declare gen_loop.simps [simp del]

fun zero_loop :: "nat \<Rightarrow> byte list \<Rightarrow> byte list" where
  "zero_loop 0 out = out"
| "zero_loop (Suc k) out = zero_loop k (audio_write_sample out 0)"

text \<open>
  \<open>open_file\<close> is \<open>fopen(_, "r")\<close>: the bytes of a file, \<open>None\<close> for NULL. \<open>len\<close> is the number of samples;
  the result is the return value and the bytes written.
\<close>

definition dtmf_generate :: "(string option \<Rightarrow> byte list option) \<Rightarrow> dtmf_options \<Rightarrow> string \<Rightarrow> string \<Rightarrow>
    32 word \<Rightarrow> (int \<times> byte list) outcome" where
  "dtmf_generate open_file g line_buf events len =
     (if noise_file g \<noteq> None \<and> open_file (noise_file g) = None then Inr (EOF, [])
      else
        let ah = \<lparr>magic_number = AUDIO_MAGIC, data_offset = AUDIO_DATA_OFFSET, data_size = len * 2,
                  encoding = PCM16_ENCODING, sample_rate = AUDIO_FRAME_RATE, channels = AUDIO_CHANNELS\<rparr>;
            out0 = snd (audio_write_header (Some []) False ah);
            w = get_noise_w (noise_level g);
            g0 = \<lparr>prevStrIdx = -1, prevEndIdx = -1, prevValChangeOnce = True, gen_line = line_buf,
                  gen_out = out0, gen_noise = (open_file (noise_file g), 0)\<rparr>
        in obind (gen_loop w events g0) (\<lambda>(finished, s).
             if \<not> finished then Inr (EOF, gen_out s)
             else
               let curDataSz = c_div (sint (data_size ah)) 2
               in Inr (0, zero_loop (nat (curDataSz - prevEndIdx s)) (gen_out s))))"

subsection \<open>dtmf_detect\<close>

definition ratio_ge :: "real \<Rightarrow> real \<Rightarrow> real \<Rightarrow> bool" where
  "ratio_ge a b c = (if b = 0 then a > 0 else a / b \<ge> c)"

definition ratio_le :: "real \<Rightarrow> real \<Rightarrow> real \<Rightarrow> bool" where
  "ratio_le a b c = (if b = 0 then a < 0 else a / b \<le> c)"

definition FOUR_DB :: real where "FOUR_DB = 2.51188643151"
definition SIX_DB :: real where "SIX_DB = 3.981071706"
definition MINUS_20DB :: real where "MINUS_20DB = 0.01"
definition MIN_DTMF_DURATION :: real where "MIN_DTMF_DURATION = 0.03"

definition check_SIX_DB :: "real \<Rightarrow> real \<Rightarrow> real \<Rightarrow> real \<Rightarrow> bool" where
  "check_SIX_DB m a b c = (ratio_ge m a SIX_DB \<and> ratio_ge m b SIX_DB \<and> ratio_ge m c SIX_DB)"

text \<open>The strongest of four and, when it beats each of the others by 6 dB, its index.\<close>

definition pick_tone :: "real \<Rightarrow> real \<Rightarrow> real \<Rightarrow> real \<Rightarrow> real \<times> int option" where
  "pick_tone a b c d =
     (let m = getMax (getMax a b) (getMax c d) in
      (m, if m = a then (if check_SIX_DB a b c d then Some 0 else None)
          else if m = b then (if check_SIX_DB b a c d then Some 1 else None)
          else if m = c then (if check_SIX_DB c a b d then Some 2 else None)
          else (if check_SIX_DB d a b c then Some 3 else None)))"

record det_state =
  curBlockSize :: int
  startIdx :: int
  endIdx :: int
  curIdx :: int
  prevRowTone :: int
  prevColTone :: int
  curRowTone :: int
  curColTone :: int
  det_out :: string

text \<open>
  The samples of a block but the last, stepping the eight filters; \<open>True\<close> when the sample -1, taken
  for the end of the stream, stopped it.
\<close>

fun block_loop :: "nat \<Rightarrow> goertzel_state list \<Rightarrow> 16 word \<Rightarrow> int \<Rightarrow> byte list \<Rightarrow>
    goertzel_state list \<times> 16 word \<times> int \<times> bool \<times> byte list" where
  "block_loop 0 gs curX bsz s = (gs, curX, bsz, False, s)"
| "block_loop (Suc k) gs curX bsz s =
     (case audio_read_sample s curX of (_, x, s') \<Rightarrow>
        if sint x = -1 then (gs, x, bsz + 1, True, s')
        else block_loop k (map (\<lambda>g. goertzel_step g (real_of_int (sint x) / 32767)) gs) x (bsz + 1) s')"

definition event_line :: "int \<Rightarrow> int \<Rightarrow> char \<Rightarrow> string" where
  "event_line a b c = show_int a @ [tab] @ show_int b @ [tab, c, nl]"

text \<open>What is done with the eight strengths of a block.\<close>

definition classify :: "int \<Rightarrow> real list \<Rightarrow> det_state \<Rightarrow> det_state outcome" where
  "classify N str d =
     (let (curStrongRow, row) = pick_tone (str ! 0) (str ! 1) (str ! 2) (str ! 3);
          (curStrongCol, col) = pick_tone (str ! 4) (str ! 5) (str ! 6) (str ! 7);
          d1 = d\<lparr>curRowTone := (case row of None \<Rightarrow> curRowTone d | Some r \<Rightarrow> 4 * r),
                 curColTone := (case col of None \<Rightarrow> curColTone d | Some c \<Rightarrow> c)\<rparr> in
      if curStrongRow + curStrongCol \<ge> MINUS_20DB \<and> ratio_ge curStrongRow curStrongCol (FOUR_DB * 0.01)
         \<and> ratio_le curStrongRow curStrongCol FOUR_DB \<and> row \<noteq> None \<and> col \<noteq> None then
        if prevRowTone d1 = -1 \<and> prevColTone d1 = -1 then
          Inr (d1\<lparr>prevRowTone := curRowTone d1, prevColTone := curColTone d1\<rparr>)
        else if curRowTone d1 = prevRowTone d1 \<and> curColTone d1 = prevColTone d1 then
          Inr (d1\<lparr>endIdx := curIdx d1\<rparr>)
        else
          obind (symbol_at (prevRowTone d1 + prevColTone d1)) (\<lambda>c.
            let blockLen = real_of_int (endIdx d1 - startIdx d1);
                d2 = (if blockLen / 8000 \<ge> MIN_DTMF_DURATION
                      then d1\<lparr>det_out := det_out d1 @ event_line (startIdx d1) (endIdx d1) c\<rparr> else d1)
            in Inr (d2\<lparr>prevRowTone := curRowTone d2, prevColTone := curColTone d2,
                       startIdx := wrap16 (curIdx d2 - N), endIdx := curIdx d2\<rparr>))
      else Inr d1)"

text \<open>One round of the outer loop; the flag is whether it goes on.\<close>

definition detect_round :: "nat \<Rightarrow> byte list \<Rightarrow> det_state \<Rightarrow> (bool \<times> byte list \<times> det_state) outcome" where
  "detect_round N s d =
     (let gs = map (\<lambda>f. goertzel_init (of_nat N) ((real_of_int f * real N) / 8000)) dtmf_freqs;
          (gs1, x, bsz, stop, s1) = block_loop (N - 1) gs 0 (curBlockSize d) s in
      if bsz < int N - 1 then Inr (False, s1, d\<lparr>curBlockSize := bsz\<rparr>)
      else
        let d1 = d\<lparr>curBlockSize := 1, curIdx := wrap16 (curIdx d + int N)\<rparr>;
            (_, x2, s2) = audio_read_sample s1 x;
            str = map (\<lambda>g. fst (goertzel_strength g (real_of_int (sint x2) / 32767))) gs1
        in obind (classify (int N) str d1) (\<lambda>d2. Inr (\<not> stop, s2, d2)))"

fun detect_loop :: "nat \<Rightarrow> nat \<Rightarrow> byte list \<Rightarrow> det_state \<Rightarrow> det_state outcome" where
  "detect_loop 0 N s d = Inl OutOfFuel"
| "detect_loop (Suc n) N s d = obind (detect_round N s d) (\<lambda>(go, s', d').
     if go then detect_loop n N s' d' else Inr d')"

text \<open>\<open>fuel\<close> bounds the number of blocks; one more than the bytes of the stream is enough (\<open>detect_total\<close>).\<close>

definition dtmf_detect :: "nat \<Rightarrow> dtmf_options \<Rightarrow> byte list \<Rightarrow> audio_header \<Rightarrow> (int \<times> string) outcome" where
  "dtmf_detect fuel g audio_in h0 =
     (case audio_read_header (Some audio_in) h0 of (r, h, s) \<Rightarrow>
        if r = EOF then Inr (EOF, [])
        else obind (detect_loop fuel (nat (block_size g)) s
               \<lparr>curBlockSize = 0, startIdx = 0, endIdx = 0, curIdx = 0, prevRowTone = -1, prevColTone = -1,
                curRowTone = -1, curColTone = -1, det_out = []\<rparr>) (\<lambda>d.
             if endIdx d > 0 then
               obind (symbol_at (curRowTone d + curColTone d)) (\<lambda>c.
                 Inr (0, det_out d @ event_line (startIdx d) (endIdx d) c))
             else Inr (0, det_out d)))"

subsection \<open>Lemmas: detect\<close>

definition det_ok :: "det_state \<Rightarrow> bool" where
  "det_ok d \<longleftrightarrow> curRowTone d \<in> {-1, 0, 4, 8, 12} \<and> curColTone d \<in> {-1, 0, 1, 2, 3}
     \<and> ((prevRowTone d = -1 \<and> prevColTone d = -1 \<and> endIdx d = 0)
        \<or> (prevRowTone d \<in> {0, 4, 8, 12} \<and> prevColTone d \<in> {0, 1, 2, 3}
            \<and> curRowTone d \<noteq> -1 \<and> curColTone d \<noteq> -1))"

lemma pick_tone_index: "snd (pick_tone a b c d) \<in> {None, Some 0, Some 1, Some 2, Some 3}"
  by (simp add: pick_tone_def Let_def)

lemma symbol_at_ok: "r \<in> {0, 4, 8, 12} \<Longrightarrow> c \<in> {0, 1, 2, 3} \<Longrightarrow> \<exists>x. symbol_at (r + c) = Inr x"
  by (auto simp: symbol_at_def dtmf_symbol_names_def Let_def)

lemma det_ok_upd:
  "det_ok (d\<lparr>curBlockSize := x\<rparr>) = det_ok d" "det_ok (d\<lparr>curIdx := x\<rparr>) = det_ok d"
  by (simp_all add: det_ok_def)

lemma classify_ok:
  assumes "det_ok d"
  shows "\<exists>d'. classify N str d = Inr d' \<and> det_ok d'"
proof -
  obtain mr row where r: "pick_tone (str ! 0) (str ! 1) (str ! 2) (str ! 3) = (mr, row)" by force
  obtain mc col where c: "pick_tone (str ! 4) (str ! 5) (str ! 6) (str ! 7) = (mc, col)" by force
  have ri: "row \<in> {None, Some 0, Some 1, Some 2, Some 3}" "col \<in> {None, Some 0, Some 1, Some 2, Some 3}"
    using pick_tone_index [of "str ! 0" "str ! 1" "str ! 2" "str ! 3"]
      pick_tone_index [of "str ! 4" "str ! 5" "str ! 6" "str ! 7"] r c by auto
  let ?d1 = "d\<lparr>curRowTone := (case row of None \<Rightarrow> curRowTone d | Some r \<Rightarrow> 4 * r),
                 curColTone := (case col of None \<Rightarrow> curColTone d | Some c \<Rightarrow> c)\<rparr>"
  have d1: "det_ok ?d1"
  proof -
    have "(case row of None \<Rightarrow> curRowTone d | Some r \<Rightarrow> 4 * r) \<in> {-1, 0, 4, 8, 12}"
      "(case col of None \<Rightarrow> curColTone d | Some c \<Rightarrow> c) \<in> {-1, 0, 1, 2, 3}"
      "curRowTone d \<noteq> -1 \<Longrightarrow> (case row of None \<Rightarrow> curRowTone d | Some r \<Rightarrow> 4 * r) \<noteq> -1"
      "curColTone d \<noteq> -1 \<Longrightarrow> (case col of None \<Rightarrow> curColTone d | Some c \<Rightarrow> c) \<noteq> -1"
      using assms ri unfolding det_ok_def by (elim insertE conjE emptyE; simp)+
    note rc = this
    from assms consider "prevRowTone d = -1 \<and> prevColTone d = -1 \<and> endIdx d = 0"
      | "prevRowTone d \<in> {0, 4, 8, 12} \<and> prevColTone d \<in> {0, 1, 2, 3}
            \<and> curRowTone d \<noteq> -1 \<and> curColTone d \<noteq> -1"
      unfolding det_ok_def by blast
    then show ?thesis
    proof cases
      case 1
      then show ?thesis using rc(1,2) by (simp add: det_ok_def)
    next
      case 2
      then show ?thesis using rc by (simp add: det_ok_def)
    qed
  qed
  show ?thesis
  proof (cases "mr + mc \<ge> MINUS_20DB \<and> ratio_ge mr mc (FOUR_DB * 0.01) \<and> ratio_le mr mc FOUR_DB
      \<and> row \<noteq> None \<and> col \<noteq> None")
    case False
    then show ?thesis using d1 unfolding classify_def Let_def r c prod.case if_not_P [OF False] by simp
  next
    case True
    then obtain i j where ij: "row = Some i" "col = Some j" by auto
    let ?e = "d\<lparr>curRowTone := 4 * i, curColTone := j\<rparr>"
    have e: "?d1 = ?e" by (simp add: ij)
    have v: "4 * i \<in> {0, 4, 8, 12}" "j \<in> {0, 1, 2, 3}" using ri by (auto simp: ij)
    then have nm: "4 * i \<noteq> -1" "j \<noteq> -1" by auto
    have cl: "classify N str d = (if prevRowTone ?e = -1 \<and> prevColTone ?e = -1 then
          Inr (?e\<lparr>prevRowTone := 4 * i, prevColTone := j\<rparr>)
        else if 4 * i = prevRowTone d \<and> j = prevColTone d then Inr (?e\<lparr>endIdx := curIdx d\<rparr>)
        else obind (symbol_at (prevRowTone d + prevColTone d)) (\<lambda>c.
            let d2 = (if real_of_int (endIdx d - startIdx d) / 8000 \<ge> MIN_DTMF_DURATION
                      then ?e\<lparr>det_out := det_out d @ event_line (startIdx d) (endIdx d) c\<rparr> else ?e)
            in Inr (d2\<lparr>prevRowTone := 4 * i, prevColTone := j,
                       startIdx := wrap16 (curIdx d - N), endIdx := curIdx d\<rparr>)))"
      unfolding classify_def Let_def r c prod.case if_P [OF True] e
      by (auto intro!: arg_cong [where f = "obind (symbol_at (prevRowTone d + prevColTone d))"])
    show ?thesis
    proof (cases "prevRowTone d = -1 \<and> prevColTone d = -1")
      case p: True
      have "det_ok (?e\<lparr>prevRowTone := 4 * i, prevColTone := j\<rparr>)"
        using v nm by (simp add: det_ok_def)
      then show ?thesis using cl p by simp
    next
      case p: False
      then have pv: "prevRowTone d \<in> {0, 4, 8, 12}" "prevColTone d \<in> {0, 1, 2, 3}"
        using assms unfolding det_ok_def by blast+
      then obtain x where x: "symbol_at (prevRowTone d + prevColTone d) = Inr x" using symbol_at_ok by blast
      have k1: "det_ok (?e\<lparr>endIdx := y\<rparr>)" for y using v nm pv by (simp add: det_ok_def)
      have k2: "det_ok (?e\<lparr>prevRowTone := 4 * i, prevColTone := j, startIdx := a, endIdx := b\<rparr>)"
        "det_ok (?e\<lparr>det_out := o', prevRowTone := 4 * i, prevColTone := j, startIdx := a, endIdx := b\<rparr>)"
        for a b o' using v nm by (simp_all add: det_ok_def)
      have np: "\<not> (prevRowTone ?e = -1 \<and> prevColTone ?e = -1)" using p by simp
      show ?thesis
        unfolding cl x if_not_P [OF np]
        by (rule if_split [where P = "\<lambda>z. \<exists>d'. z = Inr d' \<and> det_ok d'", THEN iffD2])
          (use k1 k2 in \<open>auto simp: Let_def\<close>)
    qed
  qed
qed

lemma sample_shorter:
  "audio_read_sample s c = (r, x, s') \<Longrightarrow> length s' \<le> length s \<and> (s \<noteq> [] \<longrightarrow> length s' < length s) \<and>
   (s = [] \<longrightarrow> x = -1)"
proof (cases s)
  case Nil
  assume "audio_read_sample s c = (r, x, s')"
  then show ?thesis using Nil by (auto simp: audio_read_sample_def EOF_def)
next
  case (Cons a t)
  assume a: "audio_read_sample s c = (r, x, s')"
  show ?thesis
  proof (cases t)
    case Nil
    then show ?thesis using a Cons byte_not_eof [of a] by (auto simp: audio_read_sample_def Let_def EOF_def)
  next
    case (Cons b u)
    then show ?thesis using a \<open>s = a # t\<close> by (auto simp: read_sample_bytes)
  qed
qed

lemma block_loop_length:
  "block_loop k gs c b s = (gs', x, b', stop, s') \<Longrightarrow>
   length s' \<le> length s \<and> (0 < k \<and> \<not> stop \<longrightarrow> length s' < length s)"
proof (induction k arbitrary: gs c b s)
  case (Suc k)
  obtain r x1 s1 where rd: "audio_read_sample s c = (r, x1, s1)" by (cases "audio_read_sample s c") auto
  note sh = sample_shorter [OF rd]
  show ?case
  proof (cases "sint x1 = -1")
    case True
    then show ?thesis using Suc.prems rd sh by auto
  next
    case False
    then have "s \<noteq> []" using sh by auto
    moreover have "length s' \<le> length s1" using Suc.prems rd False Suc.IH by fastforce
    ultimately show ?thesis using sh by auto
  qed
qed auto

lemma detect_round_ok:
  assumes "det_ok d" and "2 \<le> N"
  shows "\<exists>go s' d'. detect_round N s d = Inr (go, s', d') \<and> det_ok d' \<and> (go \<longrightarrow> length s' < length s)"
proof -
  let ?gs = "map (\<lambda>f. goertzel_init (of_nat N) ((real_of_int f * real N) / 8000)) dtmf_freqs"
  obtain gs1 x bsz stop s1 where b: "block_loop (N - 1) ?gs 0 (curBlockSize d) s = (gs1, x, bsz, stop, s1)"
    by (cases "block_loop (N - 1) ?gs 0 (curBlockSize d) s") auto
  obtain r x2 s2 where rd: "audio_read_sample s1 x = (r, x2, s2)" by (cases "audio_read_sample s1 x") auto
  let ?d1 = "d\<lparr>curBlockSize := 1, curIdx := wrap16 (curIdx d + int N)\<rparr>"
  let ?str = "map (\<lambda>g. fst (goertzel_strength g (real_of_int (sint x2) / 32767))) gs1"
  have "det_ok ?d1" using assms(1) by (simp add: det_ok_def)
  then obtain d2 where d2: "classify (int N) ?str ?d1 = Inr d2" "det_ok d2" using classify_ok by blast
  have "length s2 \<le> length s1" using sample_shorter [OF rd] by simp
  moreover have "\<not> stop \<longrightarrow> length s1 < length s" using block_loop_length [OF b] assms(2) by simp
  ultimately show ?thesis
    using b rd d2 assms(1) by (cases "bsz < int N - 1") (auto simp: detect_round_def Let_def det_ok_upd)
qed

lemma detect_total:
  "det_ok d \<Longrightarrow> 2 \<le> N \<Longrightarrow> length s < fuel \<Longrightarrow> \<exists>d'. detect_loop fuel N s d = Inr d' \<and> det_ok d'"
proof (induction fuel arbitrary: s d)
  case (Suc fuel)
  from detect_round_ok [OF Suc.prems(1,2), of s] obtain go s' d'
    where r: "detect_round N s d = Inr (go, s', d')" "det_ok d'" "go \<longrightarrow> length s' < length s" by blast
  show ?case
  proof (cases go)
    case True
    with Suc.IH [OF r(2) Suc.prems(2), of s'] r Suc.prems(3) show ?thesis by simp
  next
    case False
    then show ?thesis using r by simp
  qed
qed simp

lemma skip_bytes_length: "length (skip_bytes n s) \<le> length s"
proof (induction n arbitrary: s)
  case (Suc n)
  have "length (snd (fgetc s)) \<le> length s" by (cases s) (auto simp: fgetc_def)
  then show ?case using Suc.IH [of "snd (fgetc s)"] by simp
qed simp

lemma traverse_length: "traverse_audio_file_header s = (v, s') \<Longrightarrow> length s' \<le> length s"
proof -
  have f: "fgetc t = (c, u) \<Longrightarrow> length u \<le> length t" for t c u by (cases t) (auto simp: fgetc_def)
  assume a: "traverse_audio_file_header s = (v, s')"
  obtain c1 s1 where 1: "fgetc s = (c1, s1)" by (cases "fgetc s")
  obtain c2 s2 where 2: "fgetc s1 = (c2, s2)" by (cases "fgetc s1")
  obtain c3 s3 where 3: "fgetc s2 = (c3, s3)" by (cases "fgetc s2")
  obtain c4 s4 where 4: "fgetc s3 = (c4, s4)" by (cases "fgetc s3")
  show ?thesis using a f [OF 1] f [OF 2] f [OF 3] f [OF 4]
    by (simp add: traverse_audio_file_header_def Let_def 1 2 3 4)
qed

lemma read_header_length:
  assumes a: "audio_read_header (Some bs) h = (r, h', s)"
  shows "length s \<le> length bs"
proof -
  obtain v1 s1 where 1: "traverse_audio_file_header bs = (v1, s1)" by (cases "traverse_audio_file_header bs")
  obtain v2 s2 where 2: "traverse_audio_file_header s1 = (v2, s2)" by (cases "traverse_audio_file_header s1")
  obtain v3 s3 where 3: "traverse_audio_file_header s2 = (v3, s3)" by (cases "traverse_audio_file_header s2")
  obtain v4 s4 where 4: "traverse_audio_file_header s3 = (v4, s4)" by (cases "traverse_audio_file_header s3")
  obtain v5 s5 where 5: "traverse_audio_file_header s4 = (v5, s5)" by (cases "traverse_audio_file_header s4")
  obtain v6 s6 where 6: "traverse_audio_file_header s5 = (v6, s6)" by (cases "traverse_audio_file_header s5")
  have "length s \<le> length s6"
    using a skip_bytes_length by (auto simp: audio_read_header_def Let_def 1 2 3 4 5 6 split: if_splits)
  then show ?thesis
    using traverse_length [OF 1] traverse_length [OF 2] traverse_length [OF 3]
      traverse_length [OF 4] traverse_length [OF 5] traverse_length [OF 6] by simp
qed

lemma det_start: "det_ok \<lparr>curBlockSize = 0, startIdx = 0, endIdx = 0, curIdx = 0, prevRowTone = -1, prevColTone = -1,
                curRowTone = -1, curColTone = -1, det_out = []\<rparr>"
  by (simp add: det_ok_def)

text \<open>
  C32. Detection always returns, for any input whatsoever: with a block size of at least 2 and fuel for
  one block more than the input has bytes, \<open>dtmf_detect\<close> neither runs on nor reads outside its
  table of symbols; it returns EOF and no event exactly when the header is refused, and 0 otherwise.
\<close>

theorem dtmf_detect_total:
  assumes "2 \<le> block_size g" and "length audio_in < fuel"
  shows "\<exists>r out. dtmf_detect fuel g audio_in h0 = Inr (r, out)
    \<and> (fst (audio_read_header (Some audio_in) h0) = EOF \<longrightarrow> r = EOF \<and> out = [])
    \<and> (fst (audio_read_header (Some audio_in) h0) \<noteq> EOF \<longrightarrow> r = 0)"
proof -
  obtain r h s where rd: "audio_read_header (Some audio_in) h0 = (r, h, s)"
    by (cases "audio_read_header (Some audio_in) h0") auto
  show ?thesis
  proof (cases "r = EOF")
    case False
    have N: "2 \<le> nat (block_size g)" using assms(1) by simp
    have L: "length s < fuel" using read_header_length [OF rd] assms(2) by simp
    obtain d where d: "detect_loop fuel (nat (block_size g)) s \<lparr>curBlockSize = 0, startIdx = 0, endIdx = 0,
        curIdx = 0, prevRowTone = -1, prevColTone = -1, curRowTone = -1, curColTone = -1, det_out = []\<rparr> = Inr d"
      and ok: "det_ok d" using detect_total [OF det_start N L] by blast
    show ?thesis
    proof (cases "endIdx d > 0")
      case True
      then have "curRowTone d \<in> {0, 4, 8, 12}" "curColTone d \<in> {0, 1, 2, 3}" using ok by (auto simp: det_ok_def)
      then obtain c where "symbol_at (curRowTone d + curColTone d) = Inr c" using symbol_at_ok by blast
      then show ?thesis using False True d by (simp add: dtmf_detect_def rd)
    next
      case e: False
      then show ?thesis using False d by (simp add: dtmf_detect_def rd)
    qed
  qed (simp add: dtmf_detect_def rd)
qed

theorem dtmf_detect_total_witness:
  "\<exists>r out. dtmf_detect 100 \<lparr>global_options = 4, noise_file = None, noise_level = 0, block_size = 100,
      audio_samples = 0\<rparr> [1, 2, 3] \<lparr>magic_number = 0, data_offset = 0, data_size = 0, encoding = 0,
      sample_rate = 0, channels = 0\<rparr> = Inr (r, out)"
  using dtmf_detect_total [of "\<lparr>global_options = 4, noise_file = None, noise_level = 0, block_size = 100,
      audio_samples = 0\<rparr>" "[1, 2, 3]" 100] by fastforce

end
