(* ===== verification/Rio.thy ===== *)
theory Rio
  imports Protocol "HOL-Library.Sublist"
begin

section \<open>Buffered robust input (hw5/src/csapp.c)\<close>

text \<open>
  \<open>rio_read\<close>, \<open>rio_readnb\<close> and \<open>rio_readlineb\<close> over the events of a descriptor (theory \<open>Protocol\<close>). The
  pointer into the internal buffer is an index; a copy that leaves the buffer is a fault.
\<close>

subsection \<open>State and operations\<close>

definition RIO_BUFSIZE :: nat where "RIO_BUFSIZE = 8192"

record rio_t =
  rio_cnt :: int
  rio_bufptr :: nat
  rio_buf :: "byte list"

text \<open>The buffer is an array of \<open>RIO_BUFSIZE\<close> bytes, which \<open>rio_readinitb\<close> does not touch.\<close>

definition rio_readinitb :: "byte list \<Rightarrow> rio_t" where
  "rio_readinitb buf = \<lparr>rio_cnt = 0, rio_bufptr = 0, rio_buf = buf\<rparr>"

text \<open>
  One call of \<open>read\<close> for the whole buffer: what does not fit stays for the next call. The number is 1
  when the loop ends with bytes in the buffer, else what \<open>rio_read\<close> returns (0 at the end of file, -1).
\<close>

fun rio_refill :: "rio_t \<Rightarrow> rd_event list \<Rightarrow> int \<times> rio_t \<times> rd_event list" where
  "rio_refill rp [] = (if rio_cnt rp > 0 then (1, rp, []) else (0, rp\<lparr>rio_cnt := 0\<rparr>, []))"
| "rio_refill rp (e # es) =
     (if rio_cnt rp > 0 then (1, rp, e # es)
      else (case e of
         RdEintr \<Rightarrow> rio_refill (rp\<lparr>rio_cnt := -1\<rparr>) es
       | RdErr \<Rightarrow> (-1, rp\<lparr>rio_cnt := -1\<rparr>, es)
       | Data bs \<Rightarrow>
           if bs = [] then (0, rp\<lparr>rio_cnt := 0\<rparr>, es)
           else let k = min (length bs) RIO_BUFSIZE in
             (1, rp\<lparr>rio_cnt := int k, rio_buf := take k bs @ drop k (rio_buf rp), rio_bufptr := 0\<rparr>,
              if k < length bs then Data (drop k bs) # es else es)))"

text \<open>The return value, and the bytes copied to the user.\<close>

definition rio_read :: "rio_t \<Rightarrow> nat \<Rightarrow> rd_event list \<Rightarrow> ((int \<times> byte list) \<times> rio_t \<times> rd_event list) outcome" where
  "rio_read rp n es = (case rio_refill rp es of (r, rp1, es1) \<Rightarrow>
     if r \<le> 0 then Inr ((r, []), rp1, es1)
     else
       let cnt = (if rio_cnt rp1 < int n then nat (rio_cnt rp1) else n) in
       if rio_bufptr rp1 + cnt > length (rio_buf rp1) then Inl MemFault
       else Inr ((int cnt, take cnt (drop (rio_bufptr rp1) (rio_buf rp1))),
              rp1\<lparr>rio_bufptr := rio_bufptr rp1 + cnt, rio_cnt := rio_cnt rp1 - int cnt\<rparr>, es1))"

text \<open>\<open>None\<close> is the return of -1; otherwise the bytes put into the buffer.\<close>

function rio_readnb_loop :: "rio_t \<Rightarrow> nat \<Rightarrow> byte list \<Rightarrow> rd_event list \<Rightarrow>
    (byte list option \<times> rio_t \<times> rd_event list) outcome" where
  "rio_readnb_loop rp nleft buf es =
     (if nleft = 0 then Inr (Some buf, rp, es)
      else (case rio_read rp nleft es of
         Inl f \<Rightarrow> Inl f
       | Inr ((nread, bs), rp1, es1) \<Rightarrow>
           if nread < 0 then Inr (None, rp1, es1)
           else if nread = 0 then Inr (Some buf, rp1, es1)
           else rio_readnb_loop rp1 (nleft - nat nread) (buf @ bs) es1))"
  by pat_completeness auto

termination
  by (relation "measure (\<lambda>(rp, nleft, buf, es). nleft)") auto

declare rio_readnb_loop.simps [simp del]

definition rio_readnb :: "rio_t \<Rightarrow> nat \<Rightarrow> rd_event list \<Rightarrow> (byte list option \<times> rio_t \<times> rd_event list) outcome" where
  "rio_readnb rp n es = rio_readnb_loop rp n [] es"

text \<open>
  Rounds \<open>n, ..., maxlen - 1\<close> of the loop, \<open>k\<close> of them; the flag says whether the terminator is written
  after the bytes. The return value is the number of bytes.
\<close>

fun rio_readlineb_loop :: "nat \<Rightarrow> byte list \<Rightarrow> rio_t \<Rightarrow> rd_event list \<Rightarrow>
    ((byte list \<times> bool) option \<times> rio_t \<times> rd_event list) outcome" where
  "rio_readlineb_loop 0 line rp es = Inr (Some (line, True), rp, es)"
| "rio_readlineb_loop (Suc k) line rp es =
     (case rio_read rp 1 es of
        Inl f \<Rightarrow> Inl f
      | Inr ((rc, bs), rp1, es1) \<Rightarrow>
          if rc = 1 then
            (if bs = [10] then Inr (Some (line @ bs, True), rp1, es1)
             else rio_readlineb_loop k (line @ bs) rp1 es1)
          else if rc = 0 then Inr (Some (line, line \<noteq> []), rp1, es1)
          else Inr (None, rp1, es1))"

text \<open>With \<open>maxlen = 0\<close> the terminator is written to a buffer of no bytes.\<close>

definition rio_readlineb :: "rio_t \<Rightarrow> nat \<Rightarrow> rd_event list \<Rightarrow>
    ((byte list \<times> bool) option \<times> rio_t \<times> rd_event list) outcome" where
  "rio_readlineb rp maxlen es =
     (if maxlen = 0 then Inl MemFault else rio_readlineb_loop (maxlen - 1) [] rp es)"

text \<open>The wrappers, which exit with status 0 on an error.\<close>

definition Rio_readn :: "nat \<Rightarrow> rd_event list \<Rightarrow> (byte list \<times> rd_event list) outcome" where
  "Rio_readn nbytes es = (case rio_readn nbytes es of (None, _) \<Rightarrow> Inl (Exited 0) | (Some bs, es') \<Rightarrow> Inr (bs, es'))"

definition Rio_writen :: "byte list \<Rightarrow> nat \<Rightarrow> byte list \<Rightarrow> wr_event list \<Rightarrow> (byte list \<times> wr_event list) outcome" where
  "Rio_writen usrbuf n out es = obind (rio_writen usrbuf n out es) (\<lambda>(r, out', es').
     if r then Inr (out', es') else Inl (Exited 0))"

definition Rio_readnb :: "rio_t \<Rightarrow> nat \<Rightarrow> rd_event list \<Rightarrow> (byte list \<times> rio_t \<times> rd_event list) outcome" where
  "Rio_readnb rp n es = obind (rio_readnb rp n es) (\<lambda>(r, rp', es').
     case r of None \<Rightarrow> Inl (Exited 0) | Some bs \<Rightarrow> Inr (bs, rp', es'))"

definition Rio_readlineb :: "rio_t \<Rightarrow> nat \<Rightarrow> rd_event list \<Rightarrow> ((byte list \<times> bool) \<times> rio_t \<times> rd_event list) outcome" where
  "Rio_readlineb rp maxlen es = obind (rio_readlineb rp maxlen es) (\<lambda>(r, rp', es').
     case r of None \<Rightarrow> Inl (Exited 0) | Some l \<Rightarrow> Inr (l, rp', es'))"

subsection \<open>The buffer is a stream\<close>

definition rio_ok :: "rio_t \<Rightarrow> bool" where
  "rio_ok rp \<longleftrightarrow> length (rio_buf rp) = RIO_BUFSIZE \<and> rio_bufptr rp + nat (rio_cnt rp) \<le> RIO_BUFSIZE"

text \<open>What is still to be read: the unread part of the buffer and then the descriptor.\<close>

definition buffered :: "rio_t \<Rightarrow> byte list" where
  "buffered rp = take (nat (rio_cnt rp)) (drop (rio_bufptr rp) (rio_buf rp))"

definition rio_rest :: "rio_t \<Rightarrow> rd_event list \<Rightarrow> byte list" where
  "rio_rest rp es = buffered rp @ rd_bytes es"

lemma length_buffered: "rio_ok rp \<Longrightarrow> length (buffered rp) = nat (rio_cnt rp)"
  by (auto simp: rio_ok_def buffered_def min_def)

lemma clean_no_error: "rd_clean es \<Longrightarrow> RdErr \<notin> set es"
  by (induction es rule: rd_clean.induct) auto

text \<open>After a refill there is a byte in the buffer, or the end or an error of the descriptor was met.\<close>

lemma refill_spec:
  assumes "rio_ok rp"
  shows "\<exists>r rp' es'. rio_refill rp es = (r, rp', es') \<and> rio_ok rp'
    \<and> (r = 1 \<and> rio_cnt rp' > 0 \<or> r = 0 \<and> rio_cnt rp' = 0 \<or> r = -1 \<and> rio_cnt rp' = -1 \<and> RdErr \<in> set es)
    \<and> (rd_clean es \<longrightarrow> rio_rest rp' es' = rio_rest rp es \<and> rd_clean es' \<and> (r = 0 \<longrightarrow> rio_rest rp es = []))
    \<and> set es' \<subseteq> set es \<union> range Data"
  using assms
proof (induction es arbitrary: rp)
  case Nil
  then show ?case by (auto simp: rio_ok_def rio_rest_def buffered_def)
next
  case (Cons e es)
  show ?case
  proof (cases "rio_cnt rp > 0")
    case True
    then show ?thesis using Cons.prems by (intro exI conjI) (auto simp: rio_rest_def)
  next
    case c: False
    then have b: "buffered rp = []" by (simp add: buffered_def)
    show ?thesis
    proof (cases e)
      case RdEintr
      have "rio_ok (rp\<lparr>rio_cnt := -1\<rparr>)" using Cons.prems by (simp add: rio_ok_def)
      from Cons.IH [OF this] show ?thesis using c b RdEintr by (auto simp: rio_rest_def buffered_def)
    next
      case RdErr
      then show ?thesis using c Cons.prems by (auto simp: rio_ok_def)
    next
      case (Data bs)
      show ?thesis
      proof (cases "bs = []")
        case True
        then show ?thesis using c Data Cons.prems by (auto simp: rio_ok_def)
      next
        case False
        let ?k = "min (length bs) RIO_BUFSIZE"
        have k: "0 < ?k" using False by (simp add: RIO_BUFSIZE_def)
        have "length (rio_buf rp) = RIO_BUFSIZE" using Cons.prems by (simp add: rio_ok_def)
        then show ?thesis using c b Data False k
          by (auto simp: rio_ok_def rio_rest_def buffered_def Let_def)
      qed
    qed
  qed
qed

lemma rio_read_spec:
  assumes "rio_ok rp" and "0 < n"
  shows "\<exists>r bs rp' es'. rio_read rp n es = Inr ((r, bs), rp', es') \<and> rio_ok rp' \<and> length bs \<le> n
    \<and> (r = int (length bs) \<or> r = -1 \<and> RdErr \<in> set es)
    \<and> (rd_clean es \<longrightarrow> rd_clean es' \<and> rio_rest rp es = bs @ rio_rest rp' es' \<and> (bs = [] \<longrightarrow> rio_rest rp es = []))
    \<and> (RdErr \<in> set es' \<longrightarrow> RdErr \<in> set es)"
proof -
  obtain r rp1 es1 where 1: "rio_refill rp es = (r, rp1, es1)" and ok: "rio_ok rp1"
    and r: "r = 1 \<and> rio_cnt rp1 > 0 \<or> r = 0 \<and> rio_cnt rp1 = 0 \<or> r = -1 \<and> rio_cnt rp1 = -1 \<and> RdErr \<in> set es"
    and c: "rd_clean es \<longrightarrow> rio_rest rp1 es1 = rio_rest rp es \<and> rd_clean es1 \<and> (r = 0 \<longrightarrow> rio_rest rp es = [])"
    and sub: "set es1 \<subseteq> set es \<union> range Data"
    using refill_spec [OF assms(1), of es] by auto
  have e: "RdErr \<in> set es1 \<longrightarrow> RdErr \<in> set es" using sub by auto
  show ?thesis
  proof (cases "r = 1")
    case False
    then have r': "r = 0 \<or> r = -1 \<and> RdErr \<in> set es" using r by auto
    then have "rio_read rp n es = Inr ((r, []), rp1, es1)" using 1 by (auto simp: rio_read_def)
    moreover have "rd_clean es \<Longrightarrow> r = 0" using r' clean_no_error by blast
    ultimately show ?thesis using ok r' c e by (intro exI conjI) auto
  next
    case True
    then have pos: "rio_cnt rp1 > 0" using r by auto
    let ?cnt = "if rio_cnt rp1 < int n then nat (rio_cnt rp1) else n"
    let ?rp2 = "rp1\<lparr>rio_bufptr := rio_bufptr rp1 + ?cnt, rio_cnt := rio_cnt rp1 - int ?cnt\<rparr>"
    let ?bs = "take ?cnt (drop (rio_bufptr rp1) (rio_buf rp1))"
    have le: "?cnt \<le> nat (rio_cnt rp1)" "?cnt \<le> n" "0 < ?cnt" using pos assms(2) by auto
    have bound: "rio_bufptr rp1 + ?cnt \<le> length (rio_buf rp1)" using ok le(1) unfolding rio_ok_def by linarith
    have run: "rio_read rp n es = Inr ((int ?cnt, ?bs), ?rp2, es1)"
      using 1 True bound by (simp add: rio_read_def Let_def not_less)
    have n: "nat (rio_cnt rp1 - int ?cnt) = nat (rio_cnt rp1) - ?cnt" by (rule nat_diff_distrib' [where y = "int ?cnt", unfolded nat_int]) (use pos in auto)
    have ok2: "rio_ok ?rp2" using ok le(1) unfolding rio_ok_def by (simp add: n)
    have len: "length ?bs = ?cnt" using bound by simp
    have "take (nat (rio_cnt rp1)) (drop (rio_bufptr rp1) (rio_buf rp1)) = ?bs @ buffered ?rp2"
      using take_add [of ?cnt "nat (rio_cnt rp1) - ?cnt" "drop (rio_bufptr rp1) (rio_buf rp1)"] le(1)
      by (simp add: buffered_def n add.commute)
    then have "rio_rest rp1 es1 = ?bs @ rio_rest ?rp2 es1" by (simp add: rio_rest_def buffered_def)
    then show ?thesis using run ok2 len le c e by (intro exI conjI) auto
  qed
qed

lemma readnb_loop_spec:
  "rio_ok rp \<Longrightarrow> \<exists>r rp' es'. rio_readnb_loop rp n buf es = Inr (r, rp', es') \<and> rio_ok rp'
     \<and> (\<forall>bs. r = Some bs \<longrightarrow> prefix buf bs \<and> length bs \<le> length buf + n) \<and> (r = None \<longrightarrow> RdErr \<in> set es)
     \<and> (rd_clean es \<longrightarrow> r = Some (buf @ take n (rio_rest rp es)) \<and> rd_clean es'
          \<and> rio_rest rp' es' = drop n (rio_rest rp es))"
proof (induction n arbitrary: rp buf es rule: less_induct)
  case (less n)
  note eq = rio_readnb_loop.simps [of rp n buf es]
  show ?case
  proof (cases "n = 0")
    case True
    then show ?thesis using less.prems eq by auto
  next
    case nz: False
    then obtain r bs rp1 es1 where 1: "rio_read rp n es = Inr ((r, bs), rp1, es1)" "rio_ok rp1" "length bs \<le> n"
      and r: "r = int (length bs) \<or> r = -1 \<and> RdErr \<in> set es"
      and c: "rd_clean es \<longrightarrow> rd_clean es1 \<and> rio_rest rp es = bs @ rio_rest rp1 es1 \<and> (bs = [] \<longrightarrow> rio_rest rp es = [])"
      and e: "RdErr \<in> set es1 \<longrightarrow> RdErr \<in> set es"
      using rio_read_spec [OF less.prems, of n es] by auto
    show ?thesis
    proof (cases "r \<le> 0")
      case True
      then show ?thesis using 1 r c nz eq clean_no_error [of es] by auto
    next
      case False
      then have len: "r = int (length bs)" "bs \<noteq> []" using r by auto
      have "n - length bs < n" using nz len(2) by simp
      from less.IH [OF this 1(2), of "buf @ bs" es1] obtain r2 rp2 es2 where
        2: "rio_readnb_loop rp1 (n - length bs) (buf @ bs) es1 = Inr (r2, rp2, es2)" "rio_ok rp2"
          "\<forall>cs. r2 = Some cs \<longrightarrow> prefix (buf @ bs) cs \<and> length cs \<le> length (buf @ bs) + (n - length bs)"
          "r2 = None \<longrightarrow> RdErr \<in> set es1"
          "rd_clean es1 \<longrightarrow> r2 = Some ((buf @ bs) @ take (n - length bs) (rio_rest rp1 es1)) \<and> rd_clean es2
            \<and> rio_rest rp2 es2 = drop (n - length bs) (rio_rest rp1 es1)" by auto
      have "rio_readnb_loop rp n buf es = Inr (r2, rp2, es2)" using eq nz 1(1) 2(1) len False by simp
      then show ?thesis using 2(2-5) 1(3) c e by (intro exI conjI) (auto dest: append_prefixD)
    qed
  qed
qed

text \<open>The first line of what is to come, at most \<open>k\<close> bytes of it, with its newline.\<close>

fun line_of :: "nat \<Rightarrow> byte list \<Rightarrow> byte list" where
  "line_of 0 bs = []"
| "line_of (Suc k) [] = []"
| "line_of (Suc k) (b # bs) = b # (if b = 10 then [] else line_of k bs)"

lemma line_of_prefix: "line_of k bs @ drop (length (line_of k bs)) bs = bs"
  by (induction k bs rule: line_of.induct) auto

lemma readlineb_loop_spec:
  "rio_ok rp \<Longrightarrow> \<exists>r rp' es'. rio_readlineb_loop k line rp es = Inr (r, rp', es') \<and> rio_ok rp'
     \<and> (r = None \<longrightarrow> RdErr \<in> set es)
     \<and> (rd_clean es \<longrightarrow> rd_clean es' \<and> (\<exists>t. r = Some (line @ line_of k (rio_rest rp es), t)
          \<and> (t \<longleftrightarrow> k = 0 \<or> line @ line_of k (rio_rest rp es) \<noteq> []))
          \<and> rio_rest rp' es' = drop (length (line_of k (rio_rest rp es))) (rio_rest rp es))"
proof (induction k arbitrary: line rp es)
  case (Suc k)
  obtain r bs rp1 es1 where 1: "rio_read rp 1 es = Inr ((r, bs), rp1, es1)" "rio_ok rp1" "length bs \<le> 1"
    and r: "r = int (length bs) \<or> r = -1 \<and> RdErr \<in> set es"
    and c: "rd_clean es \<longrightarrow> rd_clean es1 \<and> rio_rest rp es = bs @ rio_rest rp1 es1 \<and> (bs = [] \<longrightarrow> rio_rest rp es = [])"
    and e: "RdErr \<in> set es1 \<longrightarrow> RdErr \<in> set es"
    using rio_read_spec [OF Suc.prems, of 1 es] by auto
  consider "r \<le> 0" | b where "r = 1" "bs = [b]" using r 1(3) by (cases bs) auto
  then show ?case
  proof cases
    case 1
    then show ?thesis using \<open>rio_read rp 1 es = _\<close> \<open>rio_ok rp1\<close> r c clean_no_error [of es] by auto
  next
    case 2
    show ?thesis
    proof (cases "b = 10")
      case True
      then show ?thesis using 2 1 c by auto
    next
      case False
      from Suc.IH [OF 1(2), of "line @ [b]" es1] obtain r2 rp2 es2 where
        3: "rio_readlineb_loop k (line @ [b]) rp1 es1 = Inr (r2, rp2, es2)" "rio_ok rp2" "r2 = None \<longrightarrow> RdErr \<in> set es1"
          "rd_clean es1 \<longrightarrow> rd_clean es2 \<and> (\<exists>t. r2 = Some ((line @ [b]) @ line_of k (rio_rest rp1 es1), t)
             \<and> (t \<longleftrightarrow> k = 0 \<or> (line @ [b]) @ line_of k (rio_rest rp1 es1) \<noteq> []))
             \<and> rio_rest rp2 es2 = drop (length (line_of k (rio_rest rp1 es1))) (rio_rest rp1 es1)" by auto
      have "rio_readlineb_loop (Suc k) line rp es = Inr (r2, rp2, es2)" using 1(1) 2 3(1) False by simp
      then show ?thesis using 3(2-4) 2 False c e by (intro exI conjI) auto
    qed
  qed
qed auto

subsection \<open>Both readers are byte streams\<close>

definition unbuffered_read :: "nat \<Rightarrow> rd_event list \<Rightarrow> (byte list \<times> rd_event list) option" where
  "unbuffered_read n es = (case rio_readn n es of (Some bs, es') \<Rightarrow> Some (bs, es') | _ \<Rightarrow> None)"

definition buffered_read :: "nat \<Rightarrow> rio_t \<times> rd_event list \<Rightarrow> (byte list \<times> rio_t \<times> rd_event list) option" where
  "buffered_read n s = (case rio_readnb (fst s) n (snd s) of
     Inr (Some bs, rp', es') \<Rightarrow> Some (bs, rp', es') | _ \<Rightarrow> None)"

interpretation unbuf: byte_stream rd_clean rd_bytes unbuffered_read
proof
  fix es :: "rd_event list" and n :: nat
  assume "rd_clean es"
  from readn_loop_spec [OF this, of n "[]"]
  show "\<exists>s'. unbuffered_read n es = Some (take n (rd_bytes es), s') \<and> rd_clean s' \<and> rd_bytes s' = drop n (rd_bytes es)"
    by (auto simp: unbuffered_read_def rio_readn_def)
qed

interpretation buf: byte_stream "\<lambda>s. rio_ok (fst s) \<and> rd_clean (snd s)" "\<lambda>s. rio_rest (fst s) (snd s)" buffered_read
proof
  fix s :: "rio_t \<times> rd_event list" and n :: nat
  assume "rio_ok (fst s) \<and> rd_clean (snd s)"
  then show "\<exists>s'. buffered_read n s = Some (take n (rio_rest (fst s) (snd s)), s')
      \<and> (rio_ok (fst s') \<and> rd_clean (snd s')) \<and> rio_rest (fst s') (snd s') = drop n (rio_rest (fst s) (snd s))"
    using readnb_loop_spec [of "fst s" n "[]" "snd s"] by (auto simp: buffered_read_def rio_readnb_def)
qed

subsection \<open>Properties\<close>

lemma init_ok: "length b = RIO_BUFSIZE \<Longrightarrow> rio_ok (rio_readinitb b)"
  "rio_rest (rio_readinitb b) es = rd_bytes es"
  by (simp_all add: rio_ok_def rio_readinitb_def rio_rest_def buffered_def)

text \<open>
  C8. The buffered reader is equivalent to the unbuffered one: on a descriptor without errors, and
  whatever the chunks and interruptions, any sequence of requests gets the same pieces from
  \<open>rio_readnb\<close> after \<open>rio_readinitb\<close> as from \<open>rio_readn\<close>, the consecutive pieces of the stream.
\<close>

theorem rio_readnb_equiv:
  assumes "rd_clean es" and "length b = RIO_BUFSIZE"
  shows "\<exists>s t. read_many buffered_read ns (rio_readinitb b, es) = Some (pieces ns (rd_bytes es), s)
    \<and> read_many unbuffered_read ns es = Some (pieces ns (rd_bytes es), t)"
  using buf.read_many [of "(rio_readinitb b, es)" ns] unbuf.read_many [OF assms(1), of ns] assms init_ok [of b]
  by auto

theorem rio_readnb_equiv_witness:
  "\<exists>s t. read_many buffered_read [2, 3] (rio_readinitb (replicate 8192 0), [Data [1], RdEintr, Data [2, 3, 4]])
      = Some ([[1, 2], [3, 4]], s)
    \<and> read_many unbuffered_read [2, 3] [Data [1], RdEintr, Data [2, 3, 4]] = Some ([[1, 2], [3, 4]], t)"
  using rio_readnb_equiv [of "[Data [1], RdEintr, Data [2, 3, 4]]" "replicate 8192 0" "[2, 3]"]
  by (simp add: RIO_BUFSIZE_def)

text \<open>
  C9. Reading a line returns the first line of what is to come, newline included, cut at
  \<open>maxlen - 1\<close> bytes, and leaves the rest for the next call; the terminator is left out only when nothing was read
  at the end of the file. Whatever the descriptor does, no byte outside the internal buffer is
  touched, and -1 is returned only after an error of \<open>read\<close> (\<open>maxlen\<close> is at least 1).
\<close>

theorem rio_readlineb_spec:
  assumes "rio_ok rp" and "0 < maxlen"
  shows "\<exists>r rp' es'. rio_readlineb rp maxlen es = Inr (r, rp', es') \<and> rio_ok rp' \<and> (r = None \<longrightarrow> RdErr \<in> set es)
    \<and> (rd_clean es \<longrightarrow> (let l = line_of (maxlen - 1) (rio_rest rp es) in
          r = Some (l, maxlen = 1 \<or> l \<noteq> []) \<and> l @ rio_rest rp' es' = rio_rest rp es \<and> rd_clean es'))"
proof -
  obtain r rp' es' where 1: "rio_readlineb_loop (maxlen - 1) [] rp es = Inr (r, rp', es')" "rio_ok rp'"
    "r = None \<longrightarrow> RdErr \<in> set es"
    "rd_clean es \<longrightarrow> rd_clean es' \<and> (\<exists>t. r = Some ([] @ line_of (maxlen - 1) (rio_rest rp es), t)
       \<and> (t \<longleftrightarrow> maxlen - 1 = 0 \<or> [] @ line_of (maxlen - 1) (rio_rest rp es) \<noteq> []))
       \<and> rio_rest rp' es' = drop (length (line_of (maxlen - 1) (rio_rest rp es))) (rio_rest rp es)"
    using readlineb_loop_spec [OF assms(1), of "maxlen - 1" "[]" es] by (elim exE conjE that)
  have m: "maxlen - 1 = 0 \<longleftrightarrow> maxlen = 1" using assms(2) by auto
  have "rio_readlineb rp maxlen es = Inr (r, rp', es')" using 1(1) assms(2) by (simp add: rio_readlineb_def)
  moreover have "rd_clean es \<longrightarrow> r = Some (line_of (maxlen - 1) (rio_rest rp es), maxlen = 1 \<or> line_of (maxlen - 1) (rio_rest rp es) \<noteq> [])"
    using 1(4) m by (auto simp del: diff_is_0_eq)
  ultimately show ?thesis using 1(2-4) by (intro exI conjI) (auto simp: Let_def line_of_prefix)
qed

theorem rio_readlineb_spec_witness:
  "\<exists>rp' es'. rio_readlineb (rio_readinitb (replicate 8192 0)) 4 [Data [97, 10, 98], RdEintr]
     = Inr (Some ([97, 10], True), rp', es') \<and> rio_rest rp' es' = [98]"
proof -
  have l: "line_of 3 [97, 10, 98] = [97, 10]" by (simp add: numeral_3_eq_3)
  have "length (replicate 8192 (0 :: byte)) = RIO_BUFSIZE" by (simp add: RIO_BUFSIZE_def)
  from rio_readlineb_spec [OF init_ok(1) [OF this], of 4 "[Data [97, 10, 98], RdEintr]"]
  show ?thesis by (auto simp: init_ok(2) l Let_def)
qed

end
