(* ===== verification/Csapp.thy ===== *)
theory Csapp
  imports Rio
begin

section \<open>Safe output and opening connections (hw5/src/csapp.c)\<close>

text \<open>
  The output routines that a signal handler may call, with their buffers as arrays of characters, and
  \<open>open_clientfd\<close>, \<open>open_listenfd\<close> over system calls that are functions on a state of the system.
\<close>

subsection \<open>Strings in memory\<close>

fun sio_strlen :: "string \<Rightarrow> nat outcome" where
  "sio_strlen [] = Inl MemFault"
| "sio_strlen (c # s) = (if c = CHR 0x00 then Inr 0 else obind (sio_strlen s) (\<lambda>n. Inr (Suc n)))"

text \<open>The loop from both ends; \<open>j\<close> is -1 for the empty string.\<close>

function reverse_loop :: "nat \<Rightarrow> int \<Rightarrow> string \<Rightarrow> string" where
  "reverse_loop i j s =
     (if int i < j then reverse_loop (i + 1) (j - 1) (s[i := s ! nat j, nat j := s ! i]) else s)"
  by pat_completeness auto

termination
  by (relation "measure (\<lambda>(i, j, s). nat (j - int i))") auto

declare reverse_loop.simps [simp del]

definition sio_reverse :: "string \<Rightarrow> string outcome" where
  "sio_reverse s = obind (sio_strlen s) (\<lambda>n. Inr (reverse_loop 0 (int n - 1) s))"

text \<open>The remainder has the sign of the dividend, as in C.\<close>

definition c_mod :: "int \<Rightarrow> int \<Rightarrow> int" where
  "c_mod a b = a - b * c_div a b"

text \<open>
  The digits, least significant first; each is written at \<open>i\<close>, so the size of the buffer bounds the
  rounds. The state is the buffer and \<open>i\<close>.
\<close>

definition put_char :: "nat \<Rightarrow> int \<Rightarrow> string \<Rightarrow> string outcome" where
  "put_char i c s = (if i < length s then Inr (s[i := char_of (nat (c mod 256))]) else Inl MemFault)"

function ltoa_loop :: "int \<Rightarrow> int \<Rightarrow> string \<Rightarrow> nat \<Rightarrow> (string \<times> nat) outcome" where
  "ltoa_loop v b s i =
     (if b = 0 then Inl Aborted
      else if length s \<le> i then Inl MemFault
      else
        let c = c_mod v b;
            s' = s[i := char_of (nat ((if c < 10 then c + 48 else c - 10 + 97) mod 256))];
            v' = c_div v b
        in if v' > 0 then ltoa_loop v' b s' (i + 1) else Inr (s', i + 1))"
  by pat_completeness auto

termination
  by (relation "measure (\<lambda>(v, b, s, i). length s - i)") auto

declare ltoa_loop.simps [simp del]

text \<open>\<open>-v\<close> of the least \<open>long\<close> is itself.\<close>

definition sio_ltoa :: "int \<Rightarrow> string \<Rightarrow> int \<Rightarrow> string outcome" where
  "sio_ltoa v s b =
     (let neg = v < 0; v1 = (if neg then wrap64 (- v) else v) in
      obind (ltoa_loop v1 b s 0) (\<lambda>(s1, i).
      obind (if neg then obind (put_char i 45 s1) (\<lambda>s2. Inr (s2, i + 1)) else Inr (s1, i)) (\<lambda>(s2, i2).
      obind (put_char i2 0 s2) sio_reverse)))"

text \<open>\<open>wr\<close> is \<open>write(STDOUT_FILENO, _, _)\<close> with its effect on the state of the system.\<close>

definition sio_puts :: "(string \<Rightarrow> 'w \<Rightarrow> int \<times> 'w) \<Rightarrow> string \<Rightarrow> ('w, int) action" where
  "sio_puts wr s w = obind (sio_strlen s) (\<lambda>n. Inr (wr (take n s) w))"

text \<open>\<open>junk\<close> is what the array \<open>s\<close> of 128 characters holds at first.\<close>

definition sio_putl :: "(string \<Rightarrow> 'w \<Rightarrow> int \<times> 'w) \<Rightarrow> string \<Rightarrow> int \<Rightarrow> ('w, int) action" where
  "sio_putl wr junk v w = obind (sio_ltoa v junk 10) (\<lambda>s. sio_puts wr s w)"

definition sio_error :: "(string \<Rightarrow> 'w \<Rightarrow> int \<times> 'w) \<Rightarrow> string \<Rightarrow> ('w, 'a) action" where
  "sio_error wr s = bnd (sio_puts wr s) (\<lambda>_. fail (Exited 1))"

definition Sio_putl :: "(string \<Rightarrow> 'w \<Rightarrow> int \<times> 'w) \<Rightarrow> string \<Rightarrow> int \<Rightarrow> ('w, int) action" where
  "Sio_putl wr junk v = bnd (sio_putl wr junk v) (\<lambda>n.
     if n < 0 then sio_error wr (''Sio_putl error'' @ [CHR 0x00]) else ret n)"

definition Sio_puts :: "(string \<Rightarrow> 'w \<Rightarrow> int \<times> 'w) \<Rightarrow> string \<Rightarrow> ('w, int) action" where
  "Sio_puts wr s = bnd (sio_puts wr s) (\<lambda>n.
     if n < 0 then sio_error wr (''Sio_puts error'' @ [CHR 0x00]) else ret n)"

subsection \<open>Lemmas on the output routines\<close>

lemma strlen_value: "CHR 0x00 \<notin> set s \<Longrightarrow> sio_strlen (s @ CHR 0x00 # r) = Inr (length s)"
  by (induction s) auto

lemma reverse_loop_nth:
  "j < int (length s) \<Longrightarrow> length (reverse_loop i j s) = length s
   \<and> (\<forall>m < length s. reverse_loop i j s ! m
        = (if i \<le> m \<and> int m \<le> j then s ! nat (int i + j - int m) else s ! m))"
proof (induction i j s rule: reverse_loop.induct)
  case (1 i j s)
  show ?case
  proof (cases "int i < j")
    case False
    then have "reverse_loop i j s = s" by (simp add: reverse_loop.simps [of i j s])
    moreover have "nat (int i + j - int m) = m" if "i \<le> m" "int m \<le> j" for m using False that by linarith
    ultimately show ?thesis by simp
  next
    case True
    let ?t = "s[i := s ! nat j, nat j := s ! i]"
    have e: "reverse_loop i j s = reverse_loop (i + 1) (j - 1) ?t"
      using True by (simp add: reverse_loop.simps [of i j s])
    have "j - 1 < int (length ?t)" using 1(2) by simp
    note IH = 1(1) [OF True this]
    have "reverse_loop i j s ! m = (if i \<le> m \<and> int m \<le> j then s ! nat (int i + j - int m) else s ! m)"
      if m: "m < length s" for m
    proof -
      have "reverse_loop i j s ! m = (if i + 1 \<le> m \<and> int m \<le> j - 1 then ?t ! nat (int (i + 1) + (j - 1) - int m) else ?t ! m)"
        using IH m e by simp
      then show ?thesis using m True 1(2) by (auto simp: nth_list_update nat_eq_iff)
    qed
    then show ?thesis using IH e by simp
  qed
qed

lemma reverse_value:
  assumes "CHR 0x00 \<notin> set s"
  shows "sio_reverse (s @ CHR 0x00 # r) = Inr (rev s @ CHR 0x00 # r)"
proof -
  let ?x = "s @ CHR 0x00 # r"
  have n: "int (length s) - 1 < int (length ?x)" by simp
  have "reverse_loop 0 (int (length s) - 1) ?x = rev s @ CHR 0x00 # r"
  proof (rule nth_equalityI)
    fix m assume m: "m < length (reverse_loop 0 (int (length s) - 1) ?x)"
    then have "m < length ?x" using reverse_loop_nth [OF n, of 0] by simp
    then show "reverse_loop 0 (int (length s) - 1) ?x ! m = (rev s @ CHR 0x00 # r) ! m"
      using reverse_loop_nth [OF n, of 0] by (auto simp: nth_append rev_nth nat_diff_distrib nat_eq_iff intro!: arg_cong [of _ _ "nth s"])
  qed (use reverse_loop_nth [OF n, of 0] in simp)
  then show ?thesis using strlen_value [OF assms] by (simp add: sio_reverse_def)
qed

lemma digit_written: "d < 10 \<Longrightarrow> char_of (nat ((48 + int d) mod 256)) = digit_char d"
  by (simp add: digit_char_def nat_add_distrib)

lemma c_mod_10: "0 \<le> v \<Longrightarrow> c_mod v 10 = v mod 10"
  by (simp add: c_mod_def c_div_nonneg minus_mult_div_eq_mod)

lemma ltoa_run:
  "i + length (show_nat n) \<le> length s \<Longrightarrow> ltoa_loop (int n) 10 s i
     = Inr (take i s @ rev (show_nat n) @ drop (i + length (show_nat n)) s, i + length (show_nat n))"
proof (induction n arbitrary: s i rule: show_nat.induct)
  case (1 n)
  let ?d = "digit_char (n mod 10)"
  have i: "i < length s" using "1.prems" show_nat_ne [of n] by (cases "show_nat n") auto
  have m: "c_mod (int n) 10 = int (n mod 10)" by (simp add: c_mod_10 zmod_int)
  have q: "c_div (int n) 10 = int (n div 10)" by (simp add: c_div_nonneg zdiv_int)
  have w: "char_of (nat ((if c_mod (int n) 10 < 10 then c_mod (int n) 10 + 48 else c_mod (int n) 10 - 10 + 97) mod 256)) = ?d"
    using digit_written [of "n mod 10"] by (simp add: m add.commute)
  have e: "ltoa_loop (int n) 10 s i
     = (if n div 10 > 0 then ltoa_loop (int (n div 10)) 10 (s[i := ?d]) (i + 1) else Inr (s[i := ?d], i + 1))"
    using i w q by (subst ltoa_loop.simps) (simp only: Let_def, simp)
  have u: "s[i := ?d] = take i s @ ?d # drop (Suc i) s" using i by (simp add: upd_conv_take_nth_drop)
  show ?case
  proof (cases "n < 10")
    case True
    then show ?thesis using e u by (simp add: show_nat_digit)
  next
    case False
    have s: "show_nat n = show_nat (n div 10) @ [?d]" using False by (subst show_nat.simps) simp
    have "i + 1 + length (show_nat (n div 10)) \<le> length (s[i := ?d])" using "1.prems" s by simp
    note IH = "1.IH" [OF False this]
    have "n div 10 > 0" using False by linarith
    then have "ltoa_loop (int n) 10 s i = ltoa_loop (int (n div 10)) 10 (s[i := ?d]) (i + 1)" using e by simp
    then show ?thesis using IH u i by (simp add: s add.commute)
  qed
qed

lemma take_length_append: "take (length xs) (xs @ ys) = xs"
  by simp

lemma chars: "char_of (0 :: nat) = CHR 0x00" "char_of (45 :: nat) = CHR ''-''" "char_of (40 :: nat) = CHR ''(''"
  by code_simp+

lemma digit_not_NUL: "CHR 0x00 \<notin> set (show_nat n)"
proof
  assume "CHR 0x00 \<in> set (show_nat n)"
  then obtain d where d: "d < 10" "CHR 0x00 = digit_char d" using show_nat_digits by blast
  have "c_char (CHR 0x00) = 48 + int d" unfolding d(2) by (rule c_char_digit [OF d(1)])
  then show False by (simp add: c_char_def)
qed

text \<open>The number in a buffer large enough for it.\<close>

lemma sio_ltoa_value:
  assumes "- (2 ^ 63) < v" and "v < 2 ^ 63" and "length s = 128"
  shows "\<exists>r. sio_ltoa v s 10 = Inr (show_int v @ CHR 0x00 # r)"
proof -
  let ?n = "nat \<bar>v\<bar>"
  have v1: "(if v < 0 then wrap64 (- v) else v) = int ?n" using assms(1,2) by (simp add: wrap64_id)
  have "?n < 10 ^ Suc 18" using assms(1,2) by simp
  from length_show_nat [OF this] have len: "length (show_nat ?n) \<le> 19" by simp
  let ?k = "length (show_nat ?n)"
  have r: "ltoa_loop (int ?n) 10 s 0 = Inr (rev (show_nat ?n) @ drop ?k s, ?k)"
    using ltoa_run [of 0 ?n s] len assms(3) by simp
  have nz: "CHR 0x00 \<notin> set (rev (show_nat ?n))" using digit_not_NUL by simp
  show ?thesis
  proof (cases "v < 0")
    case True
    let ?t = "rev (show_nat ?n) @ [CHR ''-'']"
    obtain a b r' where d: "drop ?k s = a # b # r'"
      using len assms(3) by (cases "drop ?k s"; cases "tl (drop ?k s)") (auto dest: arg_cong [of _ _ length])
    have "put_char ?k 45 (rev (show_nat ?n) @ drop ?k s) = Inr (?t @ b # r')"
      by (simp add: put_char_def d list_update_append chars)
    moreover have "put_char (?k + 1) 0 (?t @ b # r') = Inr (?t @ CHR 0x00 # r')"
      by (simp add: put_char_def list_update_append chars)
    moreover have "sio_reverse (?t @ CHR 0x00 # r') = Inr (rev ?t @ CHR 0x00 # r')"
      by (rule reverse_value) (use nz in simp)
    ultimately show ?thesis using True v1 r by (simp add: sio_ltoa_def Let_def show_int_def)
  next
    case False
    obtain a r' where d: "drop ?k s = a # r'" using len assms(3) by (cases "drop ?k s") auto
    have "put_char ?k 0 (rev (show_nat ?n) @ drop ?k s) = Inr (rev (show_nat ?n) @ CHR 0x00 # r')"
      by (simp add: put_char_def d list_update_append chars)
    moreover have "sio_reverse (rev (show_nat ?n) @ CHR 0x00 # r') = Inr (show_nat ?n @ CHR 0x00 # r')"
      using reverse_value [OF nz, of r'] by simp
    ultimately show ?thesis using False v1 r by (simp add: sio_ltoa_def Let_def show_int_def)
  qed
qed

lemma sio_ltoa_least:
  assumes "length s = 128"
  shows "\<exists>r. sio_ltoa (- (2 ^ 63)) s 10 = Inr (''-('' @ CHR 0x00 # r)"
proof -
  obtain a b d r where s: "s = a # b # d # r"
    using assms by (cases s; cases "tl s"; cases "tl (tl s)") auto
  have w: "wrap64 (2 ^ 63) = - (2 ^ 63)" by (simp add: wrap64_def)
  have "ltoa_loop (- (2 ^ 63)) 10 s 0 = Inr (CHR ''('' # b # d # r, 1)"
    by (subst ltoa_loop.simps) (simp add: s c_mod_def c_div_def chars Let_def)
  moreover have "put_char 1 45 (CHR ''('' # b # d # r) = Inr (''(-'' @ d # r)"
    by (simp add: put_char_def chars)
  moreover have "put_char 2 0 (''(-'' @ d # r) = Inr (''(-'' @ CHR 0x00 # r)"
    by (simp add: put_char_def chars numeral_2_eq_2)
  moreover have "sio_reverse (''(-'' @ CHR 0x00 # r) = Inr (''-('' @ CHR 0x00 # r)"
    using reverse_value [of "''(-''" r] by simp
  ultimately show ?thesis using w by (simp add: sio_ltoa_def Let_def numeral_2_eq_2)
qed

text \<open>
  C25. \<open>sio_putl\<close> writes the decimal text of every \<open>long\<close> but the least, whose negation overflows: for
  it the text is a minus sign and an opening parenthesis. Nothing is written outside the buffer, and
  the result and the effect are those of the one call of \<open>write\<close>.
\<close>

theorem sio_putl_spec:
  assumes "- (2 ^ 63) \<le> v" and "v < 2 ^ 63" and "length junk = 128"
  shows "sio_putl wr junk v w = Inr (wr (if v = - (2 ^ 63) then ''-('' else show_int v) w)"
proof -
  let ?t = "if v = - (2 ^ 63) then ''-('' else show_int v"
  have "\<exists>r. sio_ltoa v junk 10 = Inr (?t @ CHR 0x00 # r)"
    using sio_ltoa_value [of v junk] sio_ltoa_least [of junk] assms by (cases "v = - (2 ^ 63)") auto
  then obtain r where r: "sio_ltoa v junk 10 = Inr (?t @ CHR 0x00 # r)" by (elim exE)
  have "CHR 0x00 \<notin> set ?t" using digit_not_NUL by (simp add: show_int_def)
  from strlen_value [OF this, of r] show ?thesis
    unfolding sio_putl_def r obind_simps sio_puts_def by (simp only: obind_simps take_length_append)
qed

theorem sio_putl_spec_witness:
  "sio_putl (\<lambda>t out. (int (length t), out @ t)) (replicate 128 (CHR ''?'')) (-107) ''fd '' = Inr (4, ''fd -107'')
   \<and> sio_putl (\<lambda>t out. (int (length t), out @ t)) (replicate 128 (CHR ''?'')) (- (2 ^ 63)) [] = Inr (2, ''-('')"
proof -
  have "show_int (-107) = ''-107''" by code_simp
  moreover have "length (replicate 128 (CHR ''?'')) = 128" by simp
  ultimately show ?thesis
    by (intro conjI; subst sio_putl_spec) simp_all
qed

subsection \<open>Opening connections\<close>

text \<open>
  The system calls, on a state of the system. \<open>getaddrinfo\<close> takes whether the hint \<open>AI_PASSIVE\<close> is given,
  the node (\<open>None\<close> is NULL) and the port. An address stands for an entry of the list it gives.
\<close>

record ('w, 'a) net_api =
  getaddrinfo :: "bool \<Rightarrow> string option \<Rightarrow> string \<Rightarrow> 'w \<Rightarrow> (int \<times> 'a list) \<times> 'w"
  freeaddrinfo :: "'w \<Rightarrow> 'w"
  sys_socket :: "'a \<Rightarrow> 'w \<Rightarrow> int \<times> 'w"
  sys_reuse :: "int \<Rightarrow> 'w \<Rightarrow> 'w"
  sys_connect :: "int \<Rightarrow> 'a \<Rightarrow> 'w \<Rightarrow> int \<times> 'w"
  sys_bind :: "int \<Rightarrow> 'a \<Rightarrow> 'w \<Rightarrow> int \<times> 'w"
  sys_listen :: "int \<Rightarrow> int \<Rightarrow> 'w \<Rightarrow> int \<times> 'w"
  sys_close :: "int \<Rightarrow> 'w \<Rightarrow> int \<times> 'w"

definition LISTENQ :: int where "LISTENQ = 1024"

text \<open>
  The walks along the list. \<open>Inl\<close> is the return from inside the loop, when closing fails; \<open>Inr\<close> holds the
  descriptor the loop ended with, if any.
\<close>

fun client_walk :: "('w, 'a) net_api \<Rightarrow> 'a list \<Rightarrow> 'w \<Rightarrow> (int + int option) \<times> 'w" where
  "client_walk api [] w = (Inr None, w)"
| "client_walk api (p # ps) w =
     (case sys_socket api p w of (fd, w1) \<Rightarrow>
      if fd < 0 then client_walk api ps w1
      else (case sys_connect api fd p w1 of (rc, w2) \<Rightarrow>
        if rc \<noteq> -1 then (Inr (Some fd), w2)
        else (case sys_close api fd w2 of (rc2, w3) \<Rightarrow>
          if rc2 < 0 then (Inl (-1), w3) else client_walk api ps w3)))"

definition open_clientfd :: "('w, 'a) net_api \<Rightarrow> string \<Rightarrow> string \<Rightarrow> 'w \<Rightarrow> int \<times> 'w" where
  "open_clientfd api hostname port w =
     (case getaddrinfo api False (Some hostname) port w of ((rc, listp), w1) \<Rightarrow>
      if rc \<noteq> 0 then (-2, w1)
      else (case client_walk api listp w1 of
          (Inl r, w2) \<Rightarrow> (r, w2)
        | (Inr p, w2) \<Rightarrow>
            let w3 = freeaddrinfo api w2 in (case p of None \<Rightarrow> (-1, w3) | Some clientfd \<Rightarrow> (clientfd, w3))))"

fun listen_walk :: "('w, 'a) net_api \<Rightarrow> 'a list \<Rightarrow> 'w \<Rightarrow> (int + int option) \<times> 'w" where
  "listen_walk api [] w = (Inr None, w)"
| "listen_walk api (p # ps) w =
     (case sys_socket api p w of (fd, w1) \<Rightarrow>
      if fd < 0 then listen_walk api ps w1
      else (case sys_bind api fd p (sys_reuse api fd w1) of (rc, w2) \<Rightarrow>
        if rc = 0 then (Inr (Some fd), w2)
        else (case sys_close api fd w2 of (rc2, w3) \<Rightarrow>
          if rc2 < 0 then (Inl (-1), w3) else listen_walk api ps w3)))"

definition open_listenfd :: "('w, 'a) net_api \<Rightarrow> string \<Rightarrow> 'w \<Rightarrow> int \<times> 'w" where
  "open_listenfd api port w =
     (case getaddrinfo api True None port w of ((rc, listp), w1) \<Rightarrow>
      if rc \<noteq> 0 then (-2, w1)
      else (case listen_walk api listp w1 of
          (Inl r, w2) \<Rightarrow> (r, w2)
        | (Inr p, w2) \<Rightarrow>
            let w3 = freeaddrinfo api w2 in
            (case p of None \<Rightarrow> (-1, w3)
             | Some listenfd \<Rightarrow> (case sys_listen api listenfd LISTENQ w3 of (rc, w4) \<Rightarrow>
                 if rc < 0 then (-1, snd (sys_close api listenfd w4)) else (listenfd, w4)))))"

text \<open>\<open>unix_error\<close> ends the process with status 0.\<close>

definition Open_clientfd :: "('w, 'a) net_api \<Rightarrow> string \<Rightarrow> string \<Rightarrow> ('w, int) action" where
  "Open_clientfd api hostname port w = (case open_clientfd api hostname port w of (rc, w') \<Rightarrow>
     if rc < 0 then Inl (Exited 0) else Inr (rc, w'))"

definition Open_listenfd :: "('w, 'a) net_api \<Rightarrow> string \<Rightarrow> ('w, int) action" where
  "Open_listenfd api port w = (case open_listenfd api port w of (rc, w') \<Rightarrow>
     if rc < 0 then Inl (Exited 0) else Inr (rc, w'))"

text \<open>
  What the system documents: a new descriptor is not in use, closing one takes it out of use (whatever
  it returns), \<open>getaddrinfo\<close> allocates a list when it returns 0 and \<open>freeaddrinfo\<close> frees one, and the other calls
  change neither. \<open>fds\<close> are the descriptors in use, \<open>allocs\<close> counts the lists that are allocated.
\<close>

definition net_lib :: "('w, 'a) net_api \<Rightarrow> ('w \<Rightarrow> int set) \<Rightarrow> ('w \<Rightarrow> nat) \<Rightarrow> bool" where
  "net_lib api fds allocs \<longleftrightarrow>
     (\<forall>a w fd w'. sys_socket api a w = (fd, w') \<longrightarrow> allocs w' = allocs w
        \<and> (if fd < 0 then fds w' = fds w else fd \<notin> fds w \<and> fds w' = insert fd (fds w)))
   \<and> (\<forall>fd w. fds (snd (sys_close api fd w)) = fds w - {fd} \<and> allocs (snd (sys_close api fd w)) = allocs w)
   \<and> (\<forall>fd a w. fds (snd (sys_connect api fd a w)) = fds w \<and> allocs (snd (sys_connect api fd a w)) = allocs w)
   \<and> (\<forall>fd a w. fds (snd (sys_bind api fd a w)) = fds w \<and> allocs (snd (sys_bind api fd a w)) = allocs w)
   \<and> (\<forall>fd q w. fds (snd (sys_listen api fd q w)) = fds w \<and> allocs (snd (sys_listen api fd q w)) = allocs w)
   \<and> (\<forall>fd w. fds (sys_reuse api fd w) = fds w \<and> allocs (sys_reuse api fd w) = allocs w)
   \<and> (\<forall>p n d w rc l w'. getaddrinfo api p n d w = ((rc, l), w') \<longrightarrow>
        fds w' = fds w \<and> allocs w' = (if rc = 0 then allocs w + 1 else allocs w))
   \<and> (\<forall>w. fds (freeaddrinfo api w) = fds w \<and> allocs (freeaddrinfo api w) = allocs w - 1)"

definition close_works :: "('w, 'a) net_api \<Rightarrow> bool" where
  "close_works api \<longleftrightarrow> (\<forall>fd w. \<not> fst (sys_close api fd w) < 0)"

text \<open>What a walk leaves open.\<close>

definition walk_ok :: "('w, 'a) net_api \<Rightarrow> ('w \<Rightarrow> int set) \<Rightarrow> ('w \<Rightarrow> nat) \<Rightarrow> 'w \<Rightarrow> (int + int option) \<times> 'w \<Rightarrow> bool" where
  "walk_ok api fds allocs w res \<longleftrightarrow> allocs (snd res) = allocs w \<and> (case fst res of
     Inl r \<Rightarrow> r = -1 \<and> fds (snd res) = fds w \<and> \<not> close_works api
   | Inr None \<Rightarrow> fds (snd res) = fds w
   | Inr (Some fd) \<Rightarrow> 0 \<le> fd \<and> fd \<notin> fds w \<and> fds (snd res) = insert fd (fds w))"

lemma net_libD:
  assumes "net_lib api fds allocs"
  shows "sys_socket api a w = (fd, w') \<Longrightarrow> fd < 0 \<Longrightarrow> allocs w' = allocs w \<and> fds w' = fds w"
    and "sys_socket api a w = (fd, w') \<Longrightarrow> \<not> fd < 0 \<Longrightarrow> allocs w' = allocs w \<and> fd \<notin> fds w \<and> fds w' = insert fd (fds w)"
    and "sys_close api fd w = (rc, w') \<Longrightarrow> fds w' = fds w - {fd} \<and> allocs w' = allocs w"
    and "sys_connect api fd a w = (rc, w') \<Longrightarrow> fds w' = fds w \<and> allocs w' = allocs w"
    and "sys_bind api fd a w = (rc, w') \<Longrightarrow> fds w' = fds w \<and> allocs w' = allocs w"
    and "sys_listen api fd q w = (rc, w') \<Longrightarrow> fds w' = fds w \<and> allocs w' = allocs w"
    and "fds (sys_reuse api fd w) = fds w" and "allocs (sys_reuse api fd w) = allocs w"
    and "getaddrinfo api p n po w = ((rc, l), w') \<Longrightarrow>
        fds w' = fds w \<and> allocs w' = (if rc = 0 then allocs w + 1 else allocs w)"
    and "fds (freeaddrinfo api w) = fds w" and "allocs (freeaddrinfo api w) = allocs w - 1"
  using assms unfolding net_lib_def by (metis snd_conv)+

text \<open>One address that does not work leaves everything as it was.\<close>

lemma socket_closed:
  assumes "net_lib api fds allocs" and "sys_socket api p w = (fd, w1)" and "\<not> fd < 0"
    and "fds w2 = fds w1 \<and> allocs w2 = allocs w1" and "sys_close api fd w2 = (rc, w3)"
  shows "fds w3 = fds w" and "allocs w3 = allocs w" and "rc < 0 \<Longrightarrow> \<not> close_works api"
proof -
  note s = net_libD(2) [OF assms(1-3)] and c = net_libD(3) [OF assms(1,5)]
  show "fds w3 = fds w" "allocs w3 = allocs w" using s c assms(4) by auto
  show "\<not> close_works api" if "rc < 0" using that assms(5) by (auto simp: close_works_def intro!: exI [of _ fd] exI [of _ w2])
qed

lemma walk_ok_cong: "fds w1 = fds w \<Longrightarrow> allocs w1 = allocs w \<Longrightarrow> walk_ok api fds allocs w1 r \<Longrightarrow> walk_ok api fds allocs w r"
  by (auto simp: walk_ok_def split: sum.splits option.splits)

lemma client_walk_ok: "net_lib api fds allocs \<Longrightarrow> walk_ok api fds allocs w (client_walk api ps w)"
proof (induction ps arbitrary: w)
  case (Cons p ps)
  obtain fd w1 where s: "sys_socket api p w = (fd, w1)" by (cases "sys_socket api p w")
  show ?case
  proof (cases "fd < 0")
    case True
    then show ?thesis using net_libD(1) [OF Cons.prems s] s walk_ok_cong [OF _ _ Cons.IH [OF Cons.prems, of w1]] by auto
  next
    case nn: False
    obtain rc w2 where b: "sys_connect api fd p w1 = (rc, w2)" by (cases "sys_connect api fd p w1")
    note bw = net_libD(4) [OF Cons.prems b]
    show ?thesis
    proof (cases "rc = -1")
      case False
      then show ?thesis using net_libD(2) [OF Cons.prems s nn] bw s b nn by (simp add: walk_ok_def)
    next
      case True
      obtain rc2 w3 where c: "sys_close api fd w2 = (rc2, w3)" by (cases "sys_close api fd w2")
      note undone = socket_closed [OF Cons.prems s nn bw c]
      show ?thesis using s b c nn True undone walk_ok_cong [OF undone(1,2) Cons.IH [OF Cons.prems]]
        by (cases "rc2 < 0") (simp_all add: walk_ok_def)
    qed
  qed
qed (simp add: walk_ok_def)

lemma listen_walk_ok: "net_lib api fds allocs \<Longrightarrow> walk_ok api fds allocs w (listen_walk api ps w)"
proof (induction ps arbitrary: w)
  case (Cons p ps)
  obtain fd w1 where s: "sys_socket api p w = (fd, w1)" by (cases "sys_socket api p w")
  show ?case
  proof (cases "fd < 0")
    case True
    then show ?thesis using net_libD(1) [OF Cons.prems s] s walk_ok_cong [OF _ _ Cons.IH [OF Cons.prems, of w1]] by auto
  next
    case nn: False
    obtain rc w2 where b: "sys_bind api fd p (sys_reuse api fd w1) = (rc, w2)"
      by (cases "sys_bind api fd p (sys_reuse api fd w1)")
    have bw: "fds w2 = fds w1 \<and> allocs w2 = allocs w1"
      using net_libD(5) [OF Cons.prems b] net_libD(7,8) [OF Cons.prems] by simp
    show ?thesis
    proof (cases "rc = 0")
      case True
      then show ?thesis using net_libD(2) [OF Cons.prems s nn] bw s b nn by (simp add: walk_ok_def)
    next
      case False
      obtain rc2 w3 where c: "sys_close api fd w2 = (rc2, w3)" by (cases "sys_close api fd w2")
      note undone = socket_closed [OF Cons.prems s nn bw c]
      show ?thesis using s b c nn False undone walk_ok_cong [OF undone(1,2) Cons.IH [OF Cons.prems]]
        by (cases "rc2 < 0") (simp_all add: walk_ok_def)
    qed
  qed
qed (simp add: walk_ok_def)

text \<open>
  C24. Opening leaks no descriptor: when \<open>open_clientfd\<close> or \<open>open_listenfd\<close> returns one it is new and the
  only descriptor more in use, and when they return -1 or -2 the descriptors in use are as before. The
  address list is freed on every path, except when closing a socket that did not work fails.
\<close>

theorem open_fd_no_leak:
  assumes "net_lib api fds allocs"
  shows "(case open_clientfd api host port w of (r, w') \<Rightarrow> -2 \<le> r
      \<and> (if r < 0 then fds w' = fds w else r \<notin> fds w \<and> fds w' = insert r (fds w))
      \<and> (close_works api \<longrightarrow> allocs w' = allocs w))
    \<and> (case open_listenfd api port w of (r, w') \<Rightarrow> -2 \<le> r
      \<and> (if r < 0 then fds w' = fds w else r \<notin> fds w \<and> fds w' = insert r (fds w))
      \<and> (close_works api \<longrightarrow> allocs w' = allocs w))"
proof (intro conjI)
  obtain rc l w1 where g: "getaddrinfo api False (Some host) port w = ((rc, l), w1)"
    by (metis surj_pair)
  obtain r w2 where c: "client_walk api l w1 = (r, w2)" by (cases "client_walk api l w1")
  show "case open_clientfd api host port w of (r, w') \<Rightarrow> -2 \<le> r
      \<and> (if r < 0 then fds w' = fds w else r \<notin> fds w \<and> fds w' = insert r (fds w))
      \<and> (close_works api \<longrightarrow> allocs w' = allocs w)"
    using client_walk_ok [OF assms, of w1 l] net_libD(9) [OF assms g] net_libD(10,11) [OF assms, of w2]
    by (auto simp: open_clientfd_def g c walk_ok_def Let_def split: sum.splits option.splits)
next
  obtain rc l w1 where g: "getaddrinfo api True None port w = ((rc, l), w1)" by (metis surj_pair)
  obtain r w2 where c: "listen_walk api l w1 = (r, w2)" by (cases "listen_walk api l w1")
  note k = listen_walk_ok [OF assms, of w1 l, unfolded c] net_libD(9) [OF assms g] net_libD(10,11) [OF assms, of w2]
  show "case open_listenfd api port w of (r, w') \<Rightarrow> -2 \<le> r
      \<and> (if r < 0 then fds w' = fds w else r \<notin> fds w \<and> fds w' = insert r (fds w))
      \<and> (close_works api \<longrightarrow> allocs w' = allocs w)"
  proof (cases "\<exists>fd. rc = 0 \<and> r = Inr (Some fd)")
    case False
    then show ?thesis using k by (auto simp: open_listenfd_def g c walk_ok_def Let_def split: sum.splits option.splits)
  next
    case True
    then obtain fd where fd: "rc = 0" "r = Inr (Some fd)" by blast
    obtain rc4 w4 where l4: "sys_listen api fd LISTENQ (freeaddrinfo api w2) = (rc4, w4)"
      by (cases "sys_listen api fd LISTENQ (freeaddrinfo api w2)")
    obtain rc5 w5 where c5: "sys_close api fd w4 = (rc5, w5)" by (cases "sys_close api fd w4")
    show ?thesis using k net_libD(6) [OF assms l4] net_libD(3) [OF assms c5] fd
      by (auto simp: open_listenfd_def g c walk_ok_def Let_def l4 c5)
  qed
qed

text \<open>A system with two addresses, of which the first refuses connections and binding.\<close>

definition demo_net :: "(int list \<times> nat, bool) net_api" where
  "demo_net = \<lparr>getaddrinfo = (\<lambda>p n po (l, k). ((0, [False, True]), (l, k + 1))),
     freeaddrinfo = (\<lambda>(l, k). (l, k - 1)),
     sys_socket = (\<lambda>a (l, k). let fd = 1 + fold max l 2 in (fd, (fd # l, k))),
     sys_reuse = (\<lambda>fd w. w), sys_connect = (\<lambda>fd a w. (if a then 0 else -1, w)),
     sys_bind = (\<lambda>fd a w. (if a then 0 else -1, w)), sys_listen = (\<lambda>fd q w. (0, w)),
     sys_close = (\<lambda>fd (l, k). (0, (removeAll fd l, k)))\<rparr>"

lemma fold_max: "x \<in> set l \<Longrightarrow> x \<le> fold max l (m :: int)" "m \<le> fold max l m"
proof (induction l arbitrary: m)
  case (Cons y l)
  {
    case 1
    then show ?case using Cons(1) [of "max y m"] Cons(2) [of "max y m"] by (auto intro: order_trans [of _ "max y m"])
  next
    case 2
    then show ?case using Cons(2) [of "max y m"] by simp
  }
qed simp_all

lemma demo_net_lib: "net_lib demo_net (\<lambda>w. set (fst w)) snd"
proof -
  have "1 + fold max l 2 \<notin> set l" for l :: "int list" using fold_max(1) [of "1 + fold max l 2" l 2] by auto
  moreover have "\<not> 1 + fold max l 2 < (0 :: int)" for l using fold_max(2) [of 2 l] by linarith
  ultimately show ?thesis by (auto simp: net_lib_def demo_net_def Let_def)
qed

theorem open_fd_no_leak_witness:
  "open_listenfd demo_net ''3333'' ([0, 1, 2], 0) = (3, ([3, 0, 1, 2], 0))
   \<and> insert 3 (set [0, 1, 2]) = set [3, 0, 1, 2 :: int]"
proof -
  have r: "open_listenfd demo_net ''3333'' ([0, 1, 2], 0) = (3, ([3, 0, 1, 2], 0))" by code_simp
  show ?thesis using open_fd_no_leak [OF demo_net_lib, where host = "''h''" and port = "''3333''" and w = "([0, 1, 2], 0)"] unfolding r by simp
qed

end
