(* ===== verification/CsappWrappers.thy ===== *)
theory CsappWrappers
  imports Prelude
begin

section \<open>Wrappers of library calls (hw5/src/csapp.c)\<close>

text \<open>
  The wrappers that make one call of the system or the C library and end the process when it fails. The
  call is an argument, a function on a state of the system that also stands for the memory its pointers
  lead to. \<open>P\<close> and \<open>V\<close>, the wrappers of buffered input and output, and those of \<open>open_clientfd\<close> and \<open>open_listenfd\<close> are
  in \<open>Prelude\<close>, \<open>Rio\<close> and \<open>Csapp\<close>.
\<close>

record 'w c_lib =
  errno :: "'w \<Rightarrow> int"
  set_errno :: "int \<Rightarrow> 'w \<Rightarrow> 'w"
  strerror :: "int \<Rightarrow> string"
  gai_strerror :: "int \<Rightarrow> string"
  to_stderr :: "string \<Rightarrow> 'w \<Rightarrow> 'w"

text \<open>A call ends the process with a status, or gives a result; the state of the system is kept in both cases.\<close>

type_synonym ('w, 'a) call = "'w \<Rightarrow> (int \<times> 'w) + ('a \<times> 'w)"

definition EINTR :: int where "EINTR = 4"

definition unix_error :: "'w c_lib \<Rightarrow> string \<Rightarrow> ('w, 'a) call" where
  "unix_error lib msg w = Inl (0, to_stderr lib (msg @ '': '' @ strerror lib (errno lib w) @ [nl]) w)"

definition posix_error :: "'w c_lib \<Rightarrow> int \<Rightarrow> string \<Rightarrow> ('w, 'a) call" where
  "posix_error lib code msg w = Inl (0, to_stderr lib (msg @ '': '' @ strerror lib code @ [nl]) w)"

definition gai_error :: "'w c_lib \<Rightarrow> int \<Rightarrow> string \<Rightarrow> ('w, 'a) call" where
  "gai_error lib code msg w = Inl (0, to_stderr lib (msg @ '': '' @ gai_strerror lib code @ [nl]) w)"

definition app_error :: "'w c_lib \<Rightarrow> string \<Rightarrow> ('w, 'a) call" where
  "app_error lib msg w = Inl (0, to_stderr lib (msg @ [nl]) w)"

definition dns_error :: "'w c_lib \<Rightarrow> string \<Rightarrow> ('w, 'a) call" where
  "dns_error lib msg w = Inl (0, to_stderr lib (msg @ [nl]) w)"

lemmas exit_defs = unix_error_def posix_error_def gai_error_def app_error_def dns_error_def

text \<open>
  The shapes of a wrapper: a negative result is an error, a result other than 0 is an error and its code, NULL is an
  error, no result is an error. \<open>void\<close> drops the result.
\<close>

definition int_call :: "'w c_lib \<Rightarrow> string \<Rightarrow> ('w \<Rightarrow> int \<times> 'w) \<Rightarrow> ('w, int) call" where
  "int_call lib msg f w = (case f w of (rc, w1) \<Rightarrow> if rc < 0 then unix_error lib msg w1 else Inr (rc, w1))"

definition zero_call :: "(int \<Rightarrow> string \<Rightarrow> ('w, unit) call) \<Rightarrow> string \<Rightarrow> ('w \<Rightarrow> int \<times> 'w) \<Rightarrow> ('w, unit) call" where
  "zero_call err msg f w = (case f w of (rc, w1) \<Rightarrow> if rc \<noteq> 0 then err rc msg w1 else Inr ((), w1))"

definition ptr_call :: "('w, 'r) call \<Rightarrow> ('w \<Rightarrow> 'r option \<times> 'w) \<Rightarrow> ('w, 'r) call" where
  "ptr_call err f w = (case f w of (None, w1) \<Rightarrow> err w1 | (Some p, w1) \<Rightarrow> Inr (p, w1))"

definition plain_call :: "('w \<Rightarrow> 'r \<times> 'w) \<Rightarrow> ('w, 'r) call" where
  "plain_call f w = Inr (f w)"

definition void :: "('w, 'a) call \<Rightarrow> ('w, unit) call" where
  "void f w = (case f w of Inl e \<Rightarrow> Inl e | Inr (_, w1) \<Rightarrow> Inr ((), w1))"

subsection \<open>Processes\<close>

definition Fork :: "'w c_lib \<Rightarrow> ('w \<Rightarrow> int \<times> 'w) \<Rightarrow> ('w, int) call" where
  "Fork lib fork =
     int_call lib ''Fork error'' fork"

definition Execve :: "'w c_lib \<Rightarrow> (string \<Rightarrow> string list \<Rightarrow> string list \<Rightarrow> 'w \<Rightarrow> int \<times> 'w) \<Rightarrow> string \<Rightarrow> string list \<Rightarrow> string list \<Rightarrow> ('w, unit) call" where
  "Execve lib execve filename argv envp =
     void (int_call lib ''Execve error'' (execve filename argv envp))"

definition Wait :: "'w c_lib \<Rightarrow> ('p \<Rightarrow> 'w \<Rightarrow> int \<times> 'w) \<Rightarrow> 'p \<Rightarrow> ('w, int) call" where
  "Wait lib wait status =
     int_call lib ''Wait error'' (wait status)"

definition Waitpid :: "'w c_lib \<Rightarrow> (int \<Rightarrow> 'p \<Rightarrow> int \<Rightarrow> 'w \<Rightarrow> int \<times> 'w) \<Rightarrow> int \<Rightarrow> 'p \<Rightarrow> int \<Rightarrow> ('w, int) call" where
  "Waitpid lib waitpid pid iptr options =
     int_call lib ''Waitpid error'' (waitpid pid iptr options)"

definition Kill :: "'w c_lib \<Rightarrow> (int \<Rightarrow> int \<Rightarrow> 'w \<Rightarrow> int \<times> 'w) \<Rightarrow> int \<Rightarrow> int \<Rightarrow> ('w, unit) call" where
  "Kill lib kill pid signum =
     void (int_call lib ''Kill error'' (kill pid signum))"

definition Pause :: "'w c_lib \<Rightarrow> ('w \<Rightarrow> int \<times> 'w) \<Rightarrow> ('w, unit) call" where
  "Pause lib pause =
     void (plain_call pause)"

text \<open>The result of \<open>sleep\<close> is unsigned.\<close>

definition Sleep :: "'w c_lib \<Rightarrow> (32 word \<Rightarrow> 'w \<Rightarrow> 32 word \<times> 'w) \<Rightarrow> 32 word \<Rightarrow> ('w, 32 word) call" where
  "Sleep lib sleep secs =
     (\<lambda>w. case sleep secs w of (rc, w1) \<Rightarrow>
        if rc < 0 then unix_error lib ''Sleep error'' w1 else Inr (rc, w1))"

definition Alarm :: "'w c_lib \<Rightarrow> (32 word \<Rightarrow> 'w \<Rightarrow> 32 word \<times> 'w) \<Rightarrow> 32 word \<Rightarrow> ('w, 32 word) call" where
  "Alarm lib alarm seconds =
     plain_call (alarm seconds)"

definition Setpgid :: "'w c_lib \<Rightarrow> (int \<Rightarrow> int \<Rightarrow> 'w \<Rightarrow> int \<times> 'w) \<Rightarrow> int \<Rightarrow> int \<Rightarrow> ('w, unit) call" where
  "Setpgid lib setpgid pid pgid =
     void (int_call lib ''Setpgid error'' (setpgid pid pgid))"

definition Getpgrp :: "'w c_lib \<Rightarrow> ('w \<Rightarrow> int \<times> 'w) \<Rightarrow> ('w, int) call" where
  "Getpgrp lib getpgrp =
     plain_call getpgrp"

subsection \<open>Signals\<close>

text \<open>\<open>sigemptyset\<close> gives the empty mask; \<open>sigaction\<close> takes the new action and gives the old one.\<close>

record ('h, 'm) sigaction =
  sa_handler :: 'h
  sa_mask :: 'm
  sa_flags :: int

definition SA_RESTART :: int where "SA_RESTART = 0x10000000"

definition Signal :: "'w c_lib \<Rightarrow> 'm \<Rightarrow> (int \<Rightarrow> ('h, 'm) sigaction \<Rightarrow> 'w \<Rightarrow> (int \<times> ('h, 'm) sigaction) \<times> 'w) \<Rightarrow>
    int \<Rightarrow> 'h \<Rightarrow> ('w, 'h) call" where
  "Signal lib empty_mask sys_sigaction signum handler w =
     (let action = \<lparr>sa_handler = handler, sa_mask = empty_mask, sa_flags = SA_RESTART\<rparr> in
      case sys_sigaction signum action w of ((rc, old_action), w1) \<Rightarrow>
        if rc < 0 then unix_error lib ''Signal error'' w1 else Inr (sa_handler old_action, w1))"

definition Sigprocmask :: "'w c_lib \<Rightarrow> (int \<Rightarrow> 'p \<Rightarrow> 'p \<Rightarrow> 'w \<Rightarrow> int \<times> 'w) \<Rightarrow> int \<Rightarrow> 'p \<Rightarrow> 'p \<Rightarrow> ('w, unit) call" where
  "Sigprocmask lib sigprocmask how sigset oldset =
     void (int_call lib ''Sigprocmask error'' (sigprocmask how sigset oldset))"

definition Sigemptyset :: "'w c_lib \<Rightarrow> ('p \<Rightarrow> 'w \<Rightarrow> int \<times> 'w) \<Rightarrow> 'p \<Rightarrow> ('w, unit) call" where
  "Sigemptyset lib sigemptyset sigset =
     void (int_call lib ''Sigemptyset error'' (sigemptyset sigset))"

definition Sigfillset :: "'w c_lib \<Rightarrow> ('p \<Rightarrow> 'w \<Rightarrow> int \<times> 'w) \<Rightarrow> 'p \<Rightarrow> ('w, unit) call" where
  "Sigfillset lib sigfillset sigset =
     void (int_call lib ''Sigfillset error'' (sigfillset sigset))"

definition Sigaddset :: "'w c_lib \<Rightarrow> ('p \<Rightarrow> int \<Rightarrow> 'w \<Rightarrow> int \<times> 'w) \<Rightarrow> 'p \<Rightarrow> int \<Rightarrow> ('w, unit) call" where
  "Sigaddset lib sigaddset sigset signum =
     void (int_call lib ''Sigaddset error'' (sigaddset sigset signum))"

definition Sigdelset :: "'w c_lib \<Rightarrow> ('p \<Rightarrow> int \<Rightarrow> 'w \<Rightarrow> int \<times> 'w) \<Rightarrow> 'p \<Rightarrow> int \<Rightarrow> ('w, unit) call" where
  "Sigdelset lib sigdelset sigset signum =
     void (int_call lib ''Sigdelset error'' (sigdelset sigset signum))"

definition Sigismember :: "'w c_lib \<Rightarrow> ('p \<Rightarrow> int \<Rightarrow> 'w \<Rightarrow> int \<times> 'w) \<Rightarrow> 'p \<Rightarrow> int \<Rightarrow> ('w, int) call" where
  "Sigismember lib sigismember sigset signum =
     int_call lib ''Sigismember error'' (sigismember sigset signum)"

text \<open>Suspending always gives -1; only an \<open>errno\<close> other than \<open>EINTR\<close> is an error.\<close>

definition Sigsuspend :: "'w c_lib \<Rightarrow> ('p \<Rightarrow> 'w \<Rightarrow> int \<times> 'w) \<Rightarrow> 'p \<Rightarrow> ('w, int) call" where
  "Sigsuspend lib sigsuspend sigset =
     (\<lambda>w. case sigsuspend sigset w of (rc, w1) \<Rightarrow>
        if errno lib w1 \<noteq> EINTR then unix_error lib ''Sigsuspend error'' w1 else Inr (rc, w1))"

subsection \<open>Files and directories\<close>

definition Open :: "'w c_lib \<Rightarrow> (string \<Rightarrow> int \<Rightarrow> int \<Rightarrow> 'w \<Rightarrow> int \<times> 'w) \<Rightarrow> string \<Rightarrow> int \<Rightarrow> int \<Rightarrow> ('w, int) call" where
  "Open lib sys_open pathname oflags mode =
     int_call lib ''Open error'' (sys_open pathname oflags mode)"

definition Read :: "'w c_lib \<Rightarrow> (int \<Rightarrow> 'p \<Rightarrow> 64 word \<Rightarrow> 'w \<Rightarrow> int \<times> 'w) \<Rightarrow> int \<Rightarrow> 'p \<Rightarrow> 64 word \<Rightarrow> ('w, int) call" where
  "Read lib sys_read fd buf n =
     int_call lib ''Read error'' (sys_read fd buf n)"

definition Write :: "'w c_lib \<Rightarrow> (int \<Rightarrow> 'p \<Rightarrow> 64 word \<Rightarrow> 'w \<Rightarrow> int \<times> 'w) \<Rightarrow> int \<Rightarrow> 'p \<Rightarrow> 64 word \<Rightarrow> ('w, int) call" where
  "Write lib sys_write fd buf n =
     int_call lib ''Write error'' (sys_write fd buf n)"

definition Lseek :: "'w c_lib \<Rightarrow> (int \<Rightarrow> int \<Rightarrow> int \<Rightarrow> 'w \<Rightarrow> int \<times> 'w) \<Rightarrow> int \<Rightarrow> int \<Rightarrow> int \<Rightarrow> ('w, int) call" where
  "Lseek lib lseek fildes offset whence =
     int_call lib ''Lseek error'' (lseek fildes offset whence)"

definition Close :: "'w c_lib \<Rightarrow> (int \<Rightarrow> 'w \<Rightarrow> int \<times> 'w) \<Rightarrow> int \<Rightarrow> ('w, unit) call" where
  "Close lib sys_close fd =
     void (int_call lib ''Close error'' (sys_close fd))"

definition Select :: "'w c_lib \<Rightarrow> (int \<Rightarrow> 'p \<Rightarrow> 'p \<Rightarrow> 'p \<Rightarrow> 'p \<Rightarrow> 'w \<Rightarrow> int \<times> 'w) \<Rightarrow> int \<Rightarrow> 'p \<Rightarrow> 'p \<Rightarrow> 'p \<Rightarrow> 'p \<Rightarrow> ('w, int) call" where
  "Select lib select n readfds writefds exceptfds timeout =
     int_call lib ''Select error'' (select n readfds writefds exceptfds timeout)"

definition Dup2 :: "'w c_lib \<Rightarrow> (int \<Rightarrow> int \<Rightarrow> 'w \<Rightarrow> int \<times> 'w) \<Rightarrow> int \<Rightarrow> int \<Rightarrow> ('w, int) call" where
  "Dup2 lib dup2 fd1 fd2 =
     int_call lib ''Dup2 error'' (dup2 fd1 fd2)"

definition Stat :: "'w c_lib \<Rightarrow> (string \<Rightarrow> 'p \<Rightarrow> 'w \<Rightarrow> int \<times> 'w) \<Rightarrow> string \<Rightarrow> 'p \<Rightarrow> ('w, unit) call" where
  "Stat lib sys_stat filename buf =
     void (int_call lib ''Stat error'' (sys_stat filename buf))"

definition Fstat :: "'w c_lib \<Rightarrow> (int \<Rightarrow> 'p \<Rightarrow> 'w \<Rightarrow> int \<times> 'w) \<Rightarrow> int \<Rightarrow> 'p \<Rightarrow> ('w, unit) call" where
  "Fstat lib fstat fd buf =
     void (int_call lib ''Fstat error'' (fstat fd buf))"

definition Opendir :: "'w c_lib \<Rightarrow> (string \<Rightarrow> 'w \<Rightarrow> 'r option \<times> 'w) \<Rightarrow> string \<Rightarrow> ('w, 'r) call" where
  "Opendir lib opendir dirname =
     ptr_call (unix_error lib ''opendir error'') (opendir dirname)"

text \<open>The end of the directory is NULL with \<open>errno\<close> unchanged, so it is cleared before.\<close>

definition Readdir :: "'w c_lib \<Rightarrow> ('p \<Rightarrow> 'w \<Rightarrow> 'r option \<times> 'w) \<Rightarrow> 'p \<Rightarrow> ('w, 'r option) call" where
  "Readdir lib readdir dirp =
     (\<lambda>w. case readdir dirp (set_errno lib 0 w) of (dep, w1) \<Rightarrow>
        if dep = None \<and> errno lib w1 \<noteq> 0 then unix_error lib ''readdir error'' w1 else Inr (dep, w1))"

definition Closedir :: "'w c_lib \<Rightarrow> ('p \<Rightarrow> 'w \<Rightarrow> int \<times> 'w) \<Rightarrow> 'p \<Rightarrow> ('w, int) call" where
  "Closedir lib closedir dirp =
     int_call lib ''closedir error'' (closedir dirp)"

subsection \<open>Memory\<close>

definition Mmap :: "'w c_lib \<Rightarrow> (64 word \<Rightarrow> 64 word \<Rightarrow> int \<Rightarrow> int \<Rightarrow> int \<Rightarrow> int \<Rightarrow> 'w \<Rightarrow> 64 word \<times> 'w) \<Rightarrow> 64 word \<Rightarrow> 64 word \<Rightarrow> int \<Rightarrow> int \<Rightarrow> int \<Rightarrow> int \<Rightarrow> ('w, 64 word) call" where
  "Mmap lib mmap addr len prot mflags fd offset =
     (\<lambda>w. case mmap addr len prot mflags fd offset w of (ptr, w1) \<Rightarrow>
        if ptr = -1 then unix_error lib ''mmap error'' w1 else Inr (ptr, w1))"

definition Munmap :: "'w c_lib \<Rightarrow> ('p \<Rightarrow> 64 word \<Rightarrow> 'w \<Rightarrow> int \<times> 'w) \<Rightarrow> 'p \<Rightarrow> 64 word \<Rightarrow> ('w, unit) call" where
  "Munmap lib munmap start n =
     void (int_call lib ''munmap error'' (munmap start n))"

definition Malloc :: "'w c_lib \<Rightarrow> (64 word \<Rightarrow> 'w \<Rightarrow> 'r option \<times> 'w) \<Rightarrow> 64 word \<Rightarrow> ('w, 'r) call" where
  "Malloc lib malloc n =
     ptr_call (unix_error lib ''Malloc error'') (malloc n)"

definition Realloc :: "'w c_lib \<Rightarrow> ('p \<Rightarrow> 64 word \<Rightarrow> 'w \<Rightarrow> 'r option \<times> 'w) \<Rightarrow> 'p \<Rightarrow> 64 word \<Rightarrow> ('w, 'r) call" where
  "Realloc lib realloc ptr n =
     ptr_call (unix_error lib ''Realloc error'') (realloc ptr n)"

definition Calloc :: "'w c_lib \<Rightarrow> (64 word \<Rightarrow> 64 word \<Rightarrow> 'w \<Rightarrow> 'r option \<times> 'w) \<Rightarrow> 64 word \<Rightarrow> 64 word \<Rightarrow> ('w, 'r) call" where
  "Calloc lib calloc nmemb n =
     ptr_call (unix_error lib ''Calloc error'') (calloc nmemb n)"

definition Free :: "'w c_lib \<Rightarrow> ('p \<Rightarrow> 'w \<Rightarrow> unit \<times> 'w) \<Rightarrow> 'p \<Rightarrow> ('w, unit) call" where
  "Free lib free ptr =
     plain_call (free ptr)"

subsection \<open>Standard streams\<close>

definition Fclose :: "'w c_lib \<Rightarrow> ('p \<Rightarrow> 'w \<Rightarrow> int \<times> 'w) \<Rightarrow> 'p \<Rightarrow> ('w, unit) call" where
  "Fclose lib fclose fp =
     zero_call (\<lambda>_. unix_error lib) ''Fclose error'' (fclose fp)"

definition Fdopen :: "'w c_lib \<Rightarrow> (int \<Rightarrow> string \<Rightarrow> 'w \<Rightarrow> 'r option \<times> 'w) \<Rightarrow> int \<Rightarrow> string \<Rightarrow> ('w, 'r) call" where
  "Fdopen lib fdopen fd mode =
     ptr_call (unix_error lib ''Fdopen error'') (fdopen fd mode)"

text \<open>\<open>ferror\<close> tells an error on the stream from its end.\<close>

definition Fgets :: "'w c_lib \<Rightarrow> ('p \<Rightarrow> 'w \<Rightarrow> bool) \<Rightarrow> ('q \<Rightarrow> int \<Rightarrow> 'p \<Rightarrow> 'w \<Rightarrow> 'r option \<times> 'w) \<Rightarrow>
    'q \<Rightarrow> int \<Rightarrow> 'p \<Rightarrow> ('w, 'r option) call" where
  "Fgets lib ferror fgets ptr n stream w = (case fgets ptr n stream w of (rptr, w1) \<Rightarrow>
     if rptr = None \<and> ferror stream w1 then app_error lib ''Fgets error'' w1 else Inr (rptr, w1))"

definition Fopen :: "'w c_lib \<Rightarrow> (string \<Rightarrow> string \<Rightarrow> 'w \<Rightarrow> 'r option \<times> 'w) \<Rightarrow> string \<Rightarrow> string \<Rightarrow> ('w, 'r) call" where
  "Fopen lib fopen filename mode =
     ptr_call (unix_error lib ''Fopen error'') (fopen filename mode)"

text \<open>\<open>EOF\<close> is -1.\<close>

definition Fputs :: "'w c_lib \<Rightarrow> (string \<Rightarrow> 'p \<Rightarrow> 'w \<Rightarrow> int \<times> 'w) \<Rightarrow> string \<Rightarrow> 'p \<Rightarrow> ('w, unit) call" where
  "Fputs lib fputs ptr stream =
     (\<lambda>w. case fputs ptr stream w of (rc, w1) \<Rightarrow>
        if rc = -1 then unix_error lib ''Fputs error'' w1 else Inr ((), w1))"

definition Fread :: "'w c_lib \<Rightarrow> ('p \<Rightarrow> 'w \<Rightarrow> bool) \<Rightarrow> ('q \<Rightarrow> 64 word \<Rightarrow> 64 word \<Rightarrow> 'p \<Rightarrow> 'w \<Rightarrow> 64 word \<times> 'w) \<Rightarrow>
    'q \<Rightarrow> 64 word \<Rightarrow> 64 word \<Rightarrow> 'p \<Rightarrow> ('w, 64 word) call" where
  "Fread lib ferror fread ptr sz nmemb stream w = (case fread ptr sz nmemb stream w of (n, w1) \<Rightarrow>
     if n < nmemb \<and> ferror stream w1 then unix_error lib ''Fread error'' w1 else Inr (n, w1))"

definition Fwrite :: "'w c_lib \<Rightarrow> ('q \<Rightarrow> 64 word \<Rightarrow> 64 word \<Rightarrow> 'p \<Rightarrow> 'w \<Rightarrow> 64 word \<times> 'w) \<Rightarrow> 'q \<Rightarrow> 64 word \<Rightarrow> 64 word \<Rightarrow> 'p \<Rightarrow> ('w, unit) call" where
  "Fwrite lib fwrite ptr sz nmemb stream =
     (\<lambda>w. case fwrite ptr sz nmemb stream w of (n, w1) \<Rightarrow>
        if n < nmemb then unix_error lib ''Fwrite error'' w1 else Inr ((), w1))"

subsection \<open>Sockets\<close>

definition Socket :: "'w c_lib \<Rightarrow> (int \<Rightarrow> int \<Rightarrow> int \<Rightarrow> 'w \<Rightarrow> int \<times> 'w) \<Rightarrow> int \<Rightarrow> int \<Rightarrow> int \<Rightarrow> ('w, int) call" where
  "Socket lib sys_socket domain stype protocol =
     int_call lib ''Socket error'' (sys_socket domain stype protocol)"

definition Setsockopt :: "'w c_lib \<Rightarrow> (int \<Rightarrow> int \<Rightarrow> int \<Rightarrow> 'p \<Rightarrow> int \<Rightarrow> 'w \<Rightarrow> int \<times> 'w) \<Rightarrow> int \<Rightarrow> int \<Rightarrow> int \<Rightarrow> 'p \<Rightarrow> int \<Rightarrow> ('w, unit) call" where
  "Setsockopt lib setsockopt sd level optname optval optlen =
     void (int_call lib ''Setsockopt error'' (setsockopt sd level optname optval optlen))"

definition Bind :: "'w c_lib \<Rightarrow> (int \<Rightarrow> 'p \<Rightarrow> int \<Rightarrow> 'w \<Rightarrow> int \<times> 'w) \<Rightarrow> int \<Rightarrow> 'p \<Rightarrow> int \<Rightarrow> ('w, unit) call" where
  "Bind lib sys_bind sockfd my_addr addrlen =
     void (int_call lib ''Bind error'' (sys_bind sockfd my_addr addrlen))"

definition Listen :: "'w c_lib \<Rightarrow> (int \<Rightarrow> int \<Rightarrow> 'w \<Rightarrow> int \<times> 'w) \<Rightarrow> int \<Rightarrow> int \<Rightarrow> ('w, unit) call" where
  "Listen lib sys_listen sd backlog =
     void (int_call lib ''Listen error'' (sys_listen sd backlog))"

definition Accept :: "'w c_lib \<Rightarrow> (int \<Rightarrow> 'p \<Rightarrow> 'p \<Rightarrow> 'w \<Rightarrow> int \<times> 'w) \<Rightarrow> int \<Rightarrow> 'p \<Rightarrow> 'p \<Rightarrow> ('w, int) call" where
  "Accept lib sys_accept sd addr addrlen =
     int_call lib ''Accept error'' (sys_accept sd addr addrlen)"

definition Connect :: "'w c_lib \<Rightarrow> (int \<Rightarrow> 'p \<Rightarrow> int \<Rightarrow> 'w \<Rightarrow> int \<times> 'w) \<Rightarrow> int \<Rightarrow> 'p \<Rightarrow> int \<Rightarrow> ('w, unit) call" where
  "Connect lib sys_connect sockfd serv_addr addrlen =
     void (int_call lib ''Connect error'' (sys_connect sockfd serv_addr addrlen))"

definition Getaddrinfo :: "'w c_lib \<Rightarrow> ('p \<Rightarrow> 'p \<Rightarrow> 'q \<Rightarrow> 'r \<Rightarrow> 'w \<Rightarrow> int \<times> 'w) \<Rightarrow> 'p \<Rightarrow> 'p \<Rightarrow> 'q \<Rightarrow> 'r \<Rightarrow> ('w, unit) call" where
  "Getaddrinfo lib sys_getaddrinfo node service hints res =
     zero_call (gai_error lib) ''Getaddrinfo error'' (sys_getaddrinfo node service hints res)"

definition Getnameinfo :: "'w c_lib \<Rightarrow> ('p \<Rightarrow> int \<Rightarrow> 'q \<Rightarrow> 64 word \<Rightarrow> 'q \<Rightarrow> 64 word \<Rightarrow> int \<Rightarrow> 'w \<Rightarrow> int \<times> 'w) \<Rightarrow> 'p \<Rightarrow> int \<Rightarrow> 'q \<Rightarrow> 64 word \<Rightarrow> 'q \<Rightarrow> 64 word \<Rightarrow> int \<Rightarrow> ('w, unit) call" where
  "Getnameinfo lib getnameinfo sa salen host hostlen serv servlen gflags =
     zero_call (gai_error lib) ''Getnameinfo error'' (getnameinfo sa salen host hostlen serv servlen gflags)"

definition Freeaddrinfo :: "'w c_lib \<Rightarrow> ('p \<Rightarrow> 'w \<Rightarrow> unit \<times> 'w) \<Rightarrow> 'p \<Rightarrow> ('w, unit) call" where
  "Freeaddrinfo lib sys_freeaddrinfo res =
     plain_call (sys_freeaddrinfo res)"

definition Inet_ntop :: "'w c_lib \<Rightarrow> (int \<Rightarrow> 'p \<Rightarrow> 'q \<Rightarrow> 32 word \<Rightarrow> 'w \<Rightarrow> 'r option \<times> 'w) \<Rightarrow> int \<Rightarrow> 'p \<Rightarrow> 'q \<Rightarrow> 32 word \<Rightarrow> ('w, unit) call" where
  "Inet_ntop lib inet_ntop af src dst n =
     void (ptr_call (unix_error lib ''Inet_ntop error'') (inet_ntop af src dst n))"

definition Inet_pton :: "'w c_lib \<Rightarrow> (int \<Rightarrow> string \<Rightarrow> 'q \<Rightarrow> 'w \<Rightarrow> int \<times> 'w) \<Rightarrow> int \<Rightarrow> string \<Rightarrow> 'q \<Rightarrow> ('w, unit) call" where
  "Inet_pton lib inet_pton af src dst =
     (\<lambda>w. case inet_pton af src dst w of (rc, w1) \<Rightarrow>
        if rc = 0 then app_error lib ''inet_pton error: invalid dotted-decimal address'' w1
        else if rc < 0 then unix_error lib ''Inet_pton error'' w1 else Inr ((), w1))"

definition Gethostbyname :: "'w c_lib \<Rightarrow> (string \<Rightarrow> 'w \<Rightarrow> 'r option \<times> 'w) \<Rightarrow> string \<Rightarrow> ('w, 'r) call" where
  "Gethostbyname lib gethostbyname hostname =
     ptr_call (dns_error lib ''Gethostbyname error'') (gethostbyname hostname)"

definition Gethostbyaddr :: "'w c_lib \<Rightarrow> ('p \<Rightarrow> int \<Rightarrow> int \<Rightarrow> 'w \<Rightarrow> 'r option \<times> 'w) \<Rightarrow> 'p \<Rightarrow> int \<Rightarrow> int \<Rightarrow> ('w, 'r) call" where
  "Gethostbyaddr lib gethostbyaddr addr len htype =
     ptr_call (dns_error lib ''Gethostbyaddr error'') (gethostbyaddr addr len htype)"

subsection \<open>Threads and semaphores\<close>

definition Pthread_create :: "'w c_lib \<Rightarrow> ('p \<Rightarrow> 'q \<Rightarrow> 'f \<Rightarrow> 'r \<Rightarrow> 'w \<Rightarrow> int \<times> 'w) \<Rightarrow> 'p \<Rightarrow> 'q \<Rightarrow> 'f \<Rightarrow> 'r \<Rightarrow> ('w, unit) call" where
  "Pthread_create lib pthread_create tidp attrp routine argp =
     zero_call (posix_error lib) ''Pthread_create error'' (pthread_create tidp attrp routine argp)"

definition Pthread_cancel :: "'w c_lib \<Rightarrow> ('p \<Rightarrow> 'w \<Rightarrow> int \<times> 'w) \<Rightarrow> 'p \<Rightarrow> ('w, unit) call" where
  "Pthread_cancel lib pthread_cancel tid =
     zero_call (posix_error lib) ''Pthread_cancel error'' (pthread_cancel tid)"

definition Pthread_join :: "'w c_lib \<Rightarrow> ('p \<Rightarrow> 'q \<Rightarrow> 'w \<Rightarrow> int \<times> 'w) \<Rightarrow> 'p \<Rightarrow> 'q \<Rightarrow> ('w, unit) call" where
  "Pthread_join lib pthread_join tid thread_return =
     zero_call (posix_error lib) ''Pthread_join error'' (pthread_join tid thread_return)"

definition Pthread_detach :: "'w c_lib \<Rightarrow> ('p \<Rightarrow> 'w \<Rightarrow> int \<times> 'w) \<Rightarrow> 'p \<Rightarrow> ('w, unit) call" where
  "Pthread_detach lib pthread_detach tid =
     zero_call (posix_error lib) ''Pthread_detach error'' (pthread_detach tid)"

text \<open>\<open>pthread_exit\<close> does not return to its caller; the result is that of the thread.\<close>

definition Pthread_exit :: "'w c_lib \<Rightarrow> ('p \<Rightarrow> 'w \<Rightarrow> unit \<times> 'w) \<Rightarrow> 'p \<Rightarrow> ('w, unit) call" where
  "Pthread_exit lib pthread_exit retval =
     plain_call (pthread_exit retval)"

definition Pthread_self :: "'w c_lib \<Rightarrow> ('w \<Rightarrow> 'r \<times> 'w) \<Rightarrow> ('w, 'r) call" where
  "Pthread_self lib pthread_self =
     plain_call pthread_self"

definition Pthread_once :: "'w c_lib \<Rightarrow> ('p \<Rightarrow> 'f \<Rightarrow> 'w \<Rightarrow> int \<times> 'w) \<Rightarrow> 'p \<Rightarrow> 'f \<Rightarrow> ('w, unit) call" where
  "Pthread_once lib pthread_once once_control init_function =
     void (plain_call (pthread_once once_control init_function))"

definition Sem_init :: "'w c_lib \<Rightarrow> ('p \<Rightarrow> int \<Rightarrow> 32 word \<Rightarrow> 'w \<Rightarrow> int \<times> 'w) \<Rightarrow> 'p \<Rightarrow> int \<Rightarrow> 32 word \<Rightarrow> ('w, unit) call" where
  "Sem_init lib sem_init sem pshared v =
     void (int_call lib ''Sem_init error'' (sem_init sem pshared v))"

subsection \<open>What the wrappers promise\<close>

lemma int_call_cases:
  "int_call lib msg f w = Inr (r, w') \<Longrightarrow> f w = (r, w') \<and> 0 \<le> r"
  "int_call lib msg f w = Inl (st, w') \<Longrightarrow> st = 0 \<and> (\<exists>r w1. f w = (r, w1) \<and> r < 0
     \<and> w' = to_stderr lib (msg @ '': '' @ strerror lib (errno lib w1) @ [nl]) w1)"
  by (auto simp: int_call_def unix_error_def split: prod.splits if_splits)

lemma ptr_call_cases: "ptr_call (unix_error lib msg) f w = Inr (p, w') \<longleftrightarrow> f w = (Some p, w')"
  by (auto simp: ptr_call_def unix_error_def split: prod.splits option.splits)

text \<open>A wrapper returns only what the call it makes gave, and never the value that signals a failure.\<close>

lemma wrappers_return:
  "Fork lib fork w = Inr (r, w') \<Longrightarrow> fork w = (r, w') \<and> 0 \<le> r"
  "Waitpid lib waitpid pid iptr options w = Inr (r, w') \<Longrightarrow> waitpid pid iptr options w = (r, w') \<and> 0 \<le> r"
  "Open lib sys_open pathname oflags mode w = Inr (r, w') \<Longrightarrow> sys_open pathname oflags mode w = (r, w') \<and> 0 \<le> r"
  "Read lib sys_read fd buf n w = Inr (r, w') \<Longrightarrow> sys_read fd buf n w = (r, w') \<and> 0 \<le> r"
  "Write lib sys_write fd buf n w = Inr (r, w') \<Longrightarrow> sys_write fd buf n w = (r, w') \<and> 0 \<le> r"
  "Socket lib sys_socket domain stype protocol w = Inr (r, w') \<Longrightarrow> sys_socket domain stype protocol w = (r, w') \<and> 0 \<le> r"
  "Accept lib sys_accept sd addr addrlen w = Inr (r, w') \<Longrightarrow> sys_accept sd addr addrlen w = (r, w') \<and> 0 \<le> r"
  "Malloc lib malloc sz w = Inr (p, w') \<longleftrightarrow> malloc sz w = (Some p, w')"
  "Fopen lib fopen filename md w = Inr (p, w') \<longleftrightarrow> fopen filename md w = (Some p, w')"
  unfolding Fork_def Waitpid_def Open_def Read_def Write_def Socket_def Accept_def Malloc_def Fopen_def ptr_call_cases
  by (drule int_call_cases(1), assumption)+ (rule refl)+

text \<open>The result of \<open>sleep\<close> is unsigned, so the test for an error never succeeds.\<close>

lemma Sleep_never_exits: "Sleep lib sleep secs w = Inr (sleep secs w)"
  by (auto simp: Sleep_def split: prod.splits)

text \<open>An address that is malformed and a family that is not supported end the process with different texts, both with status 0.\<close>

lemma Inet_pton_exits:
  "inet_pton af src dst w = (rc, w1) \<Longrightarrow> Inet_pton lib inet_pton af src dst w
     = (if rc = 0 then Inl (0, to_stderr lib (''inet_pton error: invalid dotted-decimal address'' @ [nl]) w1)
        else if rc < 0 then Inl (0, to_stderr lib (''Inet_pton error: '' @ strerror lib (errno lib w1) @ [nl]) w1)
        else Inr ((), w1))"
  by (simp add: Inet_pton_def exit_defs)

end
