(* ===== verification/JeuxMain.thy ===== *)
theory JeuxMain
  imports Server Csapp
begin

section \<open>Starting and shutting down the server (hw5/src/main.c)\<close>

text \<open>
  \<open>main\<close> up to the accept loop, the loop, and \<open>terminate\<close>, which runs in the handler of SIGHUP. The
  system calls are arguments; a service thread is recorded by the descriptor it is started with, what
  it does is theory \<open>Server\<close>.
\<close>

subsection \<open>Operations\<close>

definition terminate :: "('w, 'c) client_api \<Rightarrow> int \<Rightarrow> (('w, 'c) jworld, unit) action" where
  "terminate api status = bnd (creg_shutdown_all api) (\<lambda>_. bnd creg_wait_for_empty (\<lambda>_ w.
     case (creg_fini (creg w), preg_fini (preg (fst (cw w)))) of _ \<Rightarrow> Inl (Exited status)))"

text \<open>
  What the loop meets: a call of \<open>Accept\<close> returns, with the outcome of \<open>Malloc\<close> before and of
  \<open>pthread_create\<close> after it, or SIGHUP arrives.
\<close>

datatype main_event = Accepted bool int int | SigHup

fun main_loop :: "('w, 'c) client_api \<Rightarrow> main_event list \<Rightarrow> int list \<Rightarrow> (('w, 'c) jworld, int list) action" where
  "main_loop api [] threads w = Inr (threads, w)"
| "main_loop api (e # es) threads w = (case e of
     Accepted allocated connfd rc \<Rightarrow>
       if \<not> allocated \<or> connfd < 0 \<or> rc \<noteq> 0 then Inl (Exited 0)
       else main_loop api es (threads @ [connfd]) w
   | SigHup \<Rightarrow> obind (terminate api 0 w) (\<lambda>_. Inl (Exited 0)))"

text \<open>
  With too few arguments the usage is printed and \<open>argv[2]\<close>, which is not there, is used all the same. The
  result is the listening descriptor and the two registries, \<open>None\<close> when one could not be made; the
  loop starts in either case.
\<close>

definition main_init :: "bool \<Rightarrow> ('n, 'a) net_api \<Rightarrow> string list \<Rightarrow> bool \<Rightarrow> bool \<Rightarrow> bool \<Rightarrow>
    ('n, int \<times> 'c client_registry option \<times> player_registry option) action" where
  "main_init sigaction_ok net argv sem1_ok sem2_ok sem3_ok n =
     (if \<not> sigaction_ok then Inl (Exited (-1))
      else
        let client_registry = creg_init sem1_ok sem2_ok; player_registry = preg_init sem3_ok in
        if length argv < 3 then Inl MemFault
        else obind (Open_listenfd net (argv ! 2) n) (\<lambda>(listenfd, n').
          Inr ((listenfd, client_registry, player_registry), n')))"

subsection \<open>Unregistering every client\<close>

text \<open>The descriptors of clients that live.\<close>

lemma fd_loop_skip:
  assumes "client_lib api view" and "\<forall>x \<in> set pre. \<exists>r. view v x = Some (fd x, r)" and "\<forall>x \<in> set pre. fd x \<noteq> f"
  shows "fd_loop api f (map Some pre @ qs) v = fd_loop api f qs v"
  using assms(2,3) by (induction pre) (auto dest: client_libD(2) [OF assms(1)])

lemma unregister_alive:
  assumes lib: "client_lib api view" and nodes: "creg_nodes (creg w) = map Some (pre @ c # post)"
    and pre: "\<forall>x \<in> set pre. \<exists>r. view (cw w) x = Some (fd x, r)" and c: "view (cw w) c = Some (fd c, n)"
    and fd: "\<forall>x \<in> set pre. fd x \<noteq> fd c" and l: "registryLock (creg w) = 1"
  shows "\<exists>v. creg_unregister api (Some c) w = Inr (0, w\<lparr>creg := (creg w)\<lparr>clientCount := clientCount (creg w) - 1,
        notEmpty := (if clientCount (creg w) = 1 then notEmpty (creg w) + 1 else notEmpty (creg w))\<rparr>, cw := v\<rparr>)
    \<and> view v = (view (cw w))(c := if n \<le> 1 then None else Some (fd c, n - 1))"
proof -
  from client_libD(4) [OF lib c] obtain v where v: "client_unref api (Some c) (cw w) = Inr ((), v)"
    "view v = (view (cw w))(c := if n \<le> 1 then None else Some (fd c, n - 1))" by auto
  have found: "unreg_found api (Some c) 0 w = Inr (0, w\<lparr>creg := (creg w)\<lparr>clientCount := clientCount (creg w) - 1,
        notEmpty := (if clientCount (creg w) = 1 then notEmpty (creg w) + 1 else notEmpty (creg w))\<rparr>, cw := v\<rparr>)"
    using v(1) l by (cases w; cases "creg w") (simp add: unreg_found_def bnd_def on_cw_def Let_def)
  have g: "client_get_fd api (Some c) (cw w) = Inr (fd c)" by (rule client_libD(2) [OF lib c])
  have loop: "fd_loop api (fd c) (creg_nodes (creg w)) (cw w) = Inr True"
    using fd_loop_skip [OF lib pre fd, of "Some c # map Some post"] by (simp add: nodes g)
  show ?thesis
  proof (cases pre)
    case Nil
    then have "creg_unregister api (Some c) w = unreg_found api (Some c) 0 w"
      using l g by (simp add: creg_unregister_def nodes)
    then show ?thesis unfolding found using v(2) by (intro exI [of _ v] conjI refl) assumption
  next
    case (Cons h t)
    then obtain r where "view (cw w) h = Some (fd h, r)" using pre by auto
    from client_libD(2) [OF lib this] have "client_get_fd api (Some h) (cw w) = Inr (fd h)" .
    then have "creg_unregister api (Some c) w = unreg_found api (Some c) 0 w"
      using l g loop fd Cons by (simp add: creg_unregister_def nodes)
    then show ?thesis unfolding found using v(2) by (intro exI [of _ v] conjI refl) assumption
  qed
qed

text \<open>A client in front that has been freed is looked at.\<close>

lemma unregister_dead:
  assumes lib: "client_lib api view" and nodes: "creg_nodes (creg w) = map Some (pre @ x # post)"
    and pre: "\<forall>y \<in> set pre. \<exists>r. view (cw w) y = Some (fd y, r)" and c: "view (cw w) c = Some (fd c, n)"
    and x: "view (cw w) x = None" and fd: "\<forall>y \<in> set pre. fd y \<noteq> fd c" and l: "registryLock (creg w) = 1"
  shows "creg_unregister api (Some c) w = Inl MemFault"
proof -
  have g: "client_get_fd api (Some c) (cw w) = Inr (fd c)" by (rule client_libD(2) [OF lib c])
  have gx: "client_get_fd api (Some x) (cw w) = Inl MemFault" by (rule client_libD(3) [OF lib x])
  have loop: "fd_loop api (fd c) (creg_nodes (creg w)) (cw w) = Inl MemFault"
    using fd_loop_skip [OF lib pre fd, of "Some x # map Some post"] by (simp add: nodes gx)
  show ?thesis
  proof (cases pre)
    case Nil
    then show ?thesis using l g gx by (simp add: creg_unregister_def nodes)
  next
    case (Cons h t)
    then obtain r where "view (cw w) h = Some (fd h, r)" using pre by auto
    from client_libD(2) [OF lib this] have "client_get_fd api (Some h) (cw w) = Inr (fd h)" .
    then show ?thesis using l g loop fd Cons by (simp add: creg_unregister_def nodes)
  qed
qed

text \<open>
  \<open>refs\<close> counts the references of a client before the shutdown. Every client but the last must have
  another reference, for the nodes stay in the list and are looked at again.
\<close>

lemma unregister_all:
  assumes lib: "client_lib api view"
  shows "creg_nodes (creg w) = map Some (pre @ cs) \<Longrightarrow> distinct (map fd (pre @ cs)) \<Longrightarrow>
    \<forall>x \<in> set pre. \<exists>r. view (cw w) x = Some (fd x, r) \<Longrightarrow> \<forall>c \<in> set cs. view (cw w) c = Some (fd c, refs c) \<Longrightarrow>
    registryLock (creg w) = 1 \<Longrightarrow> clientCount (creg w) = int (length cs) \<Longrightarrow> notEmpty (creg w) = 0 \<Longrightarrow>
    (if \<forall>c \<in> set (butlast cs). 2 \<le> refs c
     then \<exists>w'. unregister_loop api (map Some cs) w = Inr ((), w') \<and> (cs \<noteq> [] \<longrightarrow> notEmpty (creg w') = 1)
     else unregister_loop api (map Some cs) w = Inl MemFault)"
proof (induction cs arbitrary: pre w)
  case (Cons c cs)
  have inj: "\<forall>x \<in> set pre. fd x \<noteq> fd c" "\<forall>d \<in> set cs. fd d \<noteq> fd c" using Cons.prems(2) by (auto simp: image_iff)
  have c: "view (cw w) c = Some (fd c, refs c)" using Cons.prems(4) by simp
  from unregister_alive [OF lib Cons.prems(1,3) c inj(1) Cons.prems(5)] obtain v where
    u: "creg_unregister api (Some c) w = Inr (0, w\<lparr>creg := (creg w)\<lparr>clientCount := clientCount (creg w) - 1,
        notEmpty := (if clientCount (creg w) = 1 then notEmpty (creg w) + 1 else notEmpty (creg w))\<rparr>, cw := v\<rparr>)"
    and v: "view v = (view (cw w))(c := if refs c \<le> 1 then None else Some (fd c, refs c - 1))" by blast
  let ?w = "w\<lparr>creg := (creg w)\<lparr>clientCount := clientCount (creg w) - 1,
        notEmpty := (if clientCount (creg w) = 1 then notEmpty (creg w) + 1 else notEmpty (creg w))\<rparr>, cw := v\<rparr>"
  have step: "unregister_loop api (map Some (c # cs)) w = unregister_loop api (map Some cs) ?w"
    using u by (simp add: bnd_def)
  show ?case
  proof (cases cs)
    case Nil
    then show ?thesis using step Cons.prems(6,7) by simp
  next
    case cs: (Cons d ds)
    have n: "creg_nodes (creg ?w) = map Some ((pre @ [c]) @ cs)" "distinct (map fd ((pre @ [c]) @ cs))"
      "registryLock (creg ?w) = 1" "clientCount (creg ?w) = int (length cs)" "notEmpty (creg ?w) = 0"
      using Cons.prems cs by auto
    have live: "\<forall>x \<in> set pre. \<exists>r. view v x = Some (fd x, r)" "\<forall>d \<in> set cs. view v d = Some (fd d, refs d)"
      using Cons.prems(3,4) inj by (auto simp: v)
    show ?thesis
    proof (cases "2 \<le> refs c")
      case True
      then have "\<forall>x \<in> set (pre @ [c]). \<exists>r. view (cw ?w) x = Some (fd x, r)" using live(1) by (auto simp: v)
      from Cons.IH [OF n(1,2) this _ n(3-5)] live(2) True show ?thesis
        unfolding step using cs by (auto split: if_splits)
    next
      case False
      then have dead: "view (cw ?w) c = None" by (simp add: v)
      have "creg_unregister api (Some d) ?w = Inl MemFault"
      proof (rule unregister_dead [OF lib, where pre = pre and x = c and post = cs and n = "refs d" and fd = fd])
        show "view (cw ?w) d = Some (fd d, refs d)" using live(2) cs by simp
        show "\<forall>y \<in> set pre. fd y \<noteq> fd d" using Cons.prems(2) cs by (auto simp: image_iff)
      qed (use n live(1) dead in simp_all)
      then show ?thesis unfolding step using False cs by (simp add: bnd_def)
    qed
  qed
qed simp

lemma shutdown_loop_live:
  assumes lib: "client_lib api view"
  shows "\<forall>c \<in> set cs. \<exists>r. view v c = Some (fd c, r) \<Longrightarrow>
    \<exists>v'. shutdown_loop api (map Some cs) v = Inr v' \<and> view v' = view v"
proof (induction cs arbitrary: v)
  case (Cons c cs)
  then obtain r where c: "view v c = Some (fd c, r)" by auto
  note s = client_libD(6) [OF lib, of "fd c" v]
  from Cons.IH [of "os_shutdown api (fd c) v"] Cons.prems s obtain v' where
    "shutdown_loop api (map Some cs) (os_shutdown api (fd c) v) = Inr v'" "view v' = view v" by auto
  then show ?case using client_libD(2) [OF lib c] by simp
qed simp

subsection \<open>Properties\<close>

text \<open>
  C11. Shutting down a server whose registry holds the clients \<open>cs\<close>, all of them alive with distinct
  descriptors: \<open>terminate\<close> exits with its status when every client but the last has a reference beside the one
  the registry drops; otherwise it reads a client that has just been freed. So it shuts down with at
  most one connection, but with two clients that only the registry refers to it faults.
\<close>

theorem terminate_spec:
  assumes "client_lib api view" and "creg_nodes (creg w) = map Some cs" and "distinct (map fd cs)"
    and "\<forall>c \<in> set cs. view (cw w) c = Some (fd c, refs c)"
    and "registryLock (creg w) = 1" and "clientCount (creg w) = int (length cs)"
    and "notEmpty (creg w) = (if cs = [] then 1 else 0)"
  shows "terminate api status w
    = Inl (if \<forall>c \<in> set (butlast cs). 2 \<le> refs c then Exited status else MemFault)"
proof -
  from shutdown_loop_live [OF assms(1), of cs "cw w" fd] assms(4) obtain v where
    v: "shutdown_loop api (map Some cs) (cw w) = Inr v" "view v = view (cw w)" by blast
  let ?w = "w\<lparr>cw := v\<rparr>"
  have e: "w\<lparr>cw := v, creg := (creg w)\<lparr>registryLock := Suc 0\<rparr>\<rparr> = ?w" using assms(5) by (cases w; cases "creg w") simp
  have s: "creg_shutdown_all api w = unregister_loop api (map Some cs) ?w"
    using assms(2,5) v(1) by (simp add: creg_shutdown_all_def Let_def e)
  show ?thesis
  proof (cases "cs = []")
    case True
    then show ?thesis using s assms(7) by (simp add: terminate_def bnd_def creg_wait_for_empty_def)
  next
    case False
    have "if \<forall>c \<in> set (butlast cs). 2 \<le> refs c
       then \<exists>w'. unregister_loop api (map Some cs) ?w = Inr ((), w') \<and> (cs \<noteq> [] \<longrightarrow> notEmpty (creg w') = 1)
       else unregister_loop api (map Some cs) ?w = Inl MemFault"
      by (rule unregister_all [OF assms(1), where pre = "[]" and fd = fd]) (use assms False v in simp_all)
    then show ?thesis using s False
      by (auto simp: terminate_def bnd_def creg_wait_for_empty_def split: if_splits)
  qed
qed

text \<open>Two connections, each with the one reference that \<open>client_create\<close> gives.\<close>

theorem terminate_spec_witness:
  "terminate demo_api 0 \<lparr>creg = \<lparr>creg_nodes = [Some 0, Some 1], clientCount = 2, registryLock = 1, notEmpty = 0\<rparr>,
     cw = (demo_players, [Some (7, 1), Some (8, 1)])\<rparr> = Inl MemFault"
  using terminate_spec [OF demo_lib, of "\<lparr>creg = \<lparr>creg_nodes = [Some 0, Some 1], clientCount = 2, registryLock = 1,
      notEmpty = 0\<rparr>, cw = (demo_players, [Some (7, 1), Some (8, 1)])\<rparr>" "[0, 1]" "\<lambda>c. 7 + int c" "\<lambda>_. 1" 0]
  by (simp add: demo_view_def)

end
