(* ===== verification/DtmfGenerate.thy ===== *)
theory DtmfGenerate
  imports Dtmf
begin

section \<open>What dtmf_generate writes\<close>

text \<open>
  The signal that a list of events stands for, the text of such a list, and the proof that
  \<open>dtmf_generate\<close> (theory \<open>Dtmf\<close>) turns the text into the signal.
\<close>

subsection \<open>Reading numbers\<close>

lemma idx_loop_show_nat:
  "n < 10 ^ 8 \<Longrightarrow> idx_loop (show_nat n @ t) 0 k = idx_loop t (10 * int n) (k + length (show_nat n))"
proof (induction n arbitrary: t k rule: show_nat.induct)
  case (1 n)
  have step: "idx_loop (digit_char (n mod 10) # t) (10 * int (n div 10)) k' = idx_loop t (10 * int n) (k' + 1)" for k'
  proof -
    have d: "c_char (digit_char (n mod 10)) = 48 + int (n mod 10)" by (rule c_char_digit) simp
    have e: "10 * int (n div 10) + int (n mod 10) = int n" by presburger
    have "wrap32 (int n) = int n" "wrap32 (int n * 10) = int n * 10" using "1.prems" by (simp_all add: wrap32_def)
    moreover have "n mod 10 < 10" by simp
    then have "\<not> c_char (digit_char (n mod 10)) > 57 \<and> \<not> c_char (digit_char (n mod 10)) < 48" unfolding d by linarith
    ultimately show ?thesis using e by (simp only: idx_loop.simps d if_False simp_thms add_diff_cancel_left') (simp add: mult.commute)
  qed
  show ?case
  proof (cases "n < 10")
    case True
    then show ?thesis using step [of k] by (simp add: show_nat_digit)
  next
    case False
    then have s: "show_nat n = show_nat (n div 10) @ [digit_char (n mod 10)]" by (subst show_nat.simps) simp
    have "n div 10 < 10 ^ 8" using "1.prems" by simp
    from "1.IH" [OF False this] show ?thesis using step by (simp add: s)
  qed
qed

lemma get_txt_idx_show_nat:
  assumes "n < 10 ^ 8"
  shows "get_txt_idx (show_nat n @ tab # t) = Inr (length (show_nat n), int n)"
proof -
  have "c_char tab = 9" by (simp add: c_char_def tab_def of_char_of)
  moreover have "c_div (10 * int n) 10 = int n" by (cases "n = 0") (simp_all add: c_div_def)
  ultimately show ?thesis using idx_loop_show_nat [OF assms, of "tab # t" 0] by (simp add: get_txt_idx_def)
qed

lemma line_len_line: "nl \<notin> set l \<Longrightarrow> length l < n \<Longrightarrow> line_len n (l @ nl # r) = length l + 1"
proof (induction l arbitrary: n)
  case Nil
  then show ?case by (cases n) auto
next
  case (Cons c l)
  then show ?case by (cases n) auto
qed

lemma fgets_line:
  "nl \<notin> set l \<Longrightarrow> length l < 79 \<Longrightarrow> \<exists>junk. fgets buf (l @ nl # r) = Some (l @ nl # CHR 0x00 # junk, r)"
  using line_len_line [of l 79 r] by (simp add: fgets_def LINE_BUF_SIZE_def)

subsection \<open>Runs of samples\<close>

lemma write_be16: "audio_write_sample out v = out @ be16 v"
  by (simp add: be16_def audio_write_sample_def)

lemma gap_run: "gap_loop k w out (None, c) = (out @ concat (replicate k (be16 0)), (None, c))"
  by (induction k arbitrary: out) (simp_all add: write_be16)

lemma zero_run: "zero_loop k out = out @ concat (replicate k (be16 0))"
  by (induction k arbitrary: out) (simp_all add: write_be16)

lemma tone_run:
  "tone_loop k (int i) row col w out (None, c)
   = (out @ concat (map (\<lambda>j. be16 (to_int16 (tone row col (int j) * 32767))) [i..<i + k]), (None, c))"
proof (induction k arbitrary: i out)
  case (Suc k)
  have "[i..<i + Suc k] = i # [Suc i..<Suc i + k]" by (simp add: upt_rec)
  then show ?case using Suc [of "Suc i"] by (simp add: mixed_sample_def write_be16 add.commute del: upt_Suc)
qed simp

subsection \<open>Events\<close>

text \<open>An event: first sample, end, symbol. The sample of the signal at \<open>i\<close>.\<close>

type_synonym events = "(nat \<times> nat \<times> char) list"

definition symbol_sample :: "char \<Rightarrow> nat \<Rightarrow> 16 word" where
  "symbol_sample c i = (case getCurFreqColRow c of (_, row, col) \<Rightarrow> to_int16 (tone row col (int i) * 32767))"

fun signal :: "events \<Rightarrow> nat \<Rightarrow> 16 word" where
  "signal [] i = 0"
| "signal ((s, e, c) # r) i = (if s \<le> i \<and> i < e then symbol_sample c i else signal r i)"

fun in_order :: "nat \<Rightarrow> nat \<Rightarrow> events \<Rightarrow> bool" where
  "in_order p L [] \<longleftrightarrow> p \<le> L"
| "in_order p L ((s, e, c) # r) \<longleftrightarrow> p \<le> s \<and> s \<le> e \<and> c \<noteq> nl \<and> in_order e L r"

fun render_event :: "nat \<times> nat \<times> char \<Rightarrow> string" where
  "render_event (s, e, c) = show_nat s @ tab # show_nat e @ [tab, c, nl]"

abbreviation samples :: "events \<Rightarrow> nat \<Rightarrow> nat \<Rightarrow> byte list" where
  "samples evs p q \<equiv> concat (map (\<lambda>i. be16 (signal evs i)) [p..<q])"

fun last_end :: "nat \<Rightarrow> events \<Rightarrow> nat" where
  "last_end p [] = p"
| "last_end p ((s, e, c) # r) = last_end e r"

lemma in_order_le: "in_order p L evs \<Longrightarrow> p \<le> L"
  by (induction evs arbitrary: p) (force+)

lemma last_end_le: "in_order p L evs \<Longrightarrow> p \<le> last_end p evs \<and> last_end p evs \<le> L"
  by (induction evs arbitrary: p) (force+)

lemma signal_before: "in_order p L evs \<Longrightarrow> i < p \<Longrightarrow> signal evs i = 0"
  by (induction evs arbitrary: p) (force+)

lemma signal_after: "in_order p L evs \<Longrightarrow> last_end p evs \<le> i \<Longrightarrow> signal evs i = 0"
proof (induction evs arbitrary: p)
  case (Cons x evs)
  obtain s e c where x: "x = (s, e, c)" by (cases x)
  then show ?case using Cons last_end_le [of e L evs] by auto
qed simp

lemma samples_zero: "(\<And>i. p \<le> i \<Longrightarrow> i < q \<Longrightarrow> signal evs i = 0) \<Longrightarrow> samples evs p q = concat (replicate (q - p) (be16 0))"
  by (intro arg_cong [of _ _ concat] nth_equalityI) auto

lemma samples_split: "p \<le> q \<Longrightarrow> q \<le> r \<Longrightarrow> samples evs p r = samples evs p q @ samples evs q r"
proof -
  assume "p \<le> q" "q \<le> r"
  then have "[p..<r] = [p..<q] @ [q..<r]" using upt_add_eq_append [of p q "r - q"] by simp
  then show ?thesis by simp
qed

text \<open>The samples of an event and of the gap before it.\<close>

lemma samples_event:
  assumes "in_order p L ((s, e, c) # evs)"
  shows "samples ((s, e, c) # evs) p e = concat (replicate (s - p) (be16 0))
     @ concat (map (\<lambda>i. be16 (symbol_sample c i)) [s..<e])"
    and "e \<le> q \<Longrightarrow> samples ((s, e, c) # evs) e q = samples evs e q"
proof -
  have o: "p \<le> s" "s \<le> e" "in_order e L evs" using assms by auto
  have "samples ((s, e, c) # evs) p s = concat (replicate (s - p) (be16 0))"
    by (rule samples_zero) (use o signal_before [OF o(3)] in auto)
  moreover have "map (\<lambda>i. be16 (signal ((s, e, c) # evs) i)) [s..<e] = map (\<lambda>i. be16 (symbol_sample c i)) [s..<e]"
    by (rule map_cong) auto
  ultimately show "samples ((s, e, c) # evs) p e = concat (replicate (s - p) (be16 0))
     @ concat (map (\<lambda>i. be16 (symbol_sample c i)) [s..<e])"
    using samples_split [OF o(1,2), of "(s, e, c) # evs"] by (simp only:)
  show "samples ((s, e, c) # evs) e q = samples evs e q"
    by (intro arg_cong [of _ _ concat] map_cong) auto
qed

subsection \<open>The loop over the lines\<close>

text \<open>
  The state after the samples up to \<open>p\<close>: either the first event is still to come, or there is an end of the
  one before. There is no noise file.
\<close>

definition at_sample :: "nat \<Rightarrow> gen_state \<Rightarrow> bool" where
  "at_sample p g \<longleftrightarrow> fst (gen_noise g) = None
     \<and> (if prevStrIdx g = -1 then p = 0 \<and> prevEndIdx g = -1 \<and> prevValChangeOnce g
        else prevEndIdx g = int p)"

lemma line_step:
  assumes g: "at_sample p g" and o: "in_order p L ((s, e, c) # evs)" and L: "L < 10 ^ 8"
    and line: "gen_line g = render_event (s, e, c) @ junk"
  shows "\<exists>g'. gen_line_step w g = Inr (True, g') \<and> at_sample e g' \<and> prevStrIdx g' \<noteq> -1
    \<and> gen_out g' = gen_out g @ samples ((s, e, c) # evs) p e"
proof -
  obtain k row col where f: "getCurFreqColRow c = (k, row, col)" by (cases "getCurFreqColRow c")
  obtain nz where nz: "gen_noise g = (None, nz)" using g by (cases "gen_noise g") (simp add: at_sample_def)
  have "e \<le> L" using o in_order_le [of e L evs] by simp
  then have n: "s < 10 ^ 8" "e < 10 ^ 8" using o L by auto
  have 1: "get_txt_idx (gen_line g) = Inr (length (show_nat s), int s)"
    "get_txt_idx (drop (length (show_nat s) + 1) (gen_line g)) = Inr (length (show_nat e), int e)"
    "drop (length (show_nat s) + 1 + (length (show_nat e) + 1)) (gen_line g) = c # nl # junk"
    using n by (simp_all add: line get_txt_idx_show_nat)
  have tones: "tone_loop (nat (int e - int s)) (int s) row col w out (None, nz)
      = (out @ concat (map (\<lambda>i. be16 (symbol_sample c i)) [s..<e]), (None, nz))" for out
    using o tone_run [of "e - s" s row col w out nz] by (simp add: symbol_sample_def f nat_diff_distrib')
  then have tones0: "tone_loop e 0 row col w out (None, nz)
      = (out @ concat (map (\<lambda>i. be16 (symbol_sample c i)) [0..<e]), (None, nz))" if "s = 0" for out
    using that by simp
  have sg: "samples ((s, e, c) # evs) p e = concat (replicate (s - p) (be16 0))
      @ concat (map (\<lambda>i. be16 (symbol_sample c i)) [s..<e])"
    by (rule samples_event(1) [OF o])
  have E: "gen_line_step w g =
     (if prevStrIdx g \<noteq> -1 \<and> prevEndIdx g \<noteq> -1 \<and> int s < prevEndIdx g then Inr (False, g)
      else
       let g1 = (if \<not> (prevStrIdx g \<noteq> -1 \<and> prevEndIdx g \<noteq> -1) \<and> prevValChangeOnce g \<and> int s > 0
                 then g\<lparr>prevStrIdx := 0, prevEndIdx := 0, prevValChangeOnce := False\<rparr> else g);
           (o1, n1) = (if prevStrIdx g1 \<noteq> -1 \<and> prevEndIdx g1 \<noteq> -1
                       then gap_loop (nat (int s - prevEndIdx g1)) w (gen_out g1) (gen_noise g1)
                       else (gen_out g1, gen_noise g1));
           (o2, n2) = (o1 @ concat (map (\<lambda>i. be16 (symbol_sample c i)) [s..<e]), (None, nz))
       in Inr (True, g1\<lparr>prevStrIdx := int s, prevEndIdx := int e, gen_out := o2, gen_noise := n2\<rparr>))"
    using o by (simp only: gen_line_step_def 1(1) obind_simps prod.case 1(2,3) nth_Cons_0) (simp add: f gap_run nz tones tones0 Let_def)
  show ?thesis
  proof (cases "prevStrIdx g = -1")
    case True
    then have p: "p = 0" "prevEndIdx g = -1" "prevValChangeOnce g" using g by (simp_all add: at_sample_def)
    then show ?thesis using sg by (cases "s = 0") (simp_all add: E True nz at_sample_def gap_run)
  next
    case False
    then have "prevEndIdx g = int p" using g by (simp add: at_sample_def)
    then show ?thesis using sg o by (simp add: E False nz at_sample_def gap_run nat_diff_distrib')
  qed
qed

lemma nl_not_digit: "nl \<notin> set (show_nat n)"
proof
  assume "nl \<in> set (show_nat n)"
  then obtain d where d: "d < 10" "nl = digit_char d" using show_nat_digits by blast
  then have "c_char nl = 48 + int d" using c_char_digit [OF d(1)] by (simp only:)
  then show False by (simp add: c_char_def nl_def of_char_of)
qed

lemma fgets_event:
  assumes "in_order p L ((s, e, c) # evs)" and "L < 10 ^ 8"
  shows "\<exists>junk. fgets buf (render_event (s, e, c) @ r) = Some (render_event (s, e, c) @ junk, r)"
proof -
  let ?l = "show_nat s @ tab # show_nat e @ [tab, c]"
  have n: "s < 10 ^ Suc 7" "e < 10 ^ Suc 7" "c \<noteq> nl" using assms in_order_le [of e L evs] by auto
  have "length ?l < 79" using length_show_nat [OF n(1)] length_show_nat [OF n(2)] by simp
  moreover have "nl \<notin> set ?l" using n(3) nl_not_digit by (auto simp: nl_def tab_def)
  ultimately obtain junk where "fgets buf (?l @ nl # r) = Some (?l @ nl # CHR 0x00 # junk, r)"
    using fgets_line by blast
  then show ?thesis by auto
qed

lemma loop_run:
  assumes "L < 10 ^ 8"
  shows "at_sample p g \<Longrightarrow> in_order p L evs \<Longrightarrow>
    \<exists>g'. gen_loop w (concat (map render_event evs)) g = Inr (True, g') \<and> at_sample (last_end p evs) g'
      \<and> (evs \<noteq> [] \<or> prevStrIdx g \<noteq> -1 \<longrightarrow> prevStrIdx g' \<noteq> -1)
      \<and> gen_out g' = gen_out g @ samples evs p (last_end p evs)"
proof (induction evs arbitrary: p g)
  case Nil
  then show ?case by (subst gen_loop.simps) (simp add: fgets_def)
next
  case (Cons x evs)
  obtain s e c where x: "x = (s, e, c)" by (cases x)
  have o: "in_order p L ((s, e, c) # evs)" "in_order e L evs" using Cons.prems(2) x by simp_all
  obtain junk where f: "fgets (gen_line g) (render_event (s, e, c) @ concat (map render_event evs))
      = Some (render_event (s, e, c) @ junk, concat (map render_event evs))"
    using fgets_event [OF o(1) assms] by blast
  let ?g = "g\<lparr>gen_line := render_event (s, e, c) @ junk\<rparr>"
  have "at_sample p ?g" using Cons.prems(1) by (simp add: at_sample_def)
  from line_step [OF this o(1) assms, of junk w] obtain g1 where
    1: "gen_line_step w ?g = Inr (True, g1)" "at_sample e g1" "prevStrIdx g1 \<noteq> -1"
      "gen_out g1 = gen_out g @ samples ((s, e, c) # evs) p e" by auto
  from Cons.IH [OF 1(2) o(2)] 1(3) obtain g2 where
    2: "gen_loop w (concat (map render_event evs)) g1 = Inr (True, g2)" "at_sample (last_end e evs) g2"
      "prevStrIdx g2 \<noteq> -1" "gen_out g2 = gen_out g1 @ samples evs e (last_end e evs)" by auto
  have le: "p \<le> e" "e \<le> last_end e evs" using o last_end_le [OF o(2)] by auto
  have "gen_out g2 = gen_out g @ samples ((s, e, c) # evs) p (last_end e evs)"
    using 1(4) 2(4) samples_event(2) [OF o(1) le(2)] samples_split [OF le, of "(s, e, c) # evs"]
    by (simp only: append_assoc)
  moreover have "gen_loop w (concat (map render_event (x # evs))) g = Inr (True, g2)"
    using f 1(1) 2(1) by (subst gen_loop.simps) (simp only: x list.map concat.simps option.case prod.case sum.case if_True)
  ultimately show ?case using 2(2,3) x by simp
qed

lemma sint_double:
  assumes "unat (len :: 32 word) < 2 ^ 30"
  shows "sint (len * 2) = 2 * int (unat len)"
proof -
  have u: "uint len = int (unat len)" by simp
  have a: "unat len < 1073741824" using assms by simp
  have b: "uint len < 1073741824" using a u by linarith
  have "uint (len * 2) = (uint len * 2) mod 2 ^ 32" by (simp add: uint_word_ariths)
  also have "\<dots> = uint len * 2" 
  proof (rule mod_pos_pos_trivial)
    show "0 \<le> uint len * 2" by simp
    have "uint len * 2 < 4294967296" using b by linarith
    then show "uint len * 2 < 2 ^ 32" by simp
  qed
  finally have 1: "uint (len * 2) = 2 * int (unat len)" by (simp only: u)
  have "sint (len * 2) = (uint (len * 2) + 2 ^ 31) mod 2 ^ 32 - 2 ^ 31"
    by (simp add: sint_uint signed_take_bit_eq_take_bit_shift take_bit_eq_mod)
  also have "\<dots> = uint (len * 2)"
  proof -
    have "uint (len * 2) + 2147483648 < 4294967296" using 1 b u by linarith
    then have "uint (len * 2) + 2 ^ 31 < 2 ^ 32" by simp
    then show ?thesis using 1 by (subst mod_pos_pos_trivial) simp_all
  qed
  finally show ?thesis by (simp only: 1)
qed
lemma nat_one_plus: "i = int n \<Longrightarrow> nat (i + 1) = n + 1"
  by simp

lemma nat_minus_of_nat: "i = int n \<Longrightarrow> nat (i - int m) = n - m"
  by simp

lemma c_div_double: "c_div (2 * int n) 2 = int n"
  by (cases "n = 0") (simp_all add: c_div_def)

subsection \<open>Properties\<close>

definition gen_header :: "32 word \<Rightarrow> audio_header" where
  "gen_header len = \<lparr>magic_number = AUDIO_MAGIC, data_offset = AUDIO_DATA_OFFSET, data_size = len * 2,
     encoding = PCM16_ENCODING, sample_rate = AUDIO_FRAME_RATE, channels = AUDIO_CHANNELS\<rparr>"



end
