(* ===== verification/SfmmHeap.thy ===== *)
theory SfmmHeap
  imports Sfmm
begin

unbundle bit_operations_syntax

section \<open>The heap as a whole (hw3/src/sfmm.c)\<close>

text \<open>
  What \<open>sf_malloc\<close> and \<open>sf_free\<close> do to the whole heap. A view of the heap is the sequence of its blocks from
  the start of the heap to the epilogue, each with its size and whether its header says it is
  allocated, with the members of the free lists and of the quick lists. \<open>heap_inv\<close> says that the words of
  memory represent a view. The theorems are about calls that the present heap serves (no new page)
  and about frees that go to a quick list.
\<close>

subsection \<open>Blocks in a row\<close>

type_synonym tiling = "(nat \<times> bool) list"

fun cells :: "nat \<Rightarrow> tiling \<Rightarrow> (nat \<times> nat \<times> bool) list" where
  "cells a [] = []"
| "cells a ((z, al) # bs) = (a, z, al) # cells (a + z) bs"

definition total :: "tiling \<Rightarrow> nat" where
  "total bs = sum_list (map fst bs)"

lemma total_simps [simp]: "total [] = 0" "total (c # bs) = fst c + total bs" "total (xs @ ys) = total xs + total ys"
  by (simp_all add: total_def)

lemma cells_app [simp]: "cells a (xs @ ys) = cells a xs @ cells (a + total xs) ys"
  by (induction a xs rule: cells.induct) (simp_all add: add.assoc)

lemma cells_bounds: "(x, z, al) \<in> set (cells a bs) \<Longrightarrow> a \<le> x \<and> x + z \<le> a + total bs"
  by (induction a bs rule: cells.induct) auto

lemma cells_split:
  "(x, z, al) \<in> set (cells a bs) \<Longrightarrow> \<exists>bs1 bs2. bs = bs1 @ (z, al) # bs2 \<and> x = a + total bs1"
proof (induction a bs rule: cells.induct)
  case (2 a y bl bs)
  show ?case
  proof (cases "(x, z, al) = (a, y, bl)")
    case True
    then have "(y, bl) # bs = [] @ (z, al) # bs \<and> x = a + total []" by simp
    then show ?thesis by blast
  next
    case False
    then obtain bs1 bs2 where "bs = bs1 @ (z, al) # bs2" "x = a + y + total bs1"
      using 2 by auto
    then have "(y, bl) # bs = ((y, bl) # bs1) @ (z, al) # bs2 \<and> x = a + total ((y, bl) # bs1)" by simp
    then show ?thesis by blast
  qed
qed simp

lemma cells_apart:
  "(x, z, al) \<in> set (cells a bs) \<Longrightarrow> (x', z', al') \<in> set (cells a bs) \<Longrightarrow> 0 < z \<Longrightarrow> 0 < z' \<Longrightarrow>
   (x = x' \<and> z = z' \<and> al = al') \<or> x + z \<le> x' \<or> x' + z' \<le> x"
proof (induction a bs rule: cells.induct)
  case (2 a y bl bs)
  then show ?case using cells_bounds [of x z al "a + y" bs] cells_bounds [of x' z' al' "a + y" bs] by auto
qed simp

lemma cells_mod:
  "(x, z, al) \<in> set (cells a bs) \<Longrightarrow> a mod 16 = 0 \<Longrightarrow> \<forall>(x, z, al) \<in> set (cells a bs). z mod 16 = 0 \<Longrightarrow> x mod 16 = (0 :: nat)"
proof (induction a bs rule: cells.induct)
  case (2 a y bl bs)
  have "(a + y) mod 16 = 0" using 2(3,4) by (simp add: mod_add_eq [symmetric, of a])
  then show ?case using 2 by auto
qed simp

subsection \<open>The invariant\<close>

text \<open>
  The geometry of the two regions of memory: both aligned, no wrap-around, disjoint. The heap starts after
  address 0, which the code uses as the null pointer.
\<close>

definition geometry :: "sf_env \<Rightarrow> sfmm \<Rightarrow> bool" where
  "geometry E s \<longleftrightarrow> unat (mem_start E) mod 16 = 0 \<and> unat (heads E) mod 16 = 0 \<and> 0 < unat (mem_start E)
     \<and> unat (mem_start E) + 16 \<le> unat (mem_end s) \<and> unat (heads E) + 320 < 2 ^ 64
     \<and> (unat (heads E) + 320 \<le> unat (mem_start E) \<or> unat (mem_end s) \<le> unat (heads E))"

text \<open>
  A header: the size with the flags. Only a block of more than 176 bytes (the block of the first
  page, or one of the same size) may lack the flag of the block before it.
\<close>

definition header_ok :: "64 word \<Rightarrow> nat \<Rightarrow> bool \<Rightarrow> bool" where
  "header_ok h z al \<longleftrightarrow> h = of_nat z OR (if al then 6 else 2)
     \<or> (176 < z \<and> h = (if al then of_nat z OR 4 else of_nat z))"

definition cell_ok :: "sf_env \<Rightarrow> (addr \<Rightarrow> 64 word) \<Rightarrow> nat \<times> nat \<times> bool \<Rightarrow> bool" where
  "cell_ok E m c \<longleftrightarrow> (case c of (a, z, al) \<Rightarrow> 32 \<le> z \<and> z mod 16 = 0
     \<and> header_ok (unmagic E (m (of_nat a + 8))) z al)"

text \<open>The chain of a quick list, from its first block by the forward links to the null pointer.\<close>

fun chain :: "(addr \<Rightarrow> 64 word) \<Rightarrow> addr \<Rightarrow> addr list \<Rightarrow> bool" where
  "chain m p [] \<longleftrightarrow> p = 0"
| "chain m p (x # xs) \<longleftrightarrow> p = x \<and> p \<noteq> 0 \<and> chain m (m (nx x)) xs"

record heap_view =
  tiles :: tiling
  frees :: "nat \<Rightarrow> addr list"
  quicks :: "nat \<Rightarrow> addr list"

definition blocks :: "sf_env \<Rightarrow> heap_view \<Rightarrow> (nat \<times> nat \<times> bool) set" where
  "blocks E v = set (cells (unat (mem_start E)) (tiles v))"

definition quick_inv :: "sf_env \<Rightarrow> heap_view \<Rightarrow> sfmm \<Rightarrow> bool" where
  "quick_inv E v s \<longleftrightarrow> length (quick s) = NUM_QUICK_LISTS \<and> (\<forall>j < NUM_QUICK_LISTS.
     ql_length (quick s ! j) = int (length (quicks v j)) \<and> length (quicks v j) \<le> QUICK_LIST_MAX
     \<and> chain (mem s) (ql_first (quick s ! j)) (quicks v j) \<and> distinct (quicks v j)
     \<and> (\<forall>x \<in> set (quicks v j). (unat x, unat (quick_size j), True) \<in> blocks E v))"

definition heap_inv :: "sf_env \<Rightarrow> heap_view \<Rightarrow> sfmm \<Rightarrow> bool" where
  "heap_inv E v s \<longleftrightarrow> geometry E s
     \<and> unat (mem_start E) + total (tiles v) + 16 = unat (mem_end s)
     \<and> (\<forall>c \<in> blocks E v. cell_ok E (mem s) c)
     \<and> free_lists E s (frees v)
     \<and> (\<forall>x. (\<exists>i < NUM_FREE_LISTS. x \<in> set (frees v i)) \<longleftrightarrow> (\<exists>z. (unat x, z, False) \<in> blocks E v))
     \<and> quick_inv E v s
     \<and> (\<exists>bs z al. tiles v = bs @ [(z, al)] \<and> unat (globalEnd s) = unat (mem_start E) + total bs)"

text \<open>
  The blocks the client holds: marked allocated and on no quick list. The payload of a block of size
  \<open>z\<close> at \<open>a\<close> is the \<open>z - 8\<close> bytes after the header; its last word is the footer of a free block.
\<close>

definition held :: "sf_env \<Rightarrow> heap_view \<Rightarrow> (nat \<times> nat) set" where
  "held E v = {(a, z). (a, z, True) \<in> blocks E v \<and> (\<forall>j < NUM_QUICK_LISTS. of_nat a \<notin> set (quicks v j))}"

definition in_payload :: "nat \<times> nat \<Rightarrow> addr \<Rightarrow> bool" where
  "in_payload b w \<longleftrightarrow> fst b + 16 \<le> unat w \<and> unat w < fst b + snd b + 8"

subsection \<open>Addresses\<close>

lemma unat_plus: "a + numeral k < 2 ^ 64 \<Longrightarrow> unat (of_nat a + numeral k :: addr) = a + numeral k"
proof -
  assume "a + numeral k < 2 ^ 64"
  moreover have "(of_nat a + numeral k :: addr) = of_nat (a + numeral k)" by simp
  ultimately show ?thesis by (simp only: unat_of_nat) simp
qed

lemma unat_nat: "a < 2 ^ 64 \<Longrightarrow> unat (of_nat a :: addr) = a"
  by (simp add: unat_of_nat)

lemma unat_word: "unat (x :: addr) + numeral k < 2 ^ 64 \<Longrightarrow> unat (x + numeral k) = unat x + numeral k"
  using unat_plus [of "unat x" k] by simp

lemma addr_eq: "(x :: addr) = y \<longleftrightarrow> unat x = unat y"
  by (metis word_unat_eq_iff)

lemma addr_lt: "unat (x :: addr) < 2 ^ 64"
  using unsigned_less [of x] by simp

lemma mod8_unat: "(x :: addr) mod 8 = 0 \<longleftrightarrow> unat x mod 8 = 0"
proof -
  have "unat (x mod 8) = unat x mod 8" by (simp add: unat_mod)
  then show ?thesis by (metis unat_eq_zero)
qed

lemma valid_heap:
  assumes "geometry E s" and "unat w mod 8 = 0" and "unat (mem_start E) \<le> unat w" and "unat w < unat (mem_end s)"
  shows "valid_addr E s w"
  using assms by (simp add: valid_addr_def mod8_unat word_le_nat_alt word_less_nat_alt)

lemma head_addr:
  assumes "geometry E s" and "i < NUM_FREE_LISTS"
  shows "unat (head_of E i) = unat (heads E) + 32 * i"
proof -
  have l: "unat (heads E) + 32 * i < 2 ^ 64" using assms by (simp add: geometry_def NUM_FREE_LISTS_def)
  have "head_of E i = of_nat (unat (heads E) + 32 * i)" by (simp add: head_of_def)
  then show ?thesis using unat_nat [OF l] by (simp only:)
qed

lemma link_addr:
  assumes "unat x + 24 < 2 ^ 64"
  shows "unat (nx x) = unat x + 16" and "unat (pv x) = unat x + 24"
  using assms unat_word [of x "num.Bit0 (num.Bit0 (num.Bit0 (num.Bit0 num.One)))"]
    unat_word [of x "num.Bit0 (num.Bit0 (num.Bit0 (num.Bit1 num.One)))"]
  by (simp_all add: nx_def pv_def)

text \<open>The links of the list heads lie outside the heap.\<close>

lemma head_links:
  assumes g: "geometry E s" and h: "is_head E x" and w: "w = nx x \<or> w = pv x"
  shows "unat w < unat (mem_start E) \<or> unat (mem_end s) \<le> unat w"
proof -
  obtain i where i: "i < NUM_FREE_LISTS" "x = head_of E i" using h by (auto simp: is_head_def)
  then have u: "unat x = unat (heads E) + 32 * i" using head_addr [OF g] by simp
  have "32 * i + 24 < 320" using i(1) by (simp add: NUM_FREE_LISTS_def)
  then have "unat x + 24 < unat (heads E) + 320" using u by simp
  moreover have "unat (heads E) + 320 < 2 ^ 64" using g by (simp add: geometry_def)
  ultimately have "unat x + 24 < 2 ^ 64" by (rule less_trans)
  note l = link_addr [OF this]
  show ?thesis using w l u \<open>unat x + 24 < unat (heads E) + 320\<close> g by (auto simp: geometry_def)
qed

subsection \<open>Facts of the invariant\<close>

lemma heap_invD:
  assumes "heap_inv E v s"
  shows "geometry E s" "unat (mem_start E) + total (tiles v) + 16 = unat (mem_end s)"
    "free_lists E s (frees v)" "quick_inv E v s"
    "\<And>a z al. (a, z, al) \<in> blocks E v \<Longrightarrow> 32 \<le> z \<and> z mod 16 = 0 \<and> header_ok (unmagic E (mem s (of_nat a + 8))) z al"
    "\<And>x. (\<exists>i < NUM_FREE_LISTS. x \<in> set (frees v i)) \<longleftrightarrow> (\<exists>z. (unat x, z, False) \<in> blocks E v)"
    "\<exists>bs z al. tiles v = bs @ [(z, al)] \<and> unat (globalEnd s) = unat (mem_start E) + total bs"
  using assms unfolding heap_inv_def cell_ok_def by auto

lemma block_range:
  assumes h: "heap_inv E v s" and b: "(a, z, al) \<in> blocks E v"
  shows "unat (mem_start E) \<le> a" "a + z + 16 \<le> unat (mem_end s)" "a mod 16 = 0" "32 \<le> z" "z mod 16 = 0"
    "a + z + 16 < 2 ^ 64" "0 < a"
proof -
  note H = heap_invD [OF h]
  have c: "(a, z, al) \<in> set (cells (unat (mem_start E)) (tiles v))" using b by (simp add: blocks_def)
  note B = cells_bounds [OF c]
  show 1: "unat (mem_start E) \<le> a" "a + z + 16 \<le> unat (mem_end s)" using B H(2) by auto
  have "\<forall>(x, z, al) \<in> set (cells (unat (mem_start E)) (tiles v)). z mod 16 = 0"
    using H(5) by (auto simp: blocks_def)
  then show "a mod 16 = 0" using cells_mod [OF c] H(1) by (simp add: geometry_def)
  show "32 \<le> z" "z mod 16 = 0" using H(5) [OF b] by auto
  show "a + z + 16 < 2 ^ 64" using 1(2) addr_lt [of "mem_end s"] by linarith
  show "0 < a" using 1(1) H(1) by (simp add: geometry_def)
qed

lemma blocks_apart:
  assumes h: "heap_inv E v s" and b: "(a, z, al) \<in> blocks E v" and b': "(a', z', al') \<in> blocks E v"
  shows "(a = a' \<and> z = z' \<and> al = al') \<or> a + z \<le> a' \<or> a' + z' \<le> a"
  using cells_apart [of a z al _ _ a' z' al'] b b' block_range(4) [OF h b] block_range(4) [OF h b']
  by (simp add: blocks_def)

lemma block_blk:
  assumes h: "heap_inv E v s" and b: "(unat x, z, al) \<in> blocks E v"
  shows "blk E s x" "\<not> is_head E x" "valid_addr E s (x + 8)" "unat x + 24 < 2 ^ 64" "x mod 16 = 0"
proof -
  note R = block_range [OF h b]
  note g = heap_invD(1) [OF h]
  show l: "unat x + 24 < 2 ^ 64" using R(4,6) by linarith
  note L = link_addr [OF l]
  have u8: "unat (x + 8) = unat x + 8" using unat_plus [of "unat x" "num.Bit0 (num.Bit0 (num.Bit0 num.One))"] l by simp
  have m: "unat x mod 8 = 0" using R(3) by presburger
  show "x mod 16 = 0" using R(3) by (simp add: mod16_unat)
  then show "blk E s x"
    using R L m by (auto simp: blk_def intro!: valid_heap [OF g])
  show "valid_addr E s (x + 8)" using R m u8 by (auto intro!: valid_heap [OF g])
  show "\<not> is_head E x"
  proof
    assume "is_head E x"
    from head_links [OF g this, of "nx x"] show False using L(1) R by auto
  qed
qed

text \<open>The words the allocator keeps its books in.\<close>

definition book :: "sf_env \<Rightarrow> heap_view \<Rightarrow> addr \<Rightarrow> bool" where
  "book E v w \<longleftrightarrow> (\<exists>a z al. (a, z, al) \<in> blocks E v \<and> w = of_nat a + 8)
     \<or> (\<exists>x. (is_head E x \<or> (\<exists>z. (unat x, z, False) \<in> blocks E v)) \<and> (w = nx x \<or> w = pv x))
     \<or> (\<exists>j < NUM_QUICK_LISTS. \<exists>x \<in> set (quicks v j). w = nx x)"

lemma bookI:
  "(a, z, al) \<in> blocks E v \<Longrightarrow> book E v (of_nat a + 8)"
  "is_head E x \<Longrightarrow> book E v (nx x) \<and> book E v (pv x)"
  "(unat x, z, False) \<in> blocks E v \<Longrightarrow> book E v (nx x) \<and> book E v (pv x)"
  "j < NUM_QUICK_LISTS \<Longrightarrow> x \<in> set (quicks v j) \<Longrightarrow> book E v (nx x)"
  unfolding book_def by blast+

lemma chain_frame: "\<forall>x \<in> set xs. m' (nx x) = m (nx x) \<Longrightarrow> chain m' p xs = chain m p xs"
  by (induction xs arbitrary: p) auto

lemma free_lists_frame:
  assumes fl: "free_lists E s fl"
    and "\<And>i x. i < NUM_FREE_LISTS \<Longrightarrow> x = head_of E i \<or> x \<in> set (fl i) \<Longrightarrow> m (nx x) = mem s (nx x) \<and> m (pv x) = mem s (pv x)"
  shows "free_lists E (s\<lparr>mem := m\<rparr>) fl"
proof (rule free_listsI)
  note D = free_listsD [OF fl]
  fix i assume i: "i < NUM_FREE_LISTS"
  have "seg m (head_of E i) (fl i) (head_of E i) = seg (mem s) (head_of E i) (fl i) (head_of E i)"
    using assms(2) [OF i] by (intro seg_frame) auto
  then show "seg (mem (s\<lparr>mem := m\<rparr>)) (head_of E i) (fl i) (head_of E i)" using D(2) [OF i] by simp
  show "blk E (s\<lparr>mem := m\<rparr>) (head_of E i)" "distinct (fl i)" using D(1,3) [OF i] by simp_all
  fix x assume x: "x \<in> set (fl i)"
  show "blk E (s\<lparr>mem := m\<rparr>) x" "\<not> is_head E x" using D(4,5) [OF i x] by simp_all
  show "x \<notin> set (fl k)" if "k < NUM_FREE_LISTS" "k \<noteq> i" for k using D(6) [OF i x that] .
qed

lemma free_lists_more [simp]:
  "free_lists E (s\<lparr>globalEnd := g\<rparr>) fl = free_lists E s fl"
  "free_lists E (s\<lparr>quick := q\<rparr>) fl = free_lists E s fl"
  by (simp_all add: free_lists_def blk_def)

lemma geometry_more [simp]:
  "geometry E (s\<lparr>globalEnd := g\<rparr>) = geometry E s" "geometry E (s\<lparr>quick := q\<rparr>) = geometry E s"
  "geometry E (s\<lparr>mem := m\<rparr>) = geometry E s"
  by (simp_all add: geometry_def)

lemma heap_inv_frame:
  assumes h: "heap_inv E v s" and m: "\<And>w. book E v w \<Longrightarrow> m w = mem s w"
  shows "heap_inv E v (s\<lparr>mem := m\<rparr>)"
proof -
  note H = heap_invD [OF h]
  have "cell_ok E m c" if "c \<in> blocks E v" for c
  proof -
    obtain a z al where c: "c = (a, z, al)" by (cases c) auto
    have "m (of_nat a + 8) = mem s (of_nat a + 8)" using that c bookI(1) by (intro m) simp
    then show ?thesis using H(5) that c by (simp add: cell_ok_def)
  qed
  moreover have "free_lists E (s\<lparr>mem := m\<rparr>) (frees v)"
  proof (rule free_lists_frame [OF H(3)])
    fix i x assume i: "i < NUM_FREE_LISTS" and x: "x = head_of E i \<or> x \<in> set (frees v i)"
    then have "is_head E x \<or> (\<exists>z. (unat x, z, False) \<in> blocks E v)"
      using head_is_head [OF i] H(6) [of x] by auto
    then show "m (nx x) = mem s (nx x) \<and> m (pv x) = mem s (pv x)"
      using bookI(2,3) m by metis
  qed
  moreover have "quick_inv E v (s\<lparr>mem := m\<rparr>)"
  proof -
    have "chain m p (quicks v j) = chain (mem s) p (quicks v j)" if "j < NUM_QUICK_LISTS" for j p
      using that bookI(4) by (intro chain_frame ballI m)
    then show ?thesis using H(4) by (simp add: quick_inv_def)
  qed
  ultimately show ?thesis using H(1,2,6,7) by (simp add: heap_inv_def)
qed

text \<open>No word of a payload the client holds is one of them.\<close>

lemma held_not_book:
  assumes h: "heap_inv E v s" and b: "(a, z) \<in> held E v" and w: "in_payload (a, z) w"
  shows "\<not> book E v w"
proof
  have bl: "(a, z, True) \<in> blocks E v" using b by (simp add: held_def)
  note R = block_range [OF h bl]
  have w1: "a + 16 \<le> unat w" "unat w < a + z + 8" using w by (simp_all add: in_payload_def)
  have other: "a' + k \<noteq> unat w" if "(a', z', al') \<in> blocks E v" "a' \<noteq> a" "8 \<le> k" "k < z' + 8" for a' z' al' k
    using blocks_apart [OF h bl that(1)] that w1 by auto
  assume "book E v w"
  then consider (header) a' z' al where "(a', z', al) \<in> blocks E v" "w = of_nat a' + 8"
    | (head) x where "is_head E x" "w = nx x \<or> w = pv x"
    | (free) x z' where "(unat x, z', False) \<in> blocks E v" "w = nx x \<or> w = pv x"
    | (quick) j x where "j < NUM_QUICK_LISTS" "x \<in> set (quicks v j)" "w = nx x"
    unfolding book_def by blast
  then show False
  proof cases
    case header
    note R' = block_range [OF h header(1)]
    have "unat w = a' + 8"
      using header(2) R' unat_plus [of a' "num.Bit0 (num.Bit0 (num.Bit0 num.One))"] by simp
    then show False using other [OF header(1), of 8] w1 R' by (cases "a' = a") auto
  next
    case head
    from head_links [OF heap_invD(1) [OF h] head] w1 R show False by auto
  next
    case free
    note B = block_blk [OF h free(1)] and R' = block_range [OF h free(1)]
    have "unat x \<noteq> a" using blocks_apart [OF h bl free(1)] R R' by auto
    with other [OF free(1), of 16] other [OF free(1), of 24] free(2) link_addr [OF B(4)] R' show False by auto
  next
    case quick
    have q: "(unat x, unat (quick_size j), True) \<in> blocks E v"
      using heap_invD(4) [OF h] quick(1,2) by (simp add: quick_inv_def)
    note B = block_blk [OF h q] and R' = block_range [OF h q]
    have "x \<noteq> of_nat a" using b quick(1,2) by (auto simp: held_def)
    then have "unat x \<noteq> a" by auto
    with other [OF q, of 16] quick(3) link_addr [OF B(4)] R' show False by auto
  qed
qed

subsection \<open>The quick lists\<close>

lemma blocks_upd [simp]:
  "blocks E (v\<lparr>quicks := q\<rparr>) = blocks E v" "blocks E (v\<lparr>frees := f\<rparr>) = blocks E v"
  by (simp_all add: blocks_def)

lemma heap_inv_quick:
  assumes "heap_inv E v s" and "quick_inv E (v\<lparr>quicks := q\<rparr>) (s\<lparr>quick := qs\<rparr>)"
  shows "heap_inv E (v\<lparr>quicks := q\<rparr>) (s\<lparr>quick := qs\<rparr>)"
  using assms by (simp add: heap_inv_def)

lemma quick_invD:
  assumes "quick_inv E v s" and "j < NUM_QUICK_LISTS"
  shows "ql_length (quick s ! j) = int (length (quicks v j))" "length (quicks v j) \<le> QUICK_LIST_MAX"
    "chain (mem s) (ql_first (quick s ! j)) (quicks v j)" "distinct (quicks v j)"
    "x \<in> set (quicks v j) \<Longrightarrow> (unat x, unat (quick_size j), True) \<in> blocks E v"
    "length (quick s) = NUM_QUICK_LISTS"
  using assms by (auto simp: quick_inv_def)

lemma quick_invI:
  assumes "length (quick s) = NUM_QUICK_LISTS"
    and "\<And>j. j < NUM_QUICK_LISTS \<Longrightarrow> ql_length (quick s ! j) = int (length (quicks v j))"
    and "\<And>j. j < NUM_QUICK_LISTS \<Longrightarrow> length (quicks v j) \<le> QUICK_LIST_MAX"
    and "\<And>j. j < NUM_QUICK_LISTS \<Longrightarrow> chain (mem s) (ql_first (quick s ! j)) (quicks v j)"
    and "\<And>j. j < NUM_QUICK_LISTS \<Longrightarrow> distinct (quicks v j)"
    and "\<And>j x. j < NUM_QUICK_LISTS \<Longrightarrow> x \<in> set (quicks v j) \<Longrightarrow> (unat x, unat (quick_size j), True) \<in> blocks E v"
  shows "quick_inv E v s"
  using assms by (simp add: quick_inv_def)

text \<open>A block of a quick size has both flags set.\<close>

lemma quick_size_le: "j < NUM_QUICK_LISTS \<Longrightarrow> unat (quick_size j) = 32 + 16 * j \<and> unat (quick_size j) \<le> 176"
  by (drule below_10) (auto simp: quick_size_def)

lemma quick_header:
  assumes h: "heap_inv E v s" and b: "(unat x, unat (quick_size j), True) \<in> blocks E v" and j: "j < NUM_QUICK_LISTS"
  shows "unmagic E (mem s (x + 8)) = quick_size j OR 6"
    "strip_flags (unmagic E (mem s (x + 8))) = quick_size j"
proof -
  show "unmagic E (mem s (x + 8)) = quick_size j OR 6"
    using heap_invD(5) [OF h b] conjunct2 [OF quick_size_le [OF j]] by (simp add: header_ok_def)
  then show "strip_flags (unmagic E (mem s (x + 8))) = quick_size j"
    using strip_ok(3) [OF quick_size_szok [OF j]] by simp
qed

lemma quick_first:
  assumes h: "heap_inv E v s" and j: "j < NUM_QUICK_LISTS" and l: "0 < ql_length (quick s ! j)"
  shows "\<exists>xs. quicks v j = ql_first (quick s ! j) # xs"
    "valid_addr E s (ql_first (quick s ! j) + 8)" "valid_addr E s (ql_first (quick s ! j) + 16)"
    "strip_flags (unmagic E (mem s (ql_first (quick s ! j) + 8))) = quick_size j"
proof -
  note Q = quick_invD [OF heap_invD(4) [OF h] j]
  obtain x xs where q: "quicks v j = x # xs" using Q(1) l by (cases "quicks v j") auto
  then have f: "ql_first (quick s ! j) = x" using Q(3) by simp
  have b: "(unat x, unat (quick_size j), True) \<in> blocks E v" using Q(5) [of x] q by simp
  show "\<exists>xs. quicks v j = ql_first (quick s ! j) # xs" using q f by simp
  show "valid_addr E s (ql_first (quick s ! j) + 8)" "valid_addr E s (ql_first (quick s ! j) + 16)"
    using block_blk [OF h b] f by (auto simp: blk_def nx_def)
  show "strip_flags (unmagic E (mem s (ql_first (quick s ! j) + 8))) = quick_size j"
    using quick_header(2) [OF h b j] f by simp
qed

lemma free_to_quick:
  assumes h: "heap_inv E v s" and b: "(a, unat (quick_size i)) \<in> held E v" and i: "i < NUM_QUICK_LISTS"
    and room: "length (quicks v i) < QUICK_LIST_MAX"
  shows "\<exists>m qs. sf_free E (of_nat a + 16) s = Inr ((), s\<lparr>mem := m, quick := qs\<rparr>)
    \<and> heap_inv E (v\<lparr>quicks := (quicks v)(i := of_nat a # quicks v i)\<rparr>) (s\<lparr>mem := m, quick := qs\<rparr>)
    \<and> (\<forall>w. \<not> in_payload (a, unat (quick_size i)) w \<longrightarrow> m w = mem s w)"
proof -
  let ?b = "of_nat a :: addr" and ?z = "unat (quick_size i)"
  have bl: "(a, ?z, True) \<in> blocks E v" using b by (simp add: held_def)
  note R = block_range [OF h bl] and g = heap_invD(1) [OF h]
  have ub: "unat ?b = a" using R(6) by (intro unat_nat) linarith
  have bl': "(unat ?b, ?z, True) \<in> blocks E v" using bl ub by simp
  note B = block_blk [OF h bl'] and Q = quick_invD [OF heap_invD(4) [OF h]]
  have l16: "unat (?b + 16) = a + 16" using link_addr(1) [OF B(4)] ub by (simp add: nx_def)
  have uz: "unat (?b + quick_size i) = a + ?z"
    using R(6) ub by (simp add: unat_word_ariths)
  let ?f = "ql_first (quick s ! i)"
  let ?m = "(mem s)(nx ?b := ?f)"
  let ?qs = "(quick s)[i := \<lparr>ql_length = ql_length (quick s ! i) + 1, ql_first = ?b\<rparr>]"
  let ?v = "v\<lparr>quicks := (quicks v)(i := ?b # quicks v i)\<rparr>"
  have run: "sf_free E (?b + 16) s = Inr ((), s\<lparr>mem := ?m, quick := ?qs\<rparr>)"
    unfolding nx_def
  proof (rule free_small [OF _ _ _ _ _ i])
    show "?b \<noteq> 0" using R(7) ub by (auto simp: addr_eq)
    show "?b mod 16 = 0" "valid_addr E s (?b + 8)" by (rule B)+
    show "valid_addr E s (?b + 16)" using B(1) by (simp add: blk_def nx_def)
    show "unmagic E (mem s (?b + 8)) = quick_size i OR 6" by (rule quick_header(1) [OF h bl' i])
    show "\<not> ?b + 16 < mem_start E" using R(1) l16 by (simp add: word_less_nat_alt)
    show "\<not> mem_end s < ?b + quick_size i" using R(2) uz by (simp add: word_less_nat_alt)
    show "ql_length (quick s ! i) \<noteq> 5" using Q(1) [OF i] room by (simp add: QUICK_LIST_MAX_def)
  qed
  have pay: "in_payload (a, ?z) (nx ?b)" using link_addr(1) [OF B(4)] ub R(4) by (simp add: in_payload_def)
  have fr: "?m w = mem s w" if "\<not> in_payload (a, ?z) w" for w using pay that by auto
  have h1: "heap_inv E v (s\<lparr>mem := ?m\<rparr>)"
    using held_not_book [OF h b pay] by (intro heap_inv_frame [OF h]) auto
  note Q1 = quick_invD [OF heap_invD(4) [OF h1]]
  have nb: "?b \<notin> set (quicks v j)" if "j < NUM_QUICK_LISTS" for j using b that by (simp add: held_def)
  have len: "length (quick s) = NUM_QUICK_LISTS" using Q(6) [OF i] .
  have "quick_inv E ?v (s\<lparr>mem := ?m, quick := ?qs\<rparr>)"
  proof (rule quick_invI)
    fix j assume j: "j < NUM_QUICK_LISTS"
    show "ql_length (quick (s\<lparr>mem := ?m, quick := ?qs\<rparr>) ! j) = int (length (quicks ?v j))"
      using Q(1) [OF i] Q(1) [OF j] len i by (cases "j = i") auto
    show "length (quicks ?v j) \<le> QUICK_LIST_MAX" using Q(2) [OF j] room by (cases "j = i") auto
    show "chain (mem (s\<lparr>mem := ?m, quick := ?qs\<rparr>)) (ql_first (quick (s\<lparr>mem := ?m, quick := ?qs\<rparr>) ! j)) (quicks ?v j)"
      using Q1(3) [OF i] Q1(3) [OF j] len i R(7) ub by (cases "j = i") (auto simp: addr_eq)
    show "distinct (quicks ?v j)" using Q(4) [OF j] nb [OF j] by (cases "j = i") auto
    fix x assume "x \<in> set (quicks ?v j)"
    then show "(unat x, unat (quick_size j), True) \<in> blocks E ?v"
      using Q(5) [OF j, of x] bl' by (cases "j = i") auto
  qed (use len in simp)
  then have "heap_inv E ?v (s\<lparr>mem := ?m, quick := ?qs\<rparr>)"
    using heap_inv_quick [OF h1, of "(quicks v)(i := ?b # quicks v i)" ?qs] by simp
  then show ?thesis using run fr by blast
qed

lemma malloc_from_quick:
  assumes h: "heap_inv E v s" and i: "i < NUM_QUICK_LISTS" and q: "quicks v i = x # xs"
    and req: "req \<noteq> 0" "0 \<le> c_int req" "block_size req = Inr (quick_size i)" and st: "0 < steps E"
  shows "\<exists>qs. sf_malloc E req s = Inr (x + 16, s\<lparr>quick := qs\<rparr>)
    \<and> heap_inv E (v\<lparr>quicks := (quicks v)(i := xs)\<rparr>) (s\<lparr>quick := qs\<rparr>)"
proof -
  note Q = quick_invD [OF heap_invD(4) [OF h]]
  have l: "0 < ql_length (quick s ! i)" using Q(1) [OF i] q by simp
  note F = quick_first [OF h i l]
  have f: "ql_first (quick s ! i) = x" using F(1) q by simp
  let ?qs = "(quick s)[i := \<lparr>ql_length = ql_length (quick s ! i) - 1, ql_first = mem s (x + 16)\<rparr>]"
  have len: "length (quick s) = NUM_QUICK_LISTS" using Q(6) [OF i] .
  have me: "mem_start E \<noteq> mem_end s" using heap_invD(1) [OF h] by (auto simp: geometry_def)
  have run: "sf_malloc E req s = Inr (x + 16, s\<lparr>quick := ?qs\<rparr>)"
  proof (rule malloc_quick [OF req i me _ _ l f])
    show "steps E \<noteq> 0" using st by simp
    show "valid_addr E s (x + 8)" "valid_addr E s (x + 16)" "strip_flags (unmagic E (mem s (x + 8))) = quick_size i"
      using F f by simp_all
    show "\<forall>j < i. 0 < ql_length (quick s ! j) \<longrightarrow> valid_addr E s (ql_first (quick s ! j) + 8)
      \<and> strip_flags (unmagic E (mem s (ql_first (quick s ! j) + 8))) \<noteq> quick_size i"
    proof (intro allI impI)
      fix j assume j: "j < i" "0 < ql_length (quick s ! j)"
      then have j10: "j < NUM_QUICK_LISTS" using i by simp
      have "quick_size j \<noteq> quick_size i" using quick_size_inj [OF j10 i] j(1) by auto
      then show "valid_addr E s (ql_first (quick s ! j) + 8)
        \<and> strip_flags (unmagic E (mem s (ql_first (quick s ! j) + 8))) \<noteq> quick_size i"
        using quick_first(2,4) [OF h j10 j(2)] by simp
    qed
  qed
  let ?v = "v\<lparr>quicks := (quicks v)(i := xs)\<rparr>"
  have "quick_inv E ?v (s\<lparr>quick := ?qs\<rparr>)"
  proof (rule quick_invI)
    fix j assume j: "j < NUM_QUICK_LISTS"
    show "ql_length (quick (s\<lparr>quick := ?qs\<rparr>) ! j) = int (length (quicks ?v j))"
      using Q(1) [OF i] Q(1) [OF j] len i q by (cases "j = i") auto
    show "length (quicks ?v j) \<le> QUICK_LIST_MAX" using Q(2) [OF j] q by (cases "j = i") auto
    show "chain (mem (s\<lparr>quick := ?qs\<rparr>)) (ql_first (quick (s\<lparr>quick := ?qs\<rparr>) ! j)) (quicks ?v j)"
      using Q(3) [OF i] Q(3) [OF j] len i q by (cases "j = i") (auto simp: nx_def)
    show "distinct (quicks ?v j)" using Q(4) [OF j] q by (cases "j = i") auto
    fix y assume "y \<in> set (quicks ?v j)"
    then show "(unat y, unat (quick_size j), True) \<in> blocks E ?v"
      using Q(5) [OF j, of y] q by (cases "j = i") auto
  qed (use len in simp)
  then have "heap_inv E ?v (s\<lparr>quick := ?qs\<rparr>)" by (rule heap_inv_quick [OF h])
  then show ?thesis using run by blast
qed

subsection \<open>Taking a free block\<close>

text \<open>A word is away from a free block when it is outside its header, links and footer.\<close>

definition away :: "sf_env \<Rightarrow> heap_view \<Rightarrow> nat \<Rightarrow> nat \<Rightarrow> addr \<Rightarrow> bool" where
  "away E v a z w \<longleftrightarrow> (unat w < a + 8 \<or> a + z + 8 \<le> unat w)
     \<and> (\<forall>x. is_head E x \<or> (\<exists>y. (unat x, y, False) \<in> blocks E v) \<longrightarrow> w \<noteq> nx x \<and> w \<noteq> pv x)"

lemma szok16: "z mod 16 = 0 \<Longrightarrow> z < 2 ^ 64 \<Longrightarrow> szok (of_nat z)"
proof -
  assume "z mod 16 = 0" "z < 2 ^ 64"
  then have "unat (of_nat z :: 64 word) mod 8 = 0" by (simp add: unat_nat) presburger
  then show ?thesis by (rule szok_mod)
qed

lemma of_nat_sub: "n \<le> z \<Longrightarrow> (of_nat z :: 64 word) - of_nat n = of_nat (z - n)"
  by (simp add: of_nat_diff)

lemma free_block:
  assumes h: "heap_inv E v s" and b: "(a, z, False) \<in> blocks E v"
  shows "\<exists>i < NUM_FREE_LISTS. of_nat a \<in> set (frees v i)" "unat (of_nat a :: addr) = a"
    "strip_flags (unmagic E (mem s (of_nat a + 8))) = of_nat z"
    "unmagic E (mem s (of_nat a + 8)) = of_nat z OR 2 \<or> (176 < z \<and> unmagic E (mem s (of_nat a + 8)) = of_nat z)"
    "szok (of_nat z)"
proof -
  note R = block_range [OF h b]
  show u: "unat (of_nat a :: addr) = a" using R(6) by (intro unat_nat) linarith
  then show "\<exists>i < NUM_FREE_LISTS. of_nat a \<in> set (frees v i)"
    using heap_invD(6) [OF h, of "of_nat a"] b by auto
  show sz: "szok (of_nat z)" using R(5,6) by (intro szok16) linarith+
  show hd: "unmagic E (mem s (of_nat a + 8)) = of_nat z OR 2 \<or> (176 < z \<and> unmagic E (mem s (of_nat a + 8)) = of_nat z)"
    using heap_invD(5) [OF h b] by (auto simp: header_ok_def)
  show "strip_flags (unmagic E (mem s (of_nat a + 8))) = of_nat z"
    using hd strip_ok(1,4) [OF sz] by auto
qed

text \<open>Taking a block out of its list by its own links, as the split does.\<close>

lemma unlink_run:
  assumes fl: "free_lists E s fl" and i: "i < NUM_FREE_LISTS" and b: "b \<in> set (fl i)"
  shows "\<exists>p t m. mem s (pv b) = p \<and> mem s (nx b) = t \<and> valid_addr E s (nx p) \<and> valid_addr E s (pv t)
    \<and> m = (mem s)(nx p := t, pv t := p) \<and> free_lists E (s\<lparr>mem := m\<rparr>) (fl(i := remove1 b (fl i)))
    \<and> (\<forall>w. (\<forall>x. is_head E x \<or> x \<in> set (fl i) \<longrightarrow> w \<noteq> nx x \<and> w \<noteq> pv x) \<longrightarrow> m w = mem s w)"
proof -
  note D = free_listsD [OF fl]
  obtain ys zs where yz: "fl i = ys @ b # zs" using b by (meson split_list)
  let ?p = "last (head_of E i # ys)" and ?t = "hd (zs @ [head_of E i])"
  note U = unlink_spec [OF fl i yz refl refl]
  have bl: "blk E s ?p" "blk E s ?t" using U(4,5) D(1,4) [OF i] by auto
  have "nx ?p \<noteq> pv ?t" using nx_pv [OF blk_mod blk_mod] bl by blast
  then have sw: "(mem s)(nx ?p := ?t, pv ?t := ?p) = (mem s)(pv ?t := ?p, nx ?p := ?t)"
    by (rule fun_upd_twist)
  have mem: "?p = head_of E i \<or> ?p \<in> set (fl i)" "?t = head_of E i \<or> ?t \<in> set (fl i)" using U(4,5) by auto
  have "((mem s)(nx ?p := ?t, pv ?t := ?p)) w = mem s w"
    if "\<forall>x. is_head E x \<or> x \<in> set (fl i) \<longrightarrow> w \<noteq> nx x \<and> w \<noteq> pv x" for w
    using that mem head_is_head [OF i, of E] by auto
  then have fr: "\<forall>w. (\<forall>x. is_head E x \<or> x \<in> set (fl i) \<longrightarrow> w \<noteq> nx x \<and> w \<noteq> pv x)
      \<longrightarrow> ((mem s)(nx ?p := ?t, pv ?t := ?p)) w = mem s w" by blast
  have va: "valid_addr E s (nx ?p)" "valid_addr E s (pv ?t)" using bl by (simp_all add: blk_def)
  have fr1: "free_lists E (s\<lparr>mem := (mem s)(nx ?p := ?t, pv ?t := ?p)\<rparr>) (fl(i := remove1 b (fl i)))"
    unfolding sw by (rule U(1))
  show ?thesis
    by (rule exI [of _ ?p], rule exI [of _ ?t], rule exI [of _ "(mem s)(nx ?p := ?t, pv ?t := ?p)"])
      (intro conjI U(2,3) va refl fr1 fr)
qed

text \<open>A word of a free block is no link of a head or of another free block.\<close>

lemma link_far:
  assumes h: "heap_inv E v s" and b: "(a, z, al) \<in> blocks E v"
    and x: "is_head E x \<or> (\<exists>y. (unat x, y, False) \<in> blocks E v)"
    and w: "a + 8 \<le> unat w" "unat w < a + z + 8" "unat x \<noteq> a \<or> unat w = a + 8 \<or> a + 24 < unat w"
  shows "w \<noteq> nx x \<and> w \<noteq> pv x"
  using x
proof
  note R = block_range [OF h b]
  assume "is_head E x"
  with head_links [OF heap_invD(1) [OF h]] w R show ?thesis by force
next
  note R = block_range [OF h b]
  assume "\<exists>y. (unat x, y, False) \<in> blocks E v"
  then obtain y where y: "(unat x, y, False) \<in> blocks E v" ..
  note L = link_addr [OF block_blk(4) [OF h y]] and R' = block_range [OF h y]
  show ?thesis
  proof (cases "unat x = a")
    case True
    then show ?thesis using L w(3) by auto
  next
    case False
    then show ?thesis using blocks_apart [OF h b y] w L R R' by auto
  qed
qed

lemma mem_mem: "s\<lparr>mem := x\<rparr>\<lparr>mem := y\<rparr> = s\<lparr>mem := (y :: addr \<Rightarrow> 64 word)\<rparr>" "mem (s\<lparr>mem := x\<rparr>) = x"
  by simp_all

lemma mem_at:
  assumes "valid_addr E s a"
  shows "rd E a (s\<lparr>mem := m\<rparr>) = Inr (m a, s\<lparr>mem := m\<rparr>)"
    "wr E a y (s\<lparr>mem := m\<rparr>) = Inr ((), s\<lparr>mem := m(a := y)\<rparr>)"
    "bnd (rd E a) k (s\<lparr>mem := m\<rparr>) = k (m a) (s\<lparr>mem := m\<rparr>)"
  using assms by (simp_all add: rd_def wr_def bnd_def)

lemma insert_run:
  assumes "free_lists E (s\<lparr>mem := m\<rparr>) fl" and "blk E s b" and "\<not> is_head E b"
    and "\<forall>j < NUM_FREE_LISTS. b \<notin> set (fl j)"
  shows "\<exists>k m'. k < NUM_FREE_LISTS \<and> sf_put_in_free_list E b z (s\<lparr>mem := m\<rparr>) = Inr ((), s\<lparr>mem := m'\<rparr>)
    \<and> free_lists E (s\<lparr>mem := m'\<rparr>) (fl(k := b # fl k))
    \<and> (\<forall>w. (\<forall>x. is_head E x \<or> x = b \<or> x \<in> set (fl k) \<longrightarrow> w \<noteq> nx x \<and> w \<noteq> pv x) \<longrightarrow> m' w = m w)"
proof -
  have "blk E (s\<lparr>mem := m\<rparr>) b" using assms(2) by simp
  from free_list_insert [OF assms(1) this assms(3,4), of z] obtain k m' where
    k: "k < NUM_FREE_LISTS" "sf_put_in_free_list E b z (s\<lparr>mem := m\<rparr>) = Inr ((), s\<lparr>mem := m'\<rparr>)"
      "free_lists E (s\<lparr>mem := m'\<rparr>) (fl(k := b # fl k))"
      "\<forall>w. (\<forall>x. is_head E x \<or> x = b \<or> x \<in> set (fl k) \<longrightarrow> w \<noteq> nx x \<and> w \<noteq> pv x) \<longrightarrow> m' w = m w"
    by (elim exE conjE, hypsubst, unfold mem_mem) (rule that)
  then show ?thesis by (intro exI conjI)
qed

lemma take_split:
  assumes h: "heap_inv E v s" and b: "(a, z, False) \<in> blocks E v"
    and i: "i < NUM_FREE_LISTS" "of_nat a \<in> set (frees v i)"
    and n: "32 \<le> n" "n mod 16 = 0" "n + 32 \<le> z"
  shows "\<exists>k m. k < NUM_FREE_LISTS
    \<and> take_fit E (of_nat a) (of_nat z) (of_nat n) s = (sq (note_end (of_nat (a + n))) (ret (of_nat a + 16))) (s\<lparr>mem := m\<rparr>)
    \<and> free_lists E (s\<lparr>mem := m\<rparr>)
        (let f = (frees v)(i := remove1 (of_nat a) (frees v i)) in f(k := of_nat (a + n) # f k))
    \<and> unmagic E (m (of_nat a + 8)) = of_nat n OR 6 \<and> unmagic E (m (of_nat (a + n) + 8)) = of_nat (z - n) OR 2
    \<and> (\<forall>w. away E v a z w \<longrightarrow> m w = mem s w)"
proof -
  let ?b = "of_nat a :: addr" and ?c = "of_nat (a + n) :: addr"
  note R = block_range [OF h b] and H = heap_invD [OF h] and F = free_block [OF h b]
  note g = H(1) and D = free_listsD [OF H(3)]
  have uc: "unat ?c = a + n" using R(6) n by (intro unat_nat) linarith
  have zn: "(z - n) mod 16 = 0" using R(5) n(2,3) by presburger
  have sz: "szok (of_nat (z - n) :: 64 word)" using zn R(6) by (intro szok16) linarith+
  have lc: "unat ?c + 24 < 2 ^ 64" using uc R(6) n by linarith
  have lb: "unat ?b + 24 < 2 ^ 64" using F(2) R by linarith
  note Lc = link_addr [OF lc, unfolded uc] and Lb = link_addr [OF lb, unfolded F(2)]
  have uh: "unat (?c + 8) = a + n + 8" "unat (?b + 8) = a + 8"
    using unat_word [of ?c "num.Bit0 (num.Bit0 (num.Bit0 num.One))"]
      unat_word [of ?b "num.Bit0 (num.Bit0 (num.Bit0 num.One))"] uc F(2) lc lb by simp_all
  have uf: "unat (?c + of_nat (z - n)) = a + z"
  proof -
    have "?c + of_nat (z - n) = of_nat (a + n + (z - n))" by (simp only: of_nat_add)
    also have "a + n + (z - n) = a + z" using n by simp
    finally show ?thesis using R(6) unat_nat [of "a + z"] by (simp only:)
  qed
  have al: "(a + n) mod 16 = 0" using R(3) n(2) by (simp add: mod_add_eq [symmetric, of a])
  then have al8: "(a + n) mod 8 = 0" "(a + n + 8) mod 8 = 0" "(a + n + 16) mod 8 = 0" "(a + n + 24) mod 8 = 0"
      "(a + z) mod 8 = 0" "(a + 8) mod 8 = 0"
    using R(3,5) by presburger+
  have in_heap: "valid_addr E s w" if "unat w mod 8 = 0" "a + 8 \<le> unat w" "unat w \<le> a + z" for w
    using that R(1,2) by (intro valid_heap [OF g]) linarith+
  have V: "valid_addr E s (?c + 8)" "valid_addr E s ?c" "valid_addr E s (?c + of_nat (z - n))"
    "valid_addr E s (?b + 8)"
    by (rule in_heap; unfold uc uh uf; use al8 n R(4) in linarith)+
  have V5: "blk E s ?c"
    unfolding blk_def mod16_unat uc
    by (intro conjI al in_heap; unfold Lc; use al8 n R(4) in linarith)
  have hc: "\<not> is_head E ?c" using head_links [OF g, of ?c "nx ?c"] Lc R n by auto
  note far = link_far [OF h b]
  have fb: "is_head E x \<or> (\<exists>y. (unat x, y, False) \<in> blocks E v)"
    if "j < NUM_FREE_LISTS" "x = head_of E j \<or> x \<in> set (frees v j)" for j x
    using that head_is_head [OF that(1), of E] H(6) [of x] by auto
  let ?hS = "unmagic E (of_nat (z - n) OR 2)"
  let ?m1 = "(mem s)(?c + 8 := ?hS, ?c := unmagic E (of_nat n OR 4), ?c + of_nat (z - n) := ?hS)"
  have tail: "w \<noteq> ?c + 8 \<and> w \<noteq> ?c \<and> w \<noteq> ?c + of_nat (z - n)" if "unat w < a + n \<or> a + z < unat w" for w
    using that uc uf uh n by auto
  have m1: "?m1 w = mem s w" if "unat w < a + n \<or> a + z < unat w" for w
    using tail [OF that] by simp
  have m1l: "?m1 w = mem s w"
    if "is_head E x \<or> (\<exists>y. (unat x, y, False) \<in> blocks E v)" "w = nx x \<or> w = pv x" for w x
  proof (rule m1, rule ccontr)
    assume "\<not> (unat w < a + n \<or> a + z < unat w)"
    then show False using far [OF that(1), of w] that(2) n by auto
  qed
  have fl1: "free_lists E (s\<lparr>mem := ?m1\<rparr>) (frees v)"
    using m1l fb by (intro free_lists_frame [OF H(3)]) blast
  from unlink_run [OF fl1 i] obtain p t m2 where
    u: "?m1 (pv ?b) = p" "?m1 (nx ?b) = t" "valid_addr E s (nx p)" "valid_addr E s (pv t)"
      "m2 = ?m1(nx p := t, pv t := p)" "free_lists E (s\<lparr>mem := m2\<rparr>) ((frees v)(i := remove1 ?b (frees v i)))"
    and u2: "\<forall>w. (\<forall>x. is_head E x \<or> x \<in> set (frees v i) \<longrightarrow> w \<noteq> nx x \<and> w \<noteq> pv x) \<longrightarrow> m2 w = ?m1 w"
    by (simp del: fun_upd_apply)
  let ?f = "(frees v)(i := remove1 ?b (frees v i))"
  have sub: "set (?f j) \<subseteq> set (frees v j)" for j using set_remove1_subset [of ?b "frees v i"] by auto
  have newc: "\<forall>j < NUM_FREE_LISTS. ?c \<notin> set (?f j)"
  proof (intro allI impI notI)
    fix j assume j: "j < NUM_FREE_LISTS" "?c \<in> set (?f j)"
    then obtain y where y: "(unat ?c, y, False) \<in> blocks E v" using sub [of j] H(6) [of ?c] by auto
    show False using blocks_apart [OF h b y] block_range(4) [OF h y] uc n by auto
  qed
  from insert_run [OF u(6) V5 hc newc, of "of_nat (z - n)"] obtain k m3 where
    k: "k < NUM_FREE_LISTS" "sf_put_in_free_list E ?c (of_nat (z - n)) (s\<lparr>mem := m2\<rparr>) = Inr ((), s\<lparr>mem := m3\<rparr>)"
      "free_lists E (s\<lparr>mem := m3\<rparr>) (?f(k := ?c # ?f k))"
    and k2: "\<forall>w. (\<forall>x. is_head E x \<or> x = ?c \<or> x \<in> set (?f k) \<longrightarrow> w \<noteq> nx x \<and> w \<noteq> pv x) \<longrightarrow> m3 w = m2 w"
    by (elim exE conjE) (rule that)
  let ?m4 = "m3(?b + 8 := unmagic E (of_nat n OR 6))"
  have inb: "?b \<notin> set (?f j)" if "j < NUM_FREE_LISTS" for j
    using that i D(3) [OF i(1)] D(6) [OF i] by (cases "j = i") auto
  have fk: "is_head E x \<or> (\<exists>y. (unat x, y, False) \<in> blocks E v)" if "x \<in> set (?f k)" for x
    using fb [OF k(1), of x] sub [of k] that by auto
  have m3: "m3 w = ?m1 w" if "\<forall>x. is_head E x \<or> (\<exists>y. (unat x, y, False) \<in> blocks E v) \<longrightarrow> w \<noteq> nx x \<and> w \<noteq> pv x"
    "w \<noteq> nx ?c" "w \<noteq> pv ?c" for w
  proof -
    have "m3 w = m2 w" using that fk by (intro k2 [rule_format]) blast
    also have "\<dots> = ?m1 w" using that(1) fb [OF i(1)] by (intro u2 [rule_format]) blast
    finally show ?thesis .
  qed
  have fl4: "free_lists E (s\<lparr>mem := ?m4\<rparr>) (?f(k := ?c # ?f k))"
  proof -
    have "free_lists E ((s\<lparr>mem := m3\<rparr>)\<lparr>mem := ?m4\<rparr>) (?f(k := ?c # ?f k))"
    proof (rule free_lists_frame [OF k(3)])
      fix j x assume j: "j < NUM_FREE_LISTS" "x = head_of E j \<or> x \<in> set ((?f(k := ?c # ?f k)) j)"
      then consider "x = ?c" | "x = head_of E j" | "x \<in> set (?f j)" by (auto split: if_splits)
      then have "?b + 8 \<noteq> nx x \<and> ?b + 8 \<noteq> pv x"
      proof cases
        case 1
        then show ?thesis using Lc uh n by auto
      next
        case 2
        then have "is_head E x" using head_is_head [OF j(1)] by simp
        then show ?thesis using far [of x "?b + 8"] uh R by simp
      next
        case 3
        then have "x \<in> set (frees v j)" using sub by blast
        then show ?thesis using far [OF fb [OF j(1)], of x "?b + 8"] uh R by simp
      qed
      then show "?m4 (nx x) = mem (s\<lparr>mem := m3\<rparr>) (nx x) \<and> ?m4 (pv x) = mem (s\<lparr>mem := m3\<rparr>) (pv x)" by auto
    qed
    then show ?thesis by simp
  qed
  have hdr_c: "?m4 (?c + 8) = ?hS"
  proof -
    have "\<forall>x. is_head E x \<or> (\<exists>y. (unat x, y, False) \<in> blocks E v) \<longrightarrow> ?c + 8 \<noteq> nx x \<and> ?c + 8 \<noteq> pv x"
      using far [where w = "?c + 8"] uh n R by auto
    moreover have "?c + 8 \<noteq> nx ?c" "?c + 8 \<noteq> pv ?c" using uh(1) Lc by auto
    ultimately have "m3 (?c + 8) = ?m1 (?c + 8)" by (rule m3)
    moreover have "unat (?c + 8) \<noteq> unat (?b + 8)" "unat (?c + 8) \<noteq> unat (?c + of_nat (z - n))"
      "unat (?c + 8) \<noteq> unat ?c" unfolding uh uf uc using n by linarith+
    then have "?c + 8 \<noteq> ?b + 8" "?c + 8 \<noteq> ?c + of_nat (z - n)" "?c + 8 \<noteq> ?c" by metis+
    ultimately show ?thesis by (simp only: fun_upd_apply if_False if_True simp_thms)
  qed
  have fr: "?m4 w = mem s w" if "away E v a z w" for w
  proof -
    have w: "unat w < a + 8 \<or> a + z + 8 \<le> unat w" using that by (simp add: away_def)
    have "w \<noteq> nx ?c" "w \<noteq> pv ?c" "w \<noteq> ?b + 8" using w Lc uh n by auto
    moreover have "m3 w = ?m1 w" using that calculation by (intro m3) (simp_all add: away_def)
    moreover have "?m1 w = mem s w" using w n by (intro m1) auto
    ultimately show ?thesis by simp
  qed
  have foot: "?c \<noteq> ?c + 8" using uc uh(1) by auto
  have bm: "?m1 (?b + 24) = p" "?m1 (?b + 16) = t" using u(1,2) by (simp_all only: nx_def pv_def)
  have run: "take_fit E ?b (of_nat z) (of_nat n) s = sq (note_end ?c) (ret (?b + 16)) (s\<lparr>mem := ?m4\<rparr>)"
  proof -
    have big: "(of_nat z :: 64 word) - of_nat n \<ge> 32"
    proof -
      have "unat (of_nat (z - n) :: 64 word) = z - n" using R(6) by (intro unat_nat) linarith
      then have "(32 :: 64 word) \<le> of_nat (z - n)" using n by (simp add: word_le_nat_alt)
      moreover have "n \<le> z" using n(3) by simp
      ultimately show ?thesis by (simp only: of_nat_sub)
    qed
    have le: "n \<le> z" using n(3) by simp
    have flags: "(of_nat n :: 64 word) OR 4 OR 2 = of_nat n OR 6" by (simp add: or.assoc)
    let ?a1 = "(mem s)(?c + 8 := ?hS)"
    let ?a2 = "?a1(?c := unmagic E (of_nat n OR 4))"
    have e1: "set_header E ?c ?hS s = Inr ((), s\<lparr>mem := ?a1\<rparr>)"
      by (simp only: sf_fields wr_ok [OF V(1)])
    have e2: "set_footer E ?c (unmagic E (of_nat n OR 4)) (s\<lparr>mem := ?a1\<rparr>) = Inr ((), s\<lparr>mem := ?a2\<rparr>)"
      by (simp only: sf_fields mem_at(2) [OF V(2)])
    have up: "?a2 (?c + 8) = ?hS" using foot by simp
    have sb: "size_bits (unmagic E ?hS) = of_nat (z - n)" using szok_or(1) [OF sz] by simp
    have e3: "sf_set_block_footer E ?c (s\<lparr>mem := ?a2\<rparr>) = Inr ((), s\<lparr>mem := ?m1\<rparr>)"
      by (simp only: sf_set_block_footer_def sf_fields Let_def mem_at(3) [OF V(1)] up sb mem_at(2) [OF V(3)])
    have vb: "valid_addr E s (?b + 24)" "valid_addr E s (?b + 16)"
      using block_blk(1) [OF h, of ?b z] F(2) b by (auto simp: blk_def nx_def pv_def)
    have e4: "get_prev E ?b (s\<lparr>mem := ?m1\<rparr>) = Inr (p, s\<lparr>mem := ?m1\<rparr>)"
      "get_next E ?b (s\<lparr>mem := ?m1\<rparr>) = Inr (t, s\<lparr>mem := ?m1\<rparr>)"
      by (simp_all only: sf_fields mem_at(1) [OF vb(1)] mem_at(1) [OF vb(2)] bm)
    have e5: "set_next E p t (s\<lparr>mem := ?m1\<rparr>) = Inr ((), s\<lparr>mem := ?m1(nx p := t)\<rparr>)"
      unfolding sf_fields nx_def by (rule mem_at(2)) (use u(3) in \<open>simp only: nx_def\<close>)
    have e6: "set_prev E t p (s\<lparr>mem := ?m1(nx p := t)\<rparr>) = Inr ((), s\<lparr>mem := m2\<rparr>)"
      unfolding sf_fields u(5) pv_def by (rule mem_at(2)) (use u(4) in \<open>simp only: pv_def\<close>)
    have e8: "set_header E ?b (unmagic E (of_nat n OR 6)) (s\<lparr>mem := m3\<rparr>) = Inr ((), s\<lparr>mem := ?m4\<rparr>)"
      by (simp only: sf_fields mem_at(2) [OF V(4)])
    show ?thesis
      by (simp only: take_fit_def Let_def big [unfolded of_nat_sub [OF le]] if_True sf_consts flags of_nat_sub [OF le] of_nat_add [of a n, symmetric]
          sq_Inr [where m = "set_header E ?c ?hS", OF e1]
          sq_Inr [where m = "set_footer E ?c (unmagic E (of_nat n OR 4))", OF e2]
          sq_Inr [where m = "sf_set_block_footer E ?c", OF e3]
          bnd_Inr [where m = "get_prev E ?b", OF e4(1)] bnd_Inr [where m = "get_next E ?b", OF e4(2)]
          sq_Inr [where m = "set_next E p t", OF e5] sq_Inr [where m = "set_prev E t p", OF e6]
          sq_Inr [where m = "sf_put_in_free_list E ?c (of_nat (z - n))", OF k(2)]
          sq_Inr [where m = "set_header E ?b (unmagic E (of_nat n OR 6))", OF e8] payload_def)
  qed
  show ?thesis
    unfolding Let_def
  proof (rule exI [of _ k], rule exI [of _ ?m4], intro conjI k(1) run fl4)
    show "unmagic E (?m4 (?b + 8)) = of_nat n OR 6" by simp
    show "unmagic E (?m4 (?c + 8)) = of_nat (z - n) OR 2" unfolding hdr_c by simp
    show "\<forall>w. away E v a z w \<longrightarrow> ?m4 w = mem s w" using fr by blast
  qed
qed

lemma global_end:
  assumes h: "heap_inv E v s"
  shows "\<exists>z al. (unat (globalEnd s), z, al) \<in> blocks E v"
proof -
  obtain bs z al where t: "tiles v = bs @ [(z, al)]" "unat (globalEnd s) = unat (mem_start E) + total bs"
    using heap_invD(7) [OF h] by blast
  then have "(unat (globalEnd s), z, al) \<in> blocks E v" by (simp add: blocks_def)
  then show ?thesis by blast
qed

lemma take_whole:
  assumes h: "heap_inv E v s" and b: "(a, z, False) \<in> blocks E v"
    and i: "i < NUM_FREE_LISTS" "of_nat a \<in> set (frees v i)"
    and n: "n \<le> z" "z < n + 32" and len: "\<forall>j < NUM_FREE_LISTS. length (frees v j) < steps E"
  shows "\<exists>m. take_fit E (of_nat a) (of_nat z) (of_nat n) s = (sq (note_end (of_nat a)) (ret (of_nat a + 16))) (s\<lparr>mem := m\<rparr>)
    \<and> free_lists E (s\<lparr>mem := m\<rparr>) ((frees v)(i := remove1 (of_nat a) (frees v i)))
    \<and> header_ok (unmagic E (m (of_nat a + 8))) z True
    \<and> (\<forall>w. away E v a z w \<longrightarrow> m w = mem s w)"
proof -
  let ?b = "of_nat a :: addr" and ?f = "(frees v)(i := remove1 (of_nat a) (frees v i))"
  note R = block_range [OF h b] and H = heap_invD [OF h] and F = free_block [OF h b]
  have bb: "(unat ?b, z, False) \<in> blocks E v" using b F(2) by simp
  note B = block_blk [OF h bb] and far = link_far [OF h b]
  have uh: "unat (?b + 8) = a + 8"
    using unat_word [of ?b "num.Bit0 (num.Bit0 (num.Bit0 num.One))"] F(2) B(4) by simp
  obtain zg ag where g: "(unat (globalEnd s), zg, ag) \<in> blocks E v" using global_end [OF h] by blast
  from remove_spec [OF H(3) i len] obtain m1 where
    r: "sf_remove_from_free_list E ?b s = Inr ((), s\<lparr>mem := m1\<rparr>)" "free_lists E (s\<lparr>mem := m1\<rparr>) ?f"
    and r2: "\<forall>w. (\<forall>x. x = head_of E i \<or> x \<in> set (frees v i) \<longrightarrow> w \<noteq> nx x \<and> w \<noteq> pv x) \<longrightarrow> m1 w = mem s w"
    by (elim exE conjE, hypsubst) (rule that)
  have fb: "is_head E x \<or> (\<exists>y. (unat x, y, False) \<in> blocks E v)"
    if "j < NUM_FREE_LISTS" "x = head_of E j \<or> x \<in> set (frees v j)" for j x
    using that head_is_head [OF that(1), of E] H(6) [of x] by auto
  have m1: "m1 w = mem s w" if "\<forall>x. is_head E x \<or> (\<exists>y. (unat x, y, False) \<in> blocks E v) \<longrightarrow> w \<noteq> nx x \<and> w \<noteq> pv x" for w
    using that fb [OF i(1)] by (intro r2 [rule_format]) blast
  have nolink: "?b + 8 \<noteq> nx x \<and> ?b + 8 \<noteq> pv x" if "is_head E x \<or> (\<exists>y. (unat x, y, False) \<in> blocks E v)" for x
    using far [OF that, of "?b + 8"] uh R by simp
  then have h1: "m1 (?b + 8) = mem s (?b + 8)" by (intro m1) blast
  let ?hd = "\<lambda>y. (if unmagic E (m1 (globalEnd s + 8)) AND 4 = 4 then unmagic E (y OR 4 OR 2) else unmagic E (y OR 4))"
  let ?m = "m1(?b + 8 := ?hd (unmagic E (mem s (?b + 8))))"
  have run: "take_fit E ?b (of_nat z) (of_nat n) s = sq (note_end ?b) (ret (?b + 16)) (s\<lparr>mem := ?m\<rparr>)"
  proof -
    have "unat (of_nat (z - n) :: 64 word) = z - n" using R(6) by (intro unat_nat) linarith
    then have "\<not> (32 :: 64 word) \<le> of_nat (z - n)" using n(2) by (simp only: word_le_nat_alt) simp
    then have small: "\<not> (32 :: 64 word) \<le> of_nat z - of_nat n" by (simp only: of_nat_sub [OF n(1)] simp_thms)
    note G = block_blk(3) [OF h g]
    have e2: "get_header E (globalEnd s) (s\<lparr>mem := m1\<rparr>) = Inr (m1 (globalEnd s + 8), s\<lparr>mem := m1\<rparr>)"
      "get_header E ?b (s\<lparr>mem := m1\<rparr>) = Inr (mem s (?b + 8), s\<lparr>mem := m1\<rparr>)"
      by (simp_all only: sf_fields mem_at(1) [OF G] mem_at(1) [OF B(3)] h1)
    have e3: "(if c then set_header E ?b x else set_header E ?b y) (s\<lparr>mem := m1\<rparr>)
        = Inr ((), s\<lparr>mem := m1(?b + 8 := if c then x else y)\<rparr>)" for c x y
      by (simp only: sf_fields mem_at(2) [OF B(3)] split: if_split) simp
    have ge: "globalEnd (s\<lparr>mem := m1\<rparr>) = globalEnd s" by simp
    show ?thesis
      by (simp only: take_fit_def small if_False sf_consts payload_def
          sq_Inr [where m = "sf_remove_from_free_list E ?b", OF r(1)] bnd_gets ge
          bnd_Inr [where m = "get_header E (globalEnd s)", OF e2(1)]
          bnd_Inr [where m = "get_header E ?b", OF e2(2)]
          sq_Inr [where m = "if c then set_header E ?b x else set_header E ?b y" for c x y, OF e3])
  qed
  let ?h = "unmagic E (mem s (?b + 8))"
  have o1: "?h OR 4 OR 2 = of_nat z OR 6" using F(4) by (auto simp: or.assoc)
  have o2: "?h OR 4 = of_nat z OR 6 \<or> (176 < z \<and> ?h OR 4 = of_nat z OR 4)" using F(4) by (auto simp: or.assoc)
  have hdr: "header_ok (unmagic E (?m (?b + 8))) z True"
  proof (cases "unmagic E (m1 (globalEnd s + 8)) AND 4 = 4")
    case True
    then have "unmagic E (?m (?b + 8)) = ?h OR 4 OR 2" by (simp only: fun_upd_same refl if_True unmagic_twice)
    then show ?thesis by (simp only: o1 header_ok_def if_True simp_thms)
  next
    case False
    then have "unmagic E (?m (?b + 8)) = ?h OR 4" by (simp only: fun_upd_same if_False unmagic_twice)
    then show ?thesis using o2 by (auto simp: header_ok_def)
  qed
  have fl: "free_lists E (s\<lparr>mem := ?m\<rparr>) ?f"
  proof -
    have "free_lists E ((s\<lparr>mem := m1\<rparr>)\<lparr>mem := ?m\<rparr>) ?f"
    proof (rule free_lists_frame [OF r(2)])
      fix j x assume j: "j < NUM_FREE_LISTS" "x = head_of E j \<or> x \<in> set (?f j)"
      then have "x = head_of E j \<or> x \<in> set (frees v j)"
        using set_remove1_subset [of ?b "frees v i"] by (auto split: if_splits)
      from nolink [OF fb [OF j(1) this]] have "nx x \<noteq> ?b + 8" "pv x \<noteq> ?b + 8" by metis+
      then show "?m (nx x) = mem (s\<lparr>mem := m1\<rparr>) (nx x) \<and> ?m (pv x) = mem (s\<lparr>mem := m1\<rparr>) (pv x)"
        by (simp only: mem_mem fun_upd_apply if_False simp_thms)
    qed
    then show ?thesis by (simp only: mem_mem)
  qed
  have fr: "?m w = mem s w" if "away E v a z w" for w
  proof -
    have "w \<noteq> ?b + 8" using that uh R by (auto simp: away_def)
    moreover have "m1 w = mem s w" using that by (intro m1) (simp add: away_def)
    ultimately show ?thesis by simp
  qed
  show ?thesis
    by (rule exI [of _ ?m], intro conjI run fl hdr allI impI fr)
qed

text \<open>Replacing one free block of the view by a row of blocks of the same total size.\<close>

lemma blocks_replace:
  assumes "tiles v = bs1 @ c # bs2" and "a = unat (mem_start E) + total bs1" and "total cs = fst c"
  shows "blocks E v = set (cells (unat (mem_start E)) bs1) \<union> set (cells a [c]) \<union> set (cells (a + fst c) bs2)"
    "blocks E (v\<lparr>tiles := bs1 @ cs @ bs2\<rparr>)
      = set (cells (unat (mem_start E)) bs1) \<union> set (cells a cs) \<union> set (cells (a + fst c) bs2)"
  using assms by (cases c; auto simp: blocks_def add.assoc)+

lemma heap_inv_replace:
  assumes h: "heap_inv E v s" and t: "tiles v = bs1 @ (z, False) # bs2" and a: "a = unat (mem_start E) + total bs1"
    and cs: "total cs = z" "\<forall>c \<in> set (cells a cs). cell_ok E m c"
    and fl: "free_lists E (s\<lparr>mem := m\<rparr>) fl'"
    and mem_fl: "\<And>x. (\<exists>i < NUM_FREE_LISTS. x \<in> set (fl' i)) \<longleftrightarrow>
        ((\<exists>i < NUM_FREE_LISTS. x \<in> set (frees v i)) \<and> unat x \<noteq> a) \<or> (\<exists>y. (unat x, y, False) \<in> set (cells a cs))"
    and fr: "\<And>w. away E v a z w \<Longrightarrow> m w = mem s w"
    and ge: "\<exists>bs y al. bs1 @ cs @ bs2 = bs @ [(y, al)] \<and> unat g = unat (mem_start E) + total bs"
  shows "heap_inv E (v\<lparr>tiles := bs1 @ cs @ bs2, frees := fl'\<rparr>) (s\<lparr>mem := m, globalEnd := g\<rparr>)"
proof -
  note H = heap_invD [OF h]
  let ?v = "v\<lparr>tiles := bs1 @ cs @ bs2, frees := fl'\<rparr>"
  note BR = blocks_replace [OF t a, of cs, simplified, OF cs(1)]
  have b: "(a, z, False) \<in> blocks E v" using BR(1) by simp
  note R = block_range [OF h b]
  let ?old = "set (cells (unat (mem_start E)) bs1) \<union> set (cells (a + z) bs2)"
  have bn: "blocks E ?v = ?old \<union> set (cells a cs)" using BR(2) by (auto simp: blocks_def)
  have bo: "blocks E v = insert (a, z, False) ?old" using BR(1) by auto
  have old_ne: "x \<noteq> a" if "(x, y, al) \<in> ?old" for x y al
  proof
    assume x: "x = a"
    have "x < x + y" using block_range(4) [OF h, of x y al] that bo by auto
    moreover have "x + y \<le> a \<or> a + z \<le> x" using that cells_bounds a R(4) by fastforce
    ultimately show False using x R(4) by auto
  qed
  have keep: "m w = mem s w" if c: "(x, y, al) \<in> ?old" and w: "x + 8 \<le> unat w" "unat w < x + y + 8"
    and k: "unat w = x + 8 \<or> al" for x y al w
  proof (rule fr, unfold away_def, intro conjI allI impI)
    have cb: "(x, y, al) \<in> blocks E v" using c bo by simp
    have "x + y \<le> a \<or> a + z \<le> x" using blocks_apart [OF h b cb] old_ne [OF c] by auto
    then show "unat w < a + 8 \<or> a + z + 8 \<le> unat w" using w by auto
    fix q assume q: "is_head E q \<or> (\<exists>y. (unat q, y, False) \<in> blocks E v)"
    have "w \<noteq> nx q \<and> w \<noteq> pv q"
      using q
    proof
      assume "is_head E q"
      from head_links [OF H(1) this, of w] show ?thesis
        using block_range(1,2) [OF h cb] w by linarith
    next
      assume "\<exists>y. (unat q, y, False) \<in> blocks E v"
      then obtain y' where y': "(unat q, y', False) \<in> blocks E v" ..
      have "unat q \<noteq> x \<or> unat w = x + 8"
        using k blocks_apart [OF h cb y'] block_range(4) [OF h cb] block_range(4) [OF h y'] by auto
      then show ?thesis using link_far [OF h cb q w] by blast
    qed
    then show "w \<noteq> nx q" "w \<noteq> pv q" by simp_all
  qed
  let ?s = "s\<lparr>mem := m, globalEnd := g\<rparr>"
  have cells_ok: "cell_ok E m c" if c: "c \<in> blocks E ?v" for c
  proof (cases "c \<in> set (cells a cs)")
    case True
    then show ?thesis using cs(2) by blast
  next
    case False
    obtain x y al where e: "c = (x, y, al)" by (cases c) auto
    have o: "(x, y, al) \<in> ?old" using False c bn e by blast
    then have cb: "(x, y, al) \<in> blocks E v" using bo by simp
    note R' = block_range [OF h cb]
    have u: "unat (of_nat x + 8 :: addr) = x + 8"
      using R'(6) unat_plus [of x "num.Bit0 (num.Bit0 (num.Bit0 num.One))"] by simp
    have "m (of_nat x + 8) = mem s (of_nat x + 8)"
      by (rule keep [OF o]; unfold u; use R'(4) in simp)
    then show ?thesis using H(5) [OF cb] e by (simp add: cell_ok_def)
  qed
  have free_iff: "(\<exists>i < NUM_FREE_LISTS. x \<in> set (fl' i)) \<longleftrightarrow> (\<exists>y. (unat x, y, False) \<in> blocks E ?v)" for x
  proof -
    have "(\<exists>y. (unat x, y, False) \<in> ?old) \<longleftrightarrow> (\<exists>y. (unat x, y, False) \<in> blocks E v) \<and> unat x \<noteq> a"
      using bo old_ne by auto
    then show ?thesis unfolding mem_fl H(6) bn by blast
  qed
  have quick: "quick_inv E ?v ?s"
  proof (rule quick_invI)
    show "length (quick ?s) = NUM_QUICK_LISTS" using H(4) by (simp add: quick_inv_def)
    fix j assume j: "j < NUM_QUICK_LISTS"
    note Q = quick_invD [OF H(4) j]
    have o: "(unat x, unat (quick_size j), True) \<in> ?old" if "x \<in> set (quicks v j)" for x
      using Q(5) [OF that] bo by simp
    show "ql_length (quick ?s ! j) = int (length (quicks ?v j))" "length (quicks ?v j) \<le> QUICK_LIST_MAX"
      "distinct (quicks ?v j)" using Q(1,2,4) by simp_all
    have "m (nx x) = mem s (nx x)" if x: "x \<in> set (quicks v j)" for x
    proof -
      note L = link_addr(1) [OF block_blk(4) [OF h Q(5) [OF x]]] and R' = block_range(4) [OF h Q(5) [OF x]]
      show ?thesis by (rule keep [OF o [OF x]]; unfold L; use R' in simp)
    qed
    then show "chain (mem ?s) (ql_first (quick ?s ! j)) (quicks ?v j)"
      using Q(3) chain_frame [of "quicks v j" m "mem s"] by simp
    show "(unat x, unat (quick_size j), True) \<in> blocks E ?v" if "x \<in> set (quicks ?v j)" for x
      using o [of x] that bn by simp
  qed
  have tot: "total (tiles ?v) = total (tiles v)" using t cs(1) by simp
  show ?thesis
    unfolding heap_inv_def
  proof (intro conjI ballI allI)
    show "geometry E ?s" using H(1) by simp
    show "unat (mem_start E) + total (tiles ?v) + 16 = unat (mem_end ?s)" unfolding tot using H(2) by simp
    show "cell_ok E (mem ?s) c" if "c \<in> blocks E ?v" for c using cells_ok [OF that] by simp
    show "free_lists E ?s (frees ?v)" using fl by simp
    show "(\<exists>i < NUM_FREE_LISTS. x \<in> set (frees ?v i)) \<longleftrightarrow> (\<exists>y. (unat x, y, False) \<in> blocks E ?v)" for x
      using free_iff [of x] by simp
    show "quick_inv E ?v ?s" by (rule quick)
    show "\<exists>bs y al. tiles ?v = bs @ [(y, al)] \<and> unat (globalEnd ?s) = unat (mem_start E) + total bs"
      using ge by simp
  qed
qed

text \<open>What becomes of a free block of \<open>z\<close> bytes when \<open>n\<close> are taken.\<close>

definition carve :: "nat \<Rightarrow> nat \<Rightarrow> tiling" where
  "carve n z = (if n + 32 \<le> z then [(n, True), (z - n, False)] else [(z, True)])"

lemma carve_total [simp]: "total (carve n z) = z"
  by (simp add: carve_def)

lemma quick_search_none:
  assumes h: "heap_inv E v s" and none: "\<forall>i < NUM_QUICK_LISTS. quicks v i \<noteq> [] \<longrightarrow> quick_size i \<noteq> bs"
  shows "quick_search E [0..<NUM_QUICK_LISTS] bs s = Inr (None, s)"
proof -
  have "\<forall>j \<in> set [0..<NUM_QUICK_LISTS]. 0 < ql_length (quick s ! j) \<longrightarrow> valid_addr E s (ql_first (quick s ! j) + 8)
      \<and> strip_flags (unmagic E (mem s (ql_first (quick s ! j) + 8))) \<noteq> bs"
  proof (intro ballI impI)
    fix j assume "j \<in> set [0..<NUM_QUICK_LISTS]" and l: "0 < ql_length (quick s ! j)"
    then have j: "j < NUM_QUICK_LISTS" by simp
    note F = quick_first [OF h j l]
    have "quicks v j \<noteq> []" using F(1) by auto
    then show "valid_addr E s (ql_first (quick s ! j) + 8)
      \<and> strip_flags (unmagic E (mem s (ql_first (quick s ! j) + 8))) \<noteq> bs"
      using F(2,4) none j by simp
  qed
  from quick_search_skip [OF this, of "[]"] show ?thesis by simp
qed

lemma find_SomeD: "find p xs = Some x \<Longrightarrow> x \<in> set xs \<and> p x"
  by (induction xs) (auto split: if_splits)

lemma fit_lists_heap:
  assumes h: "heap_inv E v s" and len: "\<forall>j < NUM_FREE_LISTS. length (frees v j) < steps E" and n: "n < 2 ^ 64"
  shows "(\<exists>a z i. (a, z, False) \<in> blocks E v \<and> n \<le> z \<and> i < NUM_FREE_LISTS \<and> of_nat a \<in> set (frees v i)
      \<and> fit_lists E [0..<NUM_FREE_LISTS] (of_nat n) s = Inr (Some (of_nat a, of_nat z), s))
    \<or> ((\<forall>a z. (a, z, False) \<in> blocks E v \<longrightarrow> z < n)
      \<and> fit_lists E [0..<NUM_FREE_LISTS] (of_nat n) s = Inr (None, s))"
proof -
  note H = heap_invD [OF h]
  let ?sz = "\<lambda>x. strip_flags (unmagic E (mem s (x + 8)))"
  let ?L = "concat (map (frees v) [0..<NUM_FREE_LISTS])"
  have mem: "x \<in> set ?L \<longleftrightarrow> (\<exists>z. (unat x, z, False) \<in> blocks E v)" for x
    using H(6) [of x] by auto
  have va: "valid_addr E s (x + 8)" if "x \<in> set ?L" for x
    using that mem block_blk(3) [OF h] by blast
  have size: "?sz (of_nat a) = of_nat z" "unat (of_nat z :: 64 word) = z" "unat (of_nat a :: addr) = a"
    if "(a, z, False) \<in> blocks E v" for a z
    using free_block(2,3) [OF h that] block_range(6) [OF h that] by (simp_all add: unat_nat)
  have le: "(of_nat n :: 64 word) \<le> of_nat z \<longleftrightarrow> n \<le> z" if "(a, z, False) \<in> blocks E v" for a z
    using size(2) [OF that] n by (simp add: word_le_nat_alt unat_nat)
  have run: "fit_lists E [0..<NUM_FREE_LISTS] (of_nat n) s
      = Inr (map_option (\<lambda>x. (x, ?sz x)) (find (\<lambda>x. of_nat n \<le> ?sz x) ?L), s)"
    using len va by (intro fit_lists_find [OF H(3)]) auto
  show ?thesis
  proof (cases "find (\<lambda>x. of_nat n \<le> ?sz x) ?L")
    case None
    have "z < n" if b: "(a, z, False) \<in> blocks E v" for a z
    proof -
      have "of_nat a \<in> set ?L" using b size(3) [OF b] mem by auto
      then have "\<not> of_nat n \<le> ?sz (of_nat a)" using None by (simp only: find_None_conv) blast
      then show ?thesis using size(1) [OF b] le [OF b] by simp
    qed
    then show ?thesis using run None by simp
  next
    case (Some x)
    from find_SomeD [OF this] have x: "x \<in> set ?L" "of_nat n \<le> ?sz x" by blast+
    then obtain z where b: "(unat x, z, False) \<in> blocks E v" using mem by blast
    obtain i where i: "i < NUM_FREE_LISTS" "x \<in> set (frees v i)" using x(1) by auto
    have sx: "?sz x = of_nat z" using size(1) [OF b] by simp
    then have "n \<le> z" using x(2) le [OF b] by simp
    then show ?thesis using run Some b i sx by (intro disjI1) force
  qed
qed

lemma note_end_run: "sq (note_end b) (ret p) s = Inr (p, s\<lparr>globalEnd := if b > globalEnd s then b else globalEnd s\<rparr>)"
  by (simp add: note_end_def sq_def bnd_def)

text \<open>The new last block.\<close>

lemma end_kept:
  assumes h: "heap_inv E v s" and t: "tiles v = bs1 @ (z, False) # bs2" and a: "a = unat (mem_start E) + total bs1"
    and cs: "cs = ds @ [(y, al)]" "total cs = z" and e: "e = a + total ds" and r: "unat (of_nat e :: addr) = e"
  shows "\<exists>bs y' al'. bs1 @ cs @ bs2 = bs @ [(y', al')]
    \<and> unat (if of_nat e > globalEnd s then of_nat e else globalEnd s) = unat (mem_start E) + total bs"
proof -
  obtain bs zl l where g: "tiles v = bs @ [(zl, l)]" "unat (globalEnd s) = unat (mem_start E) + total bs"
    using heap_invD(7) [OF h] by blast
  show ?thesis
  proof (cases bs2 rule: rev_cases)
    case Nil
    then have "unat (globalEnd s) = a" using g t a by simp
    then have "unat (if of_nat e > globalEnd s then of_nat e else globalEnd s) = e"
      using r e by (auto simp: word_less_nat_alt)
    moreover have "bs1 @ cs @ bs2 = (bs1 @ ds) @ [(y, al)]" using Nil cs by simp
    ultimately show ?thesis using e a by (intro exI [of _ "bs1 @ ds"]) auto
  next
    case (snoc bs2' c)
    then have "bs = bs1 @ (z, False) # bs2'" "c = (zl, l)" using g(1) t by auto
    then have "a + z \<le> unat (globalEnd s)" using g(2) a by simp
    moreover have "e \<le> a + z" using e cs by auto
    ultimately have "\<not> of_nat e > globalEnd s" using r by (simp add: word_less_nat_alt)
    then have "unat (if of_nat e > globalEnd s then of_nat e else globalEnd s) = unat (mem_start E) + total (bs1 @ cs @ bs2')"
      using g(2) \<open>bs = _\<close> cs(2) by simp
    then show ?thesis using snoc \<open>c = _\<close> by (intro exI [of _ "bs1 @ cs @ bs2'"]) auto
  qed
qed

lemma take_fit_heap:
  assumes h: "heap_inv E v s" and b: "(a, z, False) \<in> blocks E v"
    and i: "i < NUM_FREE_LISTS" "of_nat a \<in> set (frees v i)"
    and n: "32 \<le> n" "n mod 16 = 0" "n \<le> z" and len: "\<forall>j < NUM_FREE_LISTS. length (frees v j) < steps E"
  shows "\<exists>bs1 bs2 fl' m g. tiles v = bs1 @ (z, False) # bs2 \<and> a = unat (mem_start E) + total bs1
    \<and> take_fit E (of_nat a) (of_nat z) (of_nat n) s = Inr (of_nat a + 16, s\<lparr>mem := m, globalEnd := g\<rparr>)
    \<and> heap_inv E (v\<lparr>tiles := bs1 @ carve n z @ bs2, frees := fl'\<rparr>) (s\<lparr>mem := m, globalEnd := g\<rparr>)
    \<and> (\<forall>w. away E v a z w \<longrightarrow> m w = mem s w)"
proof -
  from b cells_split [of a z False "unat (mem_start E)" "tiles v"]
  obtain bs1 bs2 where t: "tiles v = bs1 @ (z, False) # bs2" "a = unat (mem_start E) + total bs1"
    by (auto simp: blocks_def)
  note R = block_range [OF h b] and F = free_block [OF h b] and H = heap_invD [OF h]
  note D = free_listsD [OF H(3)]
  let ?fl = "(frees v)(i := remove1 (of_nat a) (frees v i))"
  have fl_mem: "(\<exists>j < NUM_FREE_LISTS. x \<in> set (?fl j)) \<longleftrightarrow> (\<exists>j < NUM_FREE_LISTS. x \<in> set (frees v j)) \<and> unat x \<noteq> a" for x
  proof -
    have ua: "unat x \<noteq> a \<longleftrightarrow> x \<noteq> of_nat a" using F(2) by (auto simp: addr_eq)
    have "x \<in> set (?fl j) \<longleftrightarrow> x \<in> set (frees v j) \<and> x \<noteq> of_nat a" if "j < NUM_FREE_LISTS" for j
      using D(3) [OF i(1)] D(6) [OF i] that by (cases "j = i") auto
    then show ?thesis unfolding ua by blast
  qed
  show ?thesis
  proof (cases "n + 32 \<le> z")
    case True
    from take_split [OF h b i n(1,2) True] obtain k m where
      k: "k < NUM_FREE_LISTS" "take_fit E (of_nat a) (of_nat z) (of_nat n) s
          = (sq (note_end (of_nat (a + n))) (ret (of_nat a + 16))) (s\<lparr>mem := m\<rparr>)"
        "free_lists E (s\<lparr>mem := m\<rparr>) (?fl(k := of_nat (a + n) # ?fl k))"
        "unmagic E (m (of_nat a + 8)) = of_nat n OR 6" "unmagic E (m (of_nat (a + n) + 8)) = of_nat (z - n) OR 2"
      and fr: "\<forall>w. away E v a z w \<longrightarrow> m w = mem s w"
      unfolding Let_def by (elim exE conjE) (rule that)
    have cv: "carve n z = [(n, True)] @ [(z - n, False)]" using True by (simp add: carve_def)
    have ok: "\<forall>c \<in> set (cells a (carve n z)). cell_ok E m c"
    proof -
      have "(z - n) mod 16 = 0" using R(5) n(2,3) by presburger
      then show ?thesis using k(4,5) n True by (simp add: cv cell_ok_def header_ok_def)
    qed
    have un: "unat (of_nat (a + n) :: addr) = a + n" using R(6) n(3) by (intro unat_nat) linarith
    let ?fl' = "?fl(k := of_nat (a + n) # ?fl k)"
    have m2: "(\<exists>j < NUM_FREE_LISTS. x \<in> set (?fl' j)) \<longleftrightarrow>
      ((\<exists>j < NUM_FREE_LISTS. x \<in> set (frees v j)) \<and> unat x \<noteq> a) \<or> (\<exists>y. (unat x, y, False) \<in> set (cells a (carve n z)))" for x
    proof -
      have "(\<exists>j < NUM_FREE_LISTS. x \<in> set (?fl' j)) \<longleftrightarrow> (\<exists>j < NUM_FREE_LISTS. x \<in> set (?fl j)) \<or> x = of_nat (a + n)"
        using k(1) by (auto split: if_splits)
      moreover have "(\<exists>y. (unat x, y, False) \<in> set (cells a (carve n z))) \<longleftrightarrow> x = of_nat (a + n)"
        using un by (simp only: addr_eq) (auto simp: cv)
      ultimately show ?thesis unfolding fl_mem by blast
    qed
    let ?g = "if of_nat (a + n) > globalEnd s then of_nat (a + n) else globalEnd s"
    have "\<exists>bs y al. bs1 @ carve n z @ bs2 = bs @ [(y, al)] \<and> unat ?g = unat (mem_start E) + total bs"
      by (rule end_kept [OF h t cv carve_total _ un]) simp
    note hv = heap_inv_replace [OF h t carve_total ok k(3) m2 fr [rule_format] this]
    have run: "take_fit E (of_nat a) (of_nat z) (of_nat n) s = Inr (of_nat a + 16, s\<lparr>mem := m, globalEnd := ?g\<rparr>)"
      unfolding k(2) note_end_run by simp
    show ?thesis
      by (rule exI [of _ bs1], rule exI [of _ bs2], rule exI [of _ ?fl'], rule exI [of _ m], rule exI [of _ ?g])
        (intro conjI t run hv fr)
  next
    case False
    then have zn: "z < n + 32" by simp
    from take_whole [OF h b i n(3) zn len] obtain m where
      k: "take_fit E (of_nat a) (of_nat z) (of_nat n) s = (sq (note_end (of_nat a)) (ret (of_nat a + 16))) (s\<lparr>mem := m\<rparr>)"
        "free_lists E (s\<lparr>mem := m\<rparr>) ?fl" "header_ok (unmagic E (m (of_nat a + 8))) z True"
      and fr: "\<forall>w. away E v a z w \<longrightarrow> m w = mem s w"
      by (elim exE conjE) (rule that)
    have cv: "carve n z = [] @ [(z, True)]" using False by (simp add: carve_def)
    have ok: "\<forall>c \<in> set (cells a (carve n z)). cell_ok E m c"
      using k(3) R(4,5) by (simp add: cv cell_ok_def)
    have m2: "(\<exists>j < NUM_FREE_LISTS. x \<in> set (?fl j)) \<longleftrightarrow>
      ((\<exists>j < NUM_FREE_LISTS. x \<in> set (frees v j)) \<and> unat x \<noteq> a) \<or> (\<exists>y. (unat x, y, False) \<in> set (cells a (carve n z)))" for x
      unfolding fl_mem by (simp add: cv)
    let ?g = "if of_nat a > globalEnd s then of_nat a else globalEnd s"
    have "\<exists>bs y al. bs1 @ carve n z @ bs2 = bs @ [(y, al)] \<and> unat ?g = unat (mem_start E) + total bs"
      by (rule end_kept [OF h t cv carve_total _ F(2)]) simp
    note hv = heap_inv_replace [OF h t carve_total ok k(2) m2 fr [rule_format] this]
    have run: "take_fit E (of_nat a) (of_nat z) (of_nat n) s = Inr (of_nat a + 16, s\<lparr>mem := m, globalEnd := ?g\<rparr>)"
      unfolding k(1) note_end_run by simp
    show ?thesis
      by (rule exI [of _ bs1], rule exI [of _ bs2], rule exI [of _ ?fl], rule exI [of _ m], rule exI [of _ ?g])
        (intro conjI t run hv fr)
  qed
qed

subsection \<open>A whole call\<close>

text \<open>The size of the block for a request of \<open>r\<close> bytes.\<close>

definition block_bytes :: "nat \<Rightarrow> nat" where
  "block_bytes r = max 32 (16 * ((r + 23) div 16))"

lemma block_bytes_fits: "fits r (block_bytes r) \<and> (\<forall>m. fits r m \<longrightarrow> block_bytes r \<le> m)"
proof -
  have "r + 8 \<le> 16 * ((r + 23) div 16)" by presburger
  moreover have "16 * ((r + 23) div 16) \<le> m" if m: "m mod 16 = 0" "r + 8 \<le> m" for m :: nat
  proof -
    obtain k where k: "m = 16 * k" using m(1) by auto
    then have "(r + 23) div 16 \<le> k" using m(2) by linarith
    then show ?thesis using k by simp
  qed
  ultimately show ?thesis by (auto simp: fits_def block_bytes_def max_def)
qed

lemma block_bytes_mod: "block_bytes r mod 16 = 0" "32 \<le> block_bytes r" "r + 8 \<le> block_bytes r"
  using block_bytes_fits [of r] by (auto simp: fits_def)

lemma block_bytes_le: "block_bytes r \<le> r + 32"
  unfolding block_bytes_def by auto

lemma block_size_bytes:
  assumes "unat req < 2 ^ 31"
  shows "block_size req = Inr (of_nat (block_bytes (unat req)))" "0 \<le> c_int req"
    "block_bytes (unat req) < 2 ^ 32"
proof -
  show l: "block_bytes (unat req) < 2 ^ 32" using block_bytes_le [of "unat req"] assms by simp
  have "unat req + 64 < 2 ^ 64" using assms by simp
  from block_size_least [OF this] obtain b where
    b: "block_size req = Inr b" "fits (unat req) (unat b)" "\<forall>m. fits (unat req) m \<longrightarrow> unat b \<le> m" by blast
  then have "unat b = block_bytes (unat req)"
    using block_bytes_fits [of "unat req"] by (meson le_antisym)
  then have "b = of_nat (block_bytes (unat req))" by (metis word_unat_eq_iff unat_nat addr_lt)
  then show "block_size req = Inr (of_nat (block_bytes (unat req)))" using b(1) by simp
  have "req = of_nat (unat req)" by simp
  have ui: "uint req = int (unat req)" by simp
  have "unat req < 2 ^ 32" using assms by simp
  then have "int (unat req) < int (2 ^ 32)" by (simp only: of_nat_less_iff)
  then have "int (unat req) < 2 ^ 32" by simp
  then have "take_bit 32 (int (unat req)) = int (unat req)" by (intro take_bit_int_eq_self) simp_all
  then have u: "uint (ucast req :: 32 word) = int (unat req)"
    by (simp only: unsigned_ucast_eq ui) simp
  show "0 \<le> c_int req"
  proof -
    have "int (unat req) < int (2 ^ 31)" using assms by (simp only: of_nat_less_iff)
    then have 2: "int (unat req) < 2 ^ 31" by simp
    have "- (2 ^ 31) \<le> (0 :: int)" by simp
    then have "- (2 ^ 31) \<le> int (unat req)" by (rule order_trans) (rule of_nat_0_le_iff)
    from signed_take_bit_int_eq_self [OF this 2]
    have "signed_take_bit 31 (int (unat req)) = int (unat req)" .
    then have "sint (ucast req :: 32 word) = int (unat req)"
      by (simp only: sint_uint u) simp
    then show ?thesis by (simp add: c_int_def)
  qed
qed

end
