(* ===== verification/SfmmCalls.thy ===== *)
theory SfmmCalls
  imports SfmmHeap
begin

unbundle bit_operations_syntax

section \<open>Calls of the allocator on a whole heap (hw3/src/sfmm.c)\<close>

text \<open>
  What one call of \<open>sf_malloc\<close> or \<open>sf_free\<close> does to the blocks the client holds, the heap after its
  first page, sequences of calls mixed with writes of the client, and the requests on which
  \<open>sf_malloc\<close> never returns.
\<close>

subsection \<open>What the client holds\<close>

lemma payload_apart:
  assumes h: "heap_inv E v s" and b: "(a, z, al) \<in> blocks E v" "(a', z', al') \<in> blocks E v" and ne: "a \<noteq> a'"
    and w: "a + 8 \<le> unat w" "unat w < a + z + 8"
  shows "\<not> in_payload (a', z') w"
  using blocks_apart [OF h b] ne w by (auto simp: in_payload_def)

lemma held_carve:
  assumes h: "heap_inv E v s" and t: "tiles v = bs1 @ (z, False) # bs2" "a = unat (mem_start E) + total bs1"
    and n: "n \<le> z"
  shows "held E (v\<lparr>tiles := bs1 @ carve n z @ bs2, frees := fl\<rparr>)
      = insert (a, if n + 32 \<le> z then n else z) (held E v)"
    "(a, if n + 32 \<le> z then n else z) \<notin> held E v"
proof -
  note BR = blocks_replace [OF t, of "carve n z", simplified]
  let ?old = "set (cells (unat (mem_start E)) bs1) \<union> set (cells (a + z) bs2)"
  let ?v = "v\<lparr>tiles := bs1 @ carve n z @ bs2, frees := fl\<rparr>"
  have b: "(a, z, False) \<in> blocks E v" using BR(1) by simp
  have bn: "blocks E (v\<lparr>tiles := bs1 @ carve n z @ bs2\<rparr>) = ?old \<union> set (cells a (carve n z))" using BR(2) by blast
  have bo: "blocks E v = insert (a, z, False) ?old" using BR(1) by auto
  have nq: "of_nat a \<notin> set (quicks v j)" if j: "j < NUM_QUICK_LISTS" for j
  proof
    assume "of_nat a \<in> set (quicks v j)"
    from quick_invD(5) [OF heap_invD(4) [OF h] j this] free_block(2) [OF h b]
    have "(a, unat (quick_size j), True) \<in> blocks E v" by simp
    from blocks_apart [OF h b this] block_range(4) [OF h b] block_range(4) [OF h this] show False by auto
  qed
  have "(x, y, True) \<in> set (cells a (carve n z)) \<longleftrightarrow> x = a \<and> y = (if n + 32 \<le> z then n else z)" for x y
    by (auto simp: carve_def)
  then show "held E ?v = insert (a, if n + 32 \<le> z then n else z) (held E v)"
    using nq by (auto simp: held_def bn bo)
  show "(a, if n + 32 \<le> z then n else z) \<notin> held E v"
  proof
    assume "(a, if n + 32 \<le> z then n else z) \<in> held E v"
    then have "(a, if n + 32 \<le> z then n else z, True) \<in> blocks E v" by (simp add: held_def)
    from blocks_apart [OF h b this] block_range(4) [OF h b] block_range(4) [OF h this] show False by auto
  qed
qed

lemma held_pop:
  assumes h: "heap_inv E v s" and i: "i < NUM_QUICK_LISTS" and q: "quicks v i = x # xs"
  shows "held E (v\<lparr>quicks := (quicks v)(i := xs)\<rparr>) = insert (unat x, unat (quick_size i)) (held E v)"
    "(unat x, unat (quick_size i)) \<notin> held E v" "(unat x, unat (quick_size i), True) \<in> blocks E v"
proof -
  note Q = quick_invD [OF heap_invD(4) [OF h]]
  show b: "(unat x, unat (quick_size i), True) \<in> blocks E v" using Q(5) [OF i, of x] q by simp
  show "(unat x, unat (quick_size i)) \<notin> held E v"
    using i q by (auto simp: held_def intro!: exI [of _ i])
  have only: "x \<notin> set (quicks v j)" if j: "j < NUM_QUICK_LISTS" "j \<noteq> i" for j
  proof
    assume "x \<in> set (quicks v j)"
    from Q(5) [OF j(1) this] have b2: "(unat x, unat (quick_size j), True) \<in> blocks E v" .
    have "unat (quick_size i) = unat (quick_size j)"
      using blocks_apart [OF h b b2] block_range(4) [OF h b] block_range(4) [OF h b2] by auto
    then have "quick_size i = quick_size j" by (simp add: addr_eq)
    then show False using quick_size_inj [OF i j(1)] j(2) by simp
  qed
  have same: "z = unat (quick_size i)" if "(unat x, z, True) \<in> blocks E v" for z
    using blocks_apart [OF h b that] block_range(4) [OF h b] block_range(4) [OF h that] by auto
  have "x \<notin> set xs" using Q(4) [OF i] q by simp
  then have mem: "y \<in> set (((quicks v)(i := xs)) j) \<longleftrightarrow> y \<in> set (quicks v j) \<and> y \<noteq> x"
    if "j < NUM_QUICK_LISTS" for y j
    using only [OF that] q by (cases "j = i") auto
  show "held E (v\<lparr>quicks := (quicks v)(i := xs)\<rparr>) = insert (unat x, unat (quick_size i)) (held E v)"
  proof (intro set_eqI, clarify)
    fix a z
    show "(a, z) \<in> held E (v\<lparr>quicks := (quicks v)(i := xs)\<rparr>) \<longleftrightarrow>
        (a, z) \<in> insert (unat x, unat (quick_size i)) (held E v)"
    proof (cases "(a, z, True) \<in> blocks E v")
      case True
      have ua: "unat (of_nat a :: addr) = a" using block_range(6) [OF h True] by (intro unat_nat) linarith
      then have "(of_nat a = x) = (a = unat x)" by (auto simp: addr_eq)
      then show ?thesis using True mem same [of z] b by (auto simp: held_def)
    next
      case False
      then show ?thesis using b by (auto simp: held_def)
    qed
  qed
qed

lemma held_push:
  assumes h: "heap_inv E v s" and b: "(a, z) \<in> held E v" and i: "i < NUM_QUICK_LISTS"
  shows "held E (v\<lparr>quicks := (quicks v)(i := of_nat a # quicks v i)\<rparr>) = held E v - {(a, z)}"
proof (intro set_eqI, clarify)
  fix x y
  have bl: "(a, z, True) \<in> blocks E v" using b by (simp add: held_def)
  have ua: "unat (of_nat a :: addr) = a" using block_range(6) [OF h bl] by (intro unat_nat) linarith
  show "(x, y) \<in> held E (v\<lparr>quicks := (quicks v)(i := of_nat a # quicks v i)\<rparr>) \<longleftrightarrow> (x, y) \<in> held E v - {(a, z)}"
  proof (cases "(x, y, True) \<in> blocks E v")
    case True
    have ux: "unat (of_nat x :: addr) = x" using block_range(6) [OF h True] by (intro unat_nat) linarith
    have "x = a \<longrightarrow> y = z"
      using blocks_apart [OF h bl True] block_range(4) [OF h bl] block_range(4) [OF h True] by auto
    moreover have "of_nat x = (of_nat a :: addr) \<longleftrightarrow> x = a" using ua ux by metis
    ultimately show ?thesis using True i by (auto simp: held_def)
  next
    case False
    then show ?thesis by (auto simp: held_def)
  qed
qed

subsection \<open>sf_malloc\<close>

lemma malloc_unfold:
  assumes st: "steps E = Suc k" and req: "req \<noteq> 0" "0 \<le> c_int req" "block_size req = Inr bs"
    and me: "mem_start E \<noteq> mem_end s" and q: "quick_search E [0..<NUM_QUICK_LISTS] bs s = Inr (None, s)"
  shows "malloc_loop (Suc n) E req s = bnd (fit_lists E [0..<NUM_FREE_LISTS] bs) (\<lambda>f.
      case f of Some (curBlock, sz) \<Rightarrow> take_fit E curBlock sz bs
      | None \<Rightarrow> bnd (grow_heap E req) (\<lambda>ok. if ok then malloc_loop n E req else ret 0)) s"
  using req me by (simp add: bnd_Inr [where m = "quick_search E [0..<NUM_QUICK_LISTS] bs", OF q] sq_def bnd_def [of "ret ()"])

text \<open>The present heap can serve the request: by a block of a quick list or by a free block.\<close>

definition serves :: "sf_env \<Rightarrow> heap_view \<Rightarrow> nat \<Rightarrow> bool" where
  "serves E v n \<longleftrightarrow> (\<exists>i < NUM_QUICK_LISTS. quicks v i \<noteq> [] \<and> unat (quick_size i) = n)
     \<or> (\<exists>(a, z, al) \<in> blocks E v. \<not> al \<and> n \<le> z)"

lemma malloc_from_free:
  assumes h: "heap_inv E v s" and st: "\<forall>j < NUM_FREE_LISTS. length (frees v j) < steps E"
    and req: "0 < unat req" "unat req < 2 ^ 31" and n: "n = block_bytes (unat req)"
    and none: "\<forall>i < NUM_QUICK_LISTS. quicks v i \<noteq> [] \<longrightarrow> unat (quick_size i) \<noteq> n"
    and ex: "\<exists>(a, z, al) \<in> blocks E v. \<not> al \<and> n \<le> z"
  shows "\<exists>a z v' s'. sf_malloc E req s = Inr (of_nat a + 16, s') \<and> heap_inv E v' s' \<and> n \<le> z \<and> z < n + 32
    \<and> (\<forall>j. length (quicks v' j) \<le> length (quicks v j))
    \<and> (a, z) \<notin> held E v \<and> held E v' = insert (a, z) (held E v) \<and> (a, z, True) \<in> blocks E v'
    \<and> (\<forall>b \<in> held E v. \<forall>w. in_payload b w \<longrightarrow> mem s' w = mem s w) \<and> mem_end s' = mem_end s"
proof -
  note B = block_size_bytes [OF req(2), folded n]
  have r0: "req \<noteq> 0" using req(1) by auto
  have me: "mem_start E \<noteq> mem_end s" using heap_invD(1) [OF h] by (auto simp: geometry_def)
  obtain k where k: "steps E = Suc k" using st [rule_format, of 0] by (cases "steps E") (auto simp: NUM_FREE_LISTS_def)
  have n64: "n < 2 ^ 64" using B(3) by simp
  have "\<forall>i < NUM_QUICK_LISTS. quicks v i \<noteq> [] \<longrightarrow> quick_size i \<noteq> of_nat n"
    using none unat_nat [OF n64] by auto
  note qs = quick_search_none [OF h this]
  obtain a0 z0 where "(a0, z0, False) \<in> blocks E v" "n \<le> z0" using ex by auto
  then have "\<not> (\<forall>a z. (a, z, False) \<in> blocks E v \<longrightarrow> z < n)" by (meson not_le)
  with fit_lists_heap [OF h st n64] obtain a z i where
    f: "(a, z, False) \<in> blocks E v" "n \<le> z" "i < NUM_FREE_LISTS" "of_nat a \<in> set (frees v i)"
      "fit_lists E [0..<NUM_FREE_LISTS] (of_nat n) s = Inr (Some (of_nat a, of_nat z), s)" by blast
  have n32: "32 \<le> n" "n mod 16 = 0" using block_bytes_mod by (simp_all add: n)
  from take_fit_heap [OF h f(1,3,4) n32 f(2) st] obtain bs1 bs2 fl' m g where
    t: "tiles v = bs1 @ (z, False) # bs2" "a = unat (mem_start E) + total bs1"
      "take_fit E (of_nat a) (of_nat z) (of_nat n) s = Inr (of_nat a + 16, s\<lparr>mem := m, globalEnd := g\<rparr>)"
      "heap_inv E (v\<lparr>tiles := bs1 @ carve n z @ bs2, frees := fl'\<rparr>) (s\<lparr>mem := m, globalEnd := g\<rparr>)"
    and fr: "\<forall>w. away E v a z w \<longrightarrow> m w = mem s w" by (elim exE conjE) (rule that)
  let ?v = "v\<lparr>tiles := bs1 @ carve n z @ bs2, frees := fl'\<rparr>" and ?y = "if n + 32 \<le> z then n else z"
  have run: "sf_malloc E req s = Inr (of_nat a + 16, s\<lparr>mem := m, globalEnd := g\<rparr>)"
    unfolding sf_malloc_def malloc_unfold [OF k r0 B(2,1) me qs, of k, folded k]
    by (simp add: bnd_def f(5) t(3))
  note C = held_carve [OF h t(1,2) f(2)]
  have keep: "m w = mem s w" if b: "b \<in> held E v" and w: "in_payload b w" for b w
  proof (rule fr [rule_format], unfold away_def, intro conjI allI impI)
    obtain a' z' where e: "b = (a', z')" by (cases b)
    then have bl: "(a', z', True) \<in> blocks E v" using b by (simp add: held_def)
    have "a' \<noteq> a" using blocks_apart [OF h f(1) bl] block_range(4) [OF h f(1)] block_range(4) [OF h bl] by auto
    from payload_apart [OF h f(1) bl this [symmetric], of w] w e
    show "unat w < a + 8 \<or> a + z + 8 \<le> unat w" using leI by blast
    have nb: "\<not> book E v w" using held_not_book [OF h, of a' z' w] b w e by simp
    fix x assume "is_head E x \<or> (\<exists>y. (unat x, y, False) \<in> blocks E v)"
    then show "w \<noteq> nx x" "w \<noteq> pv x" using nb bookI(2,3) by metis+
  qed
  have "(a, ?y) \<in> held E ?v" unfolding C(1) by simp
  then have "(a, ?y, True) \<in> blocks E ?v" unfolding held_def by blast
  moreover have "n \<le> ?y" "?y < n + 32" using f(2) by simp_all
  ultimately show ?thesis
    using run t(4) C keep
    by - (rule exI [of _ a], rule exI [of _ ?y], rule exI [of _ ?v],
      rule exI [of _ "s\<lparr>mem := m, globalEnd := g\<rparr>"], simp)
qed

lemma malloc_heap:
  assumes h: "heap_inv E v s" and st: "\<forall>j < NUM_FREE_LISTS. length (frees v j) < steps E"
    and req: "0 < unat req" "unat req < 2 ^ 31" and sv: "serves E v (block_bytes (unat req))"
  shows "\<exists>a z v' s'. sf_malloc E req s = Inr (of_nat a + 16, s') \<and> heap_inv E v' s' \<and> block_bytes (unat req) \<le> z
    \<and> z < block_bytes (unat req) + 32 \<and> (\<forall>j. length (quicks v' j) \<le> length (quicks v j))
    \<and> (a, z) \<notin> held E v \<and> held E v' = insert (a, z) (held E v) \<and> (a, z, True) \<in> blocks E v'
    \<and> (\<forall>b \<in> held E v. \<forall>w. in_payload b w \<longrightarrow> mem s' w = mem s w) \<and> mem_end s' = mem_end s"
proof (cases "\<exists>i < NUM_QUICK_LISTS. quicks v i \<noteq> [] \<and> unat (quick_size i) = block_bytes (unat req)")
  case True
  then obtain i where i: "i < NUM_QUICK_LISTS" "quicks v i \<noteq> []" "unat (quick_size i) = block_bytes (unat req)" by blast
  then obtain x xs where q: "quicks v i = x # xs" by (cases "quicks v i") auto
  note B = block_size_bytes [OF req(2)]
  have bs: "block_size req = Inr (quick_size i)" using B(1) i(3) [symmetric] by simp
  have r0: "req \<noteq> 0" using req(1) by auto
  have s0: "0 < steps E" using st [rule_format, of 0] by (simp add: NUM_FREE_LISTS_def)
  from malloc_from_quick [OF h i(1) q r0 B(2) bs s0] obtain qs where
    r: "sf_malloc E req s = Inr (x + 16, s\<lparr>quick := qs\<rparr>)"
      "heap_inv E (v\<lparr>quicks := (quicks v)(i := xs)\<rparr>) (s\<lparr>quick := qs\<rparr>)" by blast
  note P = held_pop [OF h i(1) q]
  show ?thesis
    by (rule exI [of _ "unat x"], rule exI [of _ "unat (quick_size i)"],
        rule exI [of _ "v\<lparr>quicks := (quicks v)(i := xs)\<rparr>"], rule exI [of _ "s\<lparr>quick := qs\<rparr>"])
      (use r P i(3) q in simp)
next
  case False
  then show ?thesis
    using sv by (intro malloc_from_free [OF h st req refl]) (auto simp: serves_def)
qed

subsection \<open>The first page\<close>

lemma head_valid:
  assumes g: "geometry E t" and i: "i < NUM_FREE_LISTS"
  shows "valid_addr E s (nx (head_of E i))" "valid_addr E s (pv (head_of E i))" "head_of E i mod 16 = 0"
proof -
  note u = head_addr [OF g i]
  have h: "unat (heads E) + 320 < 2 ^ 64" "unat (heads E) mod 16 = 0" using g by (simp_all add: geometry_def)
  have i9: "i \<le> 9" using i by (simp add: NUM_FREE_LISTS_def)
  then have l: "unat (head_of E i) + 24 < 2 ^ 64" using u h(1) by linarith
  note L = link_addr [OF l, unfolded u]
  have e: "unat (heads E + 320) = unat (heads E) + 320"
    using unat_plus [of "unat (heads E)" "num.Bit0 (num.Bit0 (num.Bit0 (num.Bit0 (num.Bit0 (num.Bit0 (num.Bit1 (num.Bit0 num.One)))))))"] h(1)
    by simp
  have m: "(unat (heads E) + 32 * i) mod 16 = 0" using h(2) by presburger
  then show "head_of E i mod 16 = 0" unfolding mod16_unat u .
  have m8: "(unat (heads E) + 32 * i + 16) mod 8 = 0" "(unat (heads E) + 32 * i + 24) mod 8 = 0"
    using m by presburger+
  show "valid_addr E s (nx (head_of E i))" "valid_addr E s (pv (head_of E i))"
    unfolding valid_addr_def mod8_unat word_le_nat_alt word_less_nat_alt e L
    using m8 i9 by simp_all
qed

lemma init_heads_run:
  assumes g: "geometry E t" and "\<forall>i \<in> set is. i < NUM_FREE_LISTS"
  shows "\<exists>m. init_heads E is s = Inr ((), s\<lparr>mem := m\<rparr>) \<and> (\<forall>j < NUM_FREE_LISTS.
    j \<in> set is \<or> mem s (nx (head_of E j)) = head_of E j \<longrightarrow> m (nx (head_of E j)) = head_of E j)"
  using assms(2)
proof (induction "is" arbitrary: s)
  case Nil
  show ?case by (rule exI [of _ "mem s"]) simp
next
  case (Cons i "is")
  then have i: "i < NUM_FREE_LISTS" by simp
  let ?h = "head_of E i"
  let ?m = "(mem s)(pv ?h := ?h, nx ?h := ?h)"
  note V = head_valid [OF g i]
  have e1: "set_prev E ?h ?h s = Inr ((), s\<lparr>mem := (mem s)(pv ?h := ?h)\<rparr>)"
    using wr_ok [OF V(2)] by (simp add: sf_fields pv_def)
  have e2: "set_next E ?h ?h (s\<lparr>mem := (mem s)(pv ?h := ?h)\<rparr>) = Inr ((), s\<lparr>mem := ?m\<rparr>)"
    unfolding sf_fields nx_def by (rule mem_at(2)) (use V(1) in \<open>simp only: nx_def\<close>)
  have run: "init_heads E (i # is) s = init_heads E is (s\<lparr>mem := ?m\<rparr>)"
    by (simp only: init_heads.simps sq_Inr [where m = "set_prev E ?h ?h", OF e1]
        sq_Inr [where m = "set_next E ?h ?h", OF e2])
  from Cons.IH [of "s\<lparr>mem := ?m\<rparr>"] Cons.prems obtain m where
    m: "init_heads E is (s\<lparr>mem := ?m\<rparr>) = Inr ((), s\<lparr>mem := ?m\<rparr>\<lparr>mem := m\<rparr>)"
      "\<forall>j < NUM_FREE_LISTS. j \<in> set is \<or> mem (s\<lparr>mem := ?m\<rparr>) (nx (head_of E j)) = head_of E j
        \<longrightarrow> m (nx (head_of E j)) = head_of E j" by auto
  have "m (nx (head_of E j)) = head_of E j"
    if j: "j < NUM_FREE_LISTS" "j \<in> set (i # is) \<or> mem s (nx (head_of E j)) = head_of E j" for j
  proof (rule m(2) [rule_format, OF j(1)])
    have ne: "nx (head_of E j) \<noteq> pv ?h" using nx_pv [OF head_valid(3) [OF g j(1)] V(3)] by blast
    show "j \<in> set is \<or> mem (s\<lparr>mem := ?m\<rparr>) (nx (head_of E j)) = head_of E j"
    proof (cases "nx (head_of E j) = nx ?h")
      case True
      then show ?thesis by simp
    next
      case False
      then have "j \<noteq> i" by auto
      then show ?thesis using j(2) ne False by auto
    qed
  qed
  then show ?case unfolding run using m(1) by (auto simp only: mem_mem)
qed

text \<open>The layout the code relies on, and what \<open>sf_mem_grow\<close> does when it is called on the empty heap.\<close>

definition page_layout :: "sf_env \<Rightarrow> bool" where
  "page_layout E \<longleftrightarrow> unat (mem_start E) mod 16 = 0 \<and> unat (heads E) mod 16 = 0 \<and> 0 < unat (mem_start E)
     \<and> unat (mem_start E) + 4096 < 2 ^ 64 \<and> unat (heads E) + 320 < 2 ^ 64
     \<and> (unat (heads E) + 320 \<le> unat (mem_start E) \<or> unat (mem_start E) + 4096 \<le> unat (heads E))"

definition first_view :: "sf_env \<Rightarrow> heap_view" where
  "first_view E = \<lparr>tiles = [(4080, False)], frees = (\<lambda>_. [])(7 := [mem_start E]), quicks = (\<lambda>_. [])\<rparr>"

lemma first_blocks: "blocks E (first_view E) = {(unat (mem_start E), 4080, False)}"
  by (simp add: blocks_def first_view_def)

lemma init_page:
  assumes L: "page_layout E" and e: "mem_end s = mem_start E"
    and grow: "\<And>t. mem_end t = mem_start E \<Longrightarrow> mem_grow E t = (mem_start E, t\<lparr>mem_end := mem_start E + 4096\<rparr>)"
  shows "\<exists>s'. sf_init_first_page E s = Inr ((), s') \<and> heap_inv E (first_view E) s' \<and> mem_end s' = mem_start E + 4096"
proof -
  let ?p = "mem_start E"
  have L1: "unat ?p mod 16 = 0" "0 < unat ?p" "unat ?p + 4096 < 2 ^ 64" using L by (simp_all add: page_layout_def)
  have ue: "unat (?p + 4096) = unat ?p + 4096"
    using unat_plus [of "unat ?p" "num.Bit0 (num.Bit0 (num.Bit0 (num.Bit0 (num.Bit0 (num.Bit0 (num.Bit0 (num.Bit0 (num.Bit0 (num.Bit0 (num.Bit0 (num.Bit0 num.One)))))))))))"] L1(3)
    by simp
  have g: "geometry E t" if "mem_end t = ?p + 4096" for t
    using L ue that by (auto simp: geometry_def page_layout_def)
  let ?Q = "replicate NUM_QUICK_LISTS \<lparr>ql_length = 0, ql_first = 0\<rparr>" and ?h = "head_of E 7"
  let ?u = "s\<lparr>quick := ?Q, mem_end := ?p + 4096\<rparr>"
  let ?w = "?u\<lparr>globalEnd := ?p\<rparr>"
  have gu: "geometry E ?u" "geometry E (?w\<lparr>mem := m\<rparr>)" for m by (rule g; simp)+
  have "\<forall>i \<in> set [0..<NUM_FREE_LISTS]. i < NUM_FREE_LISTS" by simp
  from init_heads_run [OF gu(1) this, of "s\<lparr>quick := ?Q\<rparr>"] obtain m0 where
    m0: "init_heads E [0..<NUM_FREE_LISTS] (s\<lparr>quick := ?Q\<rparr>) = Inr ((), s\<lparr>quick := ?Q, mem := m0\<rparr>)"
      "\<And>j. j < NUM_FREE_LISTS \<Longrightarrow> m0 (nx (head_of E j)) = head_of E j" by auto
  have lists: "sf_init_lists E s = Inr ((), s\<lparr>quick := ?Q, mem := m0\<rparr>)"
    using m0(1) by (simp add: sf_init_lists_def)
  have grown: "sf_mem_grow E (s\<lparr>quick := ?Q, mem := m0\<rparr>) = Inr (?p, ?u\<lparr>mem := m0\<rparr>)"
    using e by (simp add: sf_mem_grow_def grow)
  have i7: "7 < NUM_FREE_LISTS" by (simp add: NUM_FREE_LISTS_def)
  have lp: "unat ?p + 24 < 2 ^ 64" using L1(3) by simp
  note Lp = link_addr [OF lp]
  have up: "unat (?p + 8) = unat ?p + 8" "unat (?p + 4080) = unat ?p + 4080"
    using unat_word [of ?p "num.Bit0 (num.Bit0 (num.Bit0 num.One))"]
      unat_word [of ?p "num.Bit0 (num.Bit0 (num.Bit0 (num.Bit0 (num.Bit1 (num.Bit1 (num.Bit1 (num.Bit1 (num.Bit1 (num.Bit1 (num.Bit1 num.One))))))))))"]
      L1(3) by simp_all
  have inp: "valid_addr E t x" if "mem_end t = ?p + 4096" "unat x mod 8 = 0" "unat ?p \<le> unat x" "unat x < unat ?p + 4096" for t x
    using that ue by (intro valid_heap [OF g]) auto
  have m8: "unat ?p mod 8 = 0" "(unat ?p + 8) mod 8 = 0" "(unat ?p + 4080) mod 8 = 0" "(unat ?p + 16) mod 8 = 0"
    "(unat ?p + 24) mod 8 = 0" using L1(1) by presburger+
  have V: "valid_addr E t (?p + 8)" "valid_addr E t ?p" "valid_addr E t (?p + 4080)" "valid_addr E t (nx ?p)"
    "valid_addr E t (pv ?p)" if "mem_end t = ?p + 4096" for t
    by (rule inp [OF that]; use m8 in \<open>simp add: up Lp\<close>)+
  let ?hd = "unmagic E 4080"
  let ?m1 = "m0(?p + 8 := ?hd, ?p := 0, ?p + 4080 := ?hd)"
  let ?m2 = "?m1(nx ?h := ?p)"
  let ?m = "?m2(pv ?p := ?h, nx ?p := ?h)"
  have mu: "mem_end ?u = ?p + 4096" "mem_end ?w = ?p + 4096" by simp_all
  have e1: "set_header E ?p ?hd (?u\<lparr>mem := m0\<rparr>) = Inr ((), ?u\<lparr>mem := m0(?p + 8 := ?hd)\<rparr>)"
    unfolding sf_fields by (rule mem_at(2) [OF V(1) [OF mu(1)]])
  have e2: "set_footer E ?p 0 (?u\<lparr>mem := m0(?p + 8 := ?hd)\<rparr>) = Inr ((), ?u\<lparr>mem := m0(?p + 8 := ?hd, ?p := 0)\<rparr>)"
    unfolding sf_fields by (rule mem_at(2) [OF V(2) [OF mu(1)]])
  have e3: "set_footer E (?p + 4080) ?hd (?u\<lparr>mem := m0(?p + 8 := ?hd, ?p := 0)\<rparr>) = Inr ((), ?u\<lparr>mem := ?m1\<rparr>)"
    unfolding sf_fields by (rule mem_at(2) [OF V(3) [OF mu(1)]])
  have e4: "set_next E ?h ?p (?w\<lparr>mem := ?m1\<rparr>) = Inr ((), ?w\<lparr>mem := ?m2\<rparr>)"
    unfolding sf_fields nx_def by (rule mem_at(2) [OF head_valid(1) [OF gu(1) i7, unfolded nx_def]])
  have e5: "set_prev E ?p ?h (?w\<lparr>mem := ?m2\<rparr>) = Inr ((), ?w\<lparr>mem := ?m2(pv ?p := ?h)\<rparr>)"
    unfolding sf_fields pv_def by (rule mem_at(2) [OF V(5) [OF mu(2), unfolded pv_def]])
  have e6: "set_next E ?p ?h (?w\<lparr>mem := ?m2(pv ?p := ?h)\<rparr>) = Inr ((), ?w\<lparr>mem := ?m\<rparr>)"
    unfolding sf_fields nx_def by (rule mem_at(2) [OF V(4) [OF mu(2), unfolded nx_def]])
  have e7: "modify (\<lambda>s. s\<lparr>globalEnd := ?p\<rparr>) (?u\<lparr>mem := ?m1\<rparr>) = Inr ((), ?w\<lparr>mem := ?m1\<rparr>)" by simp
  have run: "sf_init_first_page E s = Inr ((), ?w\<lparr>mem := ?m\<rparr>)"
    by (simp only: sf_init_first_page_def Let_def sq_Inr [where m = "sf_init_lists E", OF lists]
        bnd_Inr [where m = "sf_mem_grow E", OF grown] sq_Inr [where m = "set_header E ?p ?hd", OF e1]
        sq_Inr [where m = "set_footer E ?p 0", OF e2] sq_Inr [where m = "set_footer E (?p + 4080) ?hd", OF e3]
        sq_Inr [where m = "modify (\<lambda>s. s\<lparr>globalEnd := ?p\<rparr>)", OF e7]
        sq_Inr [where m = "set_next E ?h ?p", OF e4] sq_Inr [where m = "set_prev E ?p ?h", OF e5] e6)
  let ?s = "?w\<lparr>mem := ?m\<rparr>"
  note gs = gu(2) [of ?m]
  have me: "unat (mem_end ?s) = unat ?p + 4096" using ue by simp
  have out: "unat (nx (head_of E j)) < unat ?p \<or> unat ?p + 4096 \<le> unat (nx (head_of E j))" if "j < NUM_FREE_LISTS" for j
    using head_links [OF gs head_is_head [OF that], of "nx (head_of E j)"] unfolding me by blast
  have far: "nx (head_of E j) \<noteq> x" if "j < NUM_FREE_LISTS" "unat ?p \<le> unat x" "unat x < unat ?p + 4096" for j x
    using out [OF that(1)] that(2,3) by auto
  have heads_m: "?m (nx (head_of E j)) = (if j = 7 then ?p else head_of E j)" if j: "j < NUM_FREE_LISTS" for j
  proof -
    have "nx (head_of E j) \<noteq> ?p + 8" "nx (head_of E j) \<noteq> ?p" "nx (head_of E j) \<noteq> ?p + 4080"
      "nx (head_of E j) \<noteq> pv ?p" "nx (head_of E j) \<noteq> nx ?p"
      by (rule far [OF j]; simp add: up Lp)+
    moreover have "nx (head_of E j) = nx ?h \<longleftrightarrow> j = 7" using head_inj [OF j i7] by auto
    ultimately show ?thesis using m0(2) [OF j] by simp
  qed
  have page_m: "?m (?p + 8) = ?hd" "?m (pv ?p) = ?h" "?m (nx ?p) = ?h"
  proof -
    have "unat (?p + 8) \<noteq> unat (nx ?p)" "unat (?p + 8) \<noteq> unat (pv ?p)" "unat (?p + 8) \<noteq> unat ?p"
      "unat (?p + 8) \<noteq> unat (?p + 4080)" "unat (pv ?p) \<noteq> unat (nx ?p)" unfolding up Lp by simp_all
    then have "?p + 8 \<noteq> nx ?p" "?p + 8 \<noteq> pv ?p" "?p + 8 \<noteq> ?p" "?p + 8 \<noteq> ?p + 4080" "pv ?p \<noteq> nx ?p" by metis+
    moreover have "?p + 8 \<noteq> nx ?h" using far [OF i7, of "?p + 8"] up(1) by simp
    ultimately show "?m (?p + 8) = ?hd" "?m (pv ?p) = ?h" "?m (nx ?p) = ?h"
      by (simp_all only: fun_upd_apply if_True if_False simp_thms)
  qed
  have bp: "blk E ?s ?p"
    using V(4,5) [of ?s] L1(1) by (simp add: blk_def mod16_unat)
  have hp: "\<not> is_head E ?p"
  proof
    assume "is_head E ?p"
    from head_links [OF gs this, of "nx ?p"] show False unfolding me Lp by simp
  qed
  have fl: "free_lists E ?s (frees (first_view E))"
  proof (rule free_listsI)
    fix j assume j: "j < NUM_FREE_LISTS"
    show "blk E ?s (head_of E j)" using head_valid [OF gs j] by (simp add: blk_def)
    have fr: "frees (first_view E) j = (if j = 7 then [?p] else [])" by (simp add: first_view_def)
    have "seg ?m (head_of E j) (if j = 7 then [?p] else []) (head_of E j)"
    proof (cases "j = 7")
      case True
      show ?thesis using heads_m [OF i7] page_m(2,3) by (simp only: True if_True seg.simps simp_thms)
    next
      case False
      then show ?thesis using heads_m [OF j] by (simp only: if_False seg.simps)
    qed
    then have "seg ?m (head_of E j) (frees (first_view E) j) (head_of E j)" by (simp only: fr)
    then show "seg (mem ?s) (head_of E j) (frees (first_view E) j) (head_of E j)" by (simp only: mem_mem)
    show "distinct (frees (first_view E) j)" by (simp add: first_view_def)
    fix x assume x: "x \<in> set (frees (first_view E) j)"
    then have xp: "x = ?p" "j = 7" by (auto simp: first_view_def split: if_splits)
    show "blk E ?s x" "\<not> is_head E x" unfolding xp by (rule bp, rule hp)
    show "x \<notin> set (frees (first_view E) k)" if "k \<noteq> j" for k using that xp by (simp add: first_view_def)
  qed
  have inv: "heap_inv E (first_view E) ?s"
    unfolding heap_inv_def
  proof (intro conjI ballI allI)
    show "geometry E ?s" by (rule gs)
    show "unat (mem_start E) + total (tiles (first_view E)) + 16 = unat (mem_end ?s)"
      unfolding me by (simp add: first_view_def)
    show "cell_ok E (mem ?s) c" if "c \<in> blocks E (first_view E)" for c
    proof -
      have "unmagic E (?m (?p + 8)) = 4080" unfolding page_m(1) by simp
      then show ?thesis using that unfolding first_blocks mem_mem
        by (simp add: cell_ok_def header_ok_def del: fun_upd_apply)
    qed
    show "free_lists E ?s (frees (first_view E))" by (rule fl)
    show "(\<exists>i < NUM_FREE_LISTS. x \<in> set (frees (first_view E) i)) \<longleftrightarrow> (\<exists>z. (unat x, z, False) \<in> blocks E (first_view E))" for x
      unfolding first_blocks using i7 by (auto simp: first_view_def addr_eq split: if_splits)
    show "quick_inv E (first_view E) ?s"
      by (rule quick_invI) (simp_all add: first_view_def)
    have "tiles (first_view E) = [] @ [(4080, False)] \<and> unat (globalEnd ?s) = unat (mem_start E) + total []"
      by (simp add: first_view_def)
    then show "\<exists>bs z al. tiles (first_view E) = bs @ [(z, al)] \<and> unat (globalEnd ?s) = unat (mem_start E) + total bs"
      by blast
  qed
  show ?thesis using run inv by (intro exI [of _ ?s]) simp
qed

subsection \<open>Sequences of calls\<close>

text \<open>
  The client holds pointers with the number of bytes it asked for, and writes words inside them. A call
  of \<open>sf_malloc\<close> is in the sequence when one of the two searches finds a block, a call of \<open>sf_free\<close> when
  the block has a quick size and its list is not full. \<open>c\<close> is what the client last wrote.
\<close>

definition in_request :: "addr \<times> nat \<Rightarrow> addr \<Rightarrow> bool" where
  "in_request b w \<longleftrightarrow> unat (fst b) \<le> unat w \<and> unat w + 8 \<le> unat (fst b) + snd b"

definition served :: "sf_env \<Rightarrow> 64 word \<Rightarrow> sfmm \<Rightarrow> bool" where
  "served E req s = (case block_size req of Inl _ \<Rightarrow> False
     | Inr bs \<Rightarrow> (case quick_search E [0..<NUM_QUICK_LISTS] bs s of Inl _ \<Rightarrow> False
        | Inr (q, s1) \<Rightarrow> q \<noteq> None \<or> (case fit_lists E [0..<NUM_FREE_LISTS] bs s1 of Inl _ \<Rightarrow> False
            | Inr (f, _) \<Rightarrow> f \<noteq> None)))"

definition quick_room :: "sf_env \<Rightarrow> addr \<Rightarrow> sfmm \<Rightarrow> bool" where
  "quick_room E p s = (let z = unat (strip_flags (unmagic E (mem s (p - 8)))) in
     z \<le> 176 \<and> ql_length (quick s ! ((z - 32) div 16)) < 5)"

inductive heap_run :: "sf_env \<Rightarrow> sfmm \<Rightarrow> (addr \<times> nat) set \<Rightarrow> (addr \<Rightarrow> 64 word option) \<Rightarrow> bool" for E where
  start: "mem_end s = mem_start E \<Longrightarrow> sf_init_first_page E s = Inr ((), s') \<Longrightarrow> heap_run E s' {} (\<lambda>_. None)"
| alloc: "heap_run E s L c \<Longrightarrow> 0 < unat req \<Longrightarrow> unat req < 2 ^ 31 \<Longrightarrow> served E req s \<Longrightarrow>
    sf_malloc E req s = Inr (p, s') \<Longrightarrow>
    heap_run E s' (insert (p, unat req) L) (\<lambda>w. if in_request (p, unat req) w then None else c w)"
| release: "heap_run E s L c \<Longrightarrow> (p, r) \<in> L \<Longrightarrow> quick_room E p s \<Longrightarrow> sf_free E p s = Inr ((), s') \<Longrightarrow>
    heap_run E s' (L - {(p, r)}) (\<lambda>w. if in_request (p, r) w then None else c w)"
| store: "heap_run E s L c \<Longrightarrow> (p, r) \<in> L \<Longrightarrow> in_request (p, r) w \<Longrightarrow>
    heap_run E (s\<lparr>mem := (mem s)(w := x)\<rparr>) L (c(w \<mapsto> x))"

definition run_inv :: "sf_env \<Rightarrow> heap_view \<Rightarrow> sfmm \<Rightarrow> (addr \<times> nat) set \<Rightarrow> (addr \<Rightarrow> 64 word option) \<Rightarrow> bool" where
  "run_inv E v s L c \<longleftrightarrow> heap_inv E v s \<and> unat (mem_end s) = unat (mem_start E) + 4096
     \<and> (\<forall>(p, r) \<in> L. \<exists>a z. (a, z) \<in> held E v \<and> unat p = a + 16 \<and> r + 8 \<le> z)
     \<and> (\<forall>p r r'. (p, r) \<in> L \<longrightarrow> (p, r') \<in> L \<longrightarrow> r = r')
     \<and> (\<forall>w x. c w = Some x \<longrightarrow> mem s w = x \<and> (\<exists>b \<in> L. in_request b w))"

lemma run_invD:
  assumes "run_inv E v s L c"
  shows "heap_inv E v s" "unat (mem_end s) = unat (mem_start E) + 4096"
    "(p, r) \<in> L \<Longrightarrow> \<exists>a z. (a, z) \<in> held E v \<and> unat p = a + 16 \<and> r + 8 \<le> z"
    "(p, r) \<in> L \<Longrightarrow> (p, r') \<in> L \<Longrightarrow> r = r'"
    "c w = Some x \<Longrightarrow> mem s w = x \<and> (\<exists>b \<in> L. in_request b w)"
  using assms unfolding run_inv_def by (blast, blast, fastforce, blast, blast)

lemma request_payload: "unat p = a + 16 \<Longrightarrow> r + 8 \<le> z \<Longrightarrow> in_request (p, r) w \<Longrightarrow> in_payload (a, z) w"
  by (auto simp: in_request_def in_payload_def)

lemma held_same:
  assumes h: "heap_inv E v s" and "(a, z) \<in> held E v" "(a, z') \<in> held E v"
  shows "z = z'"
proof -
  have b: "(a, z, True) \<in> blocks E v" "(a, z', True) \<in> blocks E v" using assms by (simp_all add: held_def)
  show ?thesis using blocks_apart [OF h b] block_range(4) [OF h b(1)] block_range(4) [OF h b(2)] by auto
qed

lemma held_disjoint:
  assumes h: "heap_inv E v s" and b: "(a, z) \<in> held E v" "(a', z') \<in> held E v" and ne: "a \<noteq> a'"
  shows "a + z \<le> a' \<or> a' + z' \<le> a" "in_payload (a, z) w \<Longrightarrow> \<not> in_payload (a', z') w"
proof -
  have bl: "(a, z, True) \<in> blocks E v" "(a', z', True) \<in> blocks E v" using b by (simp_all add: held_def)
  show "a + z \<le> a' \<or> a' + z' \<le> a" using blocks_apart [OF h bl] ne by auto
  then show "in_payload (a, z) w \<Longrightarrow> \<not> in_payload (a', z') w" by (auto simp: in_payload_def)
qed

text \<open>A page holds at most 127 blocks, so 128 steps suffice for every walk.\<close>

lemma free_count:
  assumes h: "heap_inv E v s" and me: "unat (mem_end s) = unat (mem_start E) + 4096" and j: "j < NUM_FREE_LISTS"
  shows "length (frees v j) < 128"
proof -
  note H = heap_invD [OF h]
  have t: "total (tiles v) = 4080" using H(2) me by simp
  have "32 * length bs \<le> total bs" if "\<forall>(a, z, al) \<in> set (cells x bs). 32 \<le> z" for x bs
    using that by (induction x bs rule: cells.induct) auto
  then have "32 * length (tiles v) \<le> total (tiles v)"
    using H(5) unfolding blocks_def by (metis (no_types, lifting) case_prodI2)
  then have len: "length (tiles v) < 128" using t by simp
  have lc: "length (cells x bs) = length bs" for x bs by (induction x bs rule: cells.induct) auto
  have "unat ` set (frees v j) \<subseteq> fst ` blocks E v"
  proof (rule image_subsetI)
    fix x assume "x \<in> set (frees v j)"
    then obtain z where "(unat x, z, False) \<in> blocks E v" using H(6) [of x] j by blast
    then show "unat x \<in> fst ` blocks E v" by force
  qed
  moreover have "finite (fst ` blocks E v)" by (simp add: blocks_def)
  ultimately have "card (unat ` set (frees v j)) \<le> card (fst ` blocks E v)" by (intro card_mono)
  also have "\<dots> \<le> length (tiles v)"
    unfolding blocks_def by (metis (no_types) card_image_le card_length finite_set lc le_trans)
  finally have "card (unat ` set (frees v j)) < 128" using len by simp
  moreover have "card (unat ` set (frees v j)) = card (set (frees v j))"
    by (rule card_image) (auto simp: inj_on_def addr_eq)
  moreover have "card (set (frees v j)) = length (frees v j)"
    using free_listsD(3) [OF H(3) j] by (rule distinct_card)
  ultimately show ?thesis by simp
qed

lemma served_serves:
  assumes h: "heap_inv E v s" and st: "\<forall>j < NUM_FREE_LISTS. length (frees v j) < steps E"
    and req: "unat req < 2 ^ 31" and sv: "served E req s"
  shows "serves E v (block_bytes (unat req))"
proof (rule ccontr)
  let ?n = "block_bytes (unat req)"
  assume no: "\<not> serves E v ?n"
  note B = block_size_bytes [OF req]
  have n64: "?n < 2 ^ 64" using B(3) by simp
  have "\<forall>i < NUM_QUICK_LISTS. quicks v i \<noteq> [] \<longrightarrow> quick_size i \<noteq> of_nat ?n"
    using no unat_nat [OF n64] by (auto simp: serves_def)
  note qs = quick_search_none [OF h this]
  have "\<nexists>a z. (a, z, False) \<in> blocks E v \<and> ?n \<le> z" using no by (force simp: serves_def)
  with fit_lists_heap [OF h st n64]
  have "fit_lists E [0..<NUM_FREE_LISTS] (of_nat ?n) s = Inr (None, s)" by blast
  then show False using sv by (simp add: served_def B(1) qs)
qed

lemma run_alloc:
  assumes I: "run_inv E v s L c" and st: "128 \<le> steps E" and req: "0 < unat req" "unat req < 2 ^ 31"
    and sv: "served E req s"
  shows "\<exists>p v' s'. sf_malloc E req s = Inr (p, s') \<and> p \<noteq> 0
    \<and> run_inv E v' s' (insert (p, unat req) L) (\<lambda>w. if in_request (p, unat req) w then None else c w)"
proof -
  note D = run_invD [OF I]
  have len: "\<forall>j < NUM_FREE_LISTS. length (frees v j) < steps E"
    using free_count [OF D(1,2)] st by fastforce
  from malloc_heap [OF D(1) len req served_serves [OF D(1) len req(2) sv]] obtain a z v' s' where
    r: "sf_malloc E req s = Inr (of_nat a + 16, s')" "heap_inv E v' s'" "block_bytes (unat req) \<le> z"
      "z < block_bytes (unat req) + 32" "\<forall>j. length (quicks v' j) \<le> length (quicks v j)"
      "(a, z) \<notin> held E v" "held E v' = insert (a, z) (held E v)" "(a, z, True) \<in> blocks E v'"
      "\<forall>b \<in> held E v. \<forall>w. in_payload b w \<longrightarrow> mem s' w = mem s w" "mem_end s' = mem_end s"
    by (elim exE conjE) (rule that)
  let ?p = "of_nat a + 16 :: addr" and ?c = "\<lambda>w. if in_request (of_nat a + 16, unat req) w then None else c w"
  note R = block_range [OF r(2,8)]
  have up: "unat ?p = a + 16"
    using unat_plus [of a "num.Bit0 (num.Bit0 (num.Bit0 (num.Bit0 num.One)))"] R(4,6) by simp
  have hz: "(a, z) \<in> held E v'" unfolding r(7) by simp
  have fresh: "a' \<noteq> a" if "(a', z') \<in> held E v" for a' z'
    using held_same [OF r(2) hz, of z'] that r(6,7) by blast
  have new: "q \<noteq> ?p" if q: "(q, t) \<in> L" for q t
  proof -
    obtain a' z' where "(a', z') \<in> held E v" "unat q = a' + 16" using D(3) [OF q] by blast
    then have "unat q \<noteq> unat ?p" using fresh [of a' z'] unfolding up by simp
    then show ?thesis by blast
  qed
  have "run_inv E v' s' (insert (?p, unat req) L) ?c"
    unfolding run_inv_def
  proof (intro conjI allI impI)
    show "heap_inv E v' s'" by (rule r(2))
    show "unat (mem_end s') = unat (mem_start E) + 4096" using D(2) r(10) by simp
    have "unat req + 8 \<le> z" using block_bytes_mod(3) [of "unat req"] r(3) by simp
    then have "\<exists>a z. (a, z) \<in> held E v' \<and> unat ?p = a + 16 \<and> unat req + 8 \<le> z" using hz up by blast
    moreover have "\<exists>a z. (a, z) \<in> held E v' \<and> unat q = a + 16 \<and> t + 8 \<le> z" if "(q, t) \<in> L" for q t
      using D(3) [OF that] unfolding r(7) by blast
    ultimately show "\<forall>(q, t) \<in> insert (?p, unat req) L. \<exists>a z. (a, z) \<in> held E v' \<and> unat q = a + 16 \<and> t + 8 \<le> z"
      by blast
    fix q t t' assume "(q, t) \<in> insert (?p, unat req) L" "(q, t') \<in> insert (?p, unat req) L"
    then show "t = t'" using new D(4) by blast
  next
    fix w x assume "?c w = Some x"
    then have cw: "c w = Some x" by (simp split: if_splits)
    obtain q t where b: "(q, t) \<in> L" "in_request (q, t) w" using D(5) [OF cw] by auto
    obtain a' z' where a': "(a', z') \<in> held E v" "unat q = a' + 16" "t + 8 \<le> z'" using D(3) [OF b(1)] by blast
    have "in_payload (a', z') w" using request_payload [OF a'(2,3) b(2)] .
    then have "mem s' w = mem s w" using r(9) a'(1) by blast
    then show "mem s' w = x" using D(5) [OF cw] by simp
    show "\<exists>b \<in> insert (?p, unat req) L. in_request b w" using b by blast
  qed
  moreover have "?p \<noteq> 0" using up by (auto simp: addr_eq)
  ultimately show ?thesis using r(1) by blast
qed

lemma held_header:
  assumes h: "heap_inv E v s" and b: "(a, z) \<in> held E v"
  shows "strip_flags (unmagic E (mem s (of_nat a + 8))) = of_nat z" "unat (of_nat z :: 64 word) = z"
    "unat (of_nat a :: addr) = a"
proof -
  have bl: "(a, z, True) \<in> blocks E v" using b by (simp add: held_def)
  note R = block_range [OF h bl]
  have "szok (of_nat z)" using R(5,6) by (intro szok16) linarith+
  then show "strip_flags (unmagic E (mem s (of_nat a + 8))) = of_nat z"
    using heap_invD(5) [OF h bl] strip_ok(2,3) by (auto simp: header_ok_def)
  show "unat (of_nat z :: 64 word) = z" "unat (of_nat a :: addr) = a" using R(6) by (intro unat_nat; linarith)+
qed

lemma free_heap:
  assumes h: "heap_inv E v s" and b: "(a, z) \<in> held E v" and z: "z \<le> 176"
    and room: "length (quicks v ((z - 32) div 16)) < QUICK_LIST_MAX"
  shows "\<exists>v' s'. sf_free E (of_nat a + 16) s = Inr ((), s') \<and> heap_inv E v' s' \<and> held E v' = held E v - {(a, z)}
    \<and> (\<forall>w. \<not> in_payload (a, z) w \<longrightarrow> mem s' w = mem s w) \<and> mem_end s' = mem_end s"
proof -
  have bl: "(a, z, True) \<in> blocks E v" using b by (simp add: held_def)
  note R = block_range [OF h bl]
  let ?i = "(z - 32) div 16"
  obtain k where k: "z = 16 * k" using R(5) by auto
  have zi: "z = 32 + 16 * ?i" and i: "?i < NUM_QUICK_LISTS"
    using R(4) z k by (simp_all add: NUM_QUICK_LISTS_def)
  have q: "unat (quick_size ?i) = z" using quick_size_le [OF i] zi by simp
  from free_to_quick [OF h _ i room, of a] b q obtain m qs where
    r: "sf_free E (of_nat a + 16) s = Inr ((), s\<lparr>mem := m, quick := qs\<rparr>)"
      "heap_inv E (v\<lparr>quicks := (quicks v)(?i := of_nat a # quicks v ?i)\<rparr>) (s\<lparr>mem := m, quick := qs\<rparr>)"
      "\<forall>w. \<not> in_payload (a, z) w \<longrightarrow> m w = mem s w" by auto
  show ?thesis
    by (rule exI [of _ "v\<lparr>quicks := (quicks v)(?i := of_nat a # quicks v ?i)\<rparr>"],
        rule exI [of _ "s\<lparr>mem := m, quick := qs\<rparr>"])
      (use r held_push [OF h b i] in simp)
qed

lemma run_release:
  assumes I: "run_inv E v s L c" and b: "(p, r) \<in> L" and room: "quick_room E p s"
  shows "\<exists>v' s'. sf_free E p s = Inr ((), s')
    \<and> run_inv E v' s' (L - {(p, r)}) (\<lambda>w. if in_request (p, r) w then None else c w)"
proof -
  note D = run_invD [OF I]
  obtain a z where a: "(a, z) \<in> held E v" "unat p = a + 16" "r + 8 \<le> z" using D(3) [OF b] by blast
  note Hd = held_header [OF D(1) a(1)]
  have bl: "(a, z, True) \<in> blocks E v" using a(1) by (simp add: held_def)
  note R = block_range [OF D(1) bl]
  have "unat (of_nat a + 16 :: addr) = a + 16"
    using unat_plus [of a "num.Bit0 (num.Bit0 (num.Bit0 (num.Bit0 num.One)))"] R(4,6) by simp
  then have p: "p = of_nat a + 16" using a(2) by (simp only: addr_eq)
  then have p8: "p - 8 = of_nat a + 8" by simp
  have q: "z \<le> 176" "ql_length (quick s ! ((z - 32) div 16)) < 5"
    using room unfolding quick_room_def Let_def p8 Hd(1,2) by simp_all
  have i: "(z - 32) div 16 < NUM_QUICK_LISTS" using q(1) by (simp add: NUM_QUICK_LISTS_def)
  have "length (quicks v ((z - 32) div 16)) < QUICK_LIST_MAX"
    using q(2) quick_invD(1) [OF heap_invD(4) [OF D(1)] i] by (simp add: QUICK_LIST_MAX_def)
  from free_heap [OF D(1) a(1) q(1) this] obtain v' s' where
    f: "sf_free E p s = Inr ((), s')" "heap_inv E v' s'" "held E v' = held E v - {(a, z)}"
      "\<forall>w. \<not> in_payload (a, z) w \<longrightarrow> mem s' w = mem s w" "mem_end s' = mem_end s"
    unfolding p by blast
  let ?c = "\<lambda>w. if in_request (p, r) w then None else c w"
  have other: "\<exists>a' z'. (a', z') \<in> held E v' \<and> unat q = a' + 16 \<and> t + 8 \<le> z' \<and> a' \<noteq> a" if o: "(q, t) \<in> L - {(p, r)}" for q t
  proof -
    have qL: "(q, t) \<in> L" using o by simp
    obtain a' z' where a': "(a', z') \<in> held E v" "unat q = a' + 16" "t + 8 \<le> z'" using D(3) [OF qL] by blast
    have "q \<noteq> p" using D(4) [OF b] qL o by blast
    then have "a' \<noteq> a" using a'(2) a(2) by (auto simp: addr_eq)
    then show ?thesis using a' f(3) by blast
  qed
  have "run_inv E v' s' (L - {(p, r)}) ?c"
    unfolding run_inv_def
  proof (intro conjI allI impI)
    show "heap_inv E v' s'" by (rule f(2))
    show "unat (mem_end s') = unat (mem_start E) + 4096" using D(2) f(5) by simp
    show "\<forall>(q, t) \<in> L - {(p, r)}. \<exists>a z. (a, z) \<in> held E v' \<and> unat q = a + 16 \<and> t + 8 \<le> z"
      using other by blast
    show "t = t'" if "(q, t) \<in> L - {(p, r)}" "(q, t') \<in> L - {(p, r)}" for q t t'
      using that D(4) by blast
  next
    fix w x assume "?c w = Some x"
    then have cw: "c w = Some x" "\<not> in_request (p, r) w" by (simp_all split: if_splits)
    obtain y where y: "y \<in> L" "in_request y w" using D(5) [OF cw(1)] by blast
    obtain q t where e: "y = (q, t)" by (cases y)
    have o: "(q, t) \<in> L - {(p, r)}" using y cw(2) e by auto
    from other [OF o] obtain a' z' where
      a': "(a', z') \<in> held E v'" "unat q = a' + 16" "t + 8 \<le> z'" "a' \<noteq> a" by blast
    have "in_payload (a', z') w" using request_payload [OF a'(2,3)] y(2) e by simp
    then have "\<not> in_payload (a, z) w"
      using held_disjoint(2) [OF D(1) _ a(1) a'(4)] a'(1) f(3) by blast
    then have "mem s' w = mem s w" using f(4) by blast
    then show "mem s' w = x" using D(5) [OF cw(1)] by simp
    show "\<exists>b \<in> L - {(p, r)}. in_request b w" using o y(2) e by blast
  qed
  then show ?thesis using f(1) by blast
qed

lemma run_store:
  assumes I: "run_inv E v s L c" and b: "(p, r) \<in> L" and w: "in_request (p, r) w"
  shows "run_inv E v (s\<lparr>mem := (mem s)(w := x)\<rparr>) L (c(w \<mapsto> x))"
proof -
  note D = run_invD [OF I]
  obtain a z where a: "(a, z) \<in> held E v" "unat p = a + 16" "r + 8 \<le> z" using D(3) [OF b] by blast
  have "\<not> book E v w" by (rule held_not_book [OF D(1) a(1) request_payload [OF a(2,3) w]])
  then have h: "heap_inv E v (s\<lparr>mem := (mem s)(w := x)\<rparr>)"
    by (intro heap_inv_frame [OF D(1)]) auto
  show ?thesis
    unfolding run_inv_def
  proof (intro conjI allI impI)
    show "heap_inv E v (s\<lparr>mem := (mem s)(w := x)\<rparr>)" by (rule h)
    show "unat (mem_end (s\<lparr>mem := (mem s)(w := x)\<rparr>)) = unat (mem_start E) + 4096" using D(2) by simp
    show "\<forall>(p, r) \<in> L. \<exists>a z. (a, z) \<in> held E v \<and> unat p = a + 16 \<and> r + 8 \<le> z" using D(3) by blast
    show "t = t'" if "(q, t) \<in> L" "(q, t') \<in> L" for q t t' using that D(4) by blast
  next
    fix w' y assume "(c(w \<mapsto> x)) w' = Some y"
    then show "mem (s\<lparr>mem := (mem s)(w := x)\<rparr>) w' = y" "\<exists>b \<in> L. in_request b w'"
      using D(5) [of w' y] b w by (auto split: if_splits)
  qed
qed

subsection \<open>Requests without an answer\<close>

lemma c_int_eq: "c_int w = signed_take_bit 31 (uint w)"
  by (simp add: c_int_def sint_uint unsigned_ucast_eq signed_take_bit_take_bit)

lemma c_int_negative:
  assumes "unat (r :: 64 word) < z" and "z \<le> 2 ^ 31"
  shows "c_int (r - of_nat z) < 0"
proof -
  let ?k = "int (unat r) - int z"
  have uz: "uint (of_nat z :: 64 word) = int z"
  proof -
    have "z < 2 ^ 64" using assms(2) by simp
    then show ?thesis using unat_nat [of z] by (metis int_nat_eq uint_nat nat_int)
  qed
  have "uint (r - of_nat z) = take_bit 64 ?k"
    by (simp add: uint_word_ariths uz take_bit_eq_mod)
  then have "c_int (r - of_nat z) = signed_take_bit 31 ?k"
    by (simp add: c_int_eq signed_take_bit_take_bit)
  also have "\<dots> = ?k"
  proof (rule signed_take_bit_int_eq_self)
    have "int z \<le> int (2 ^ 31)" using assms(2) by (simp only: of_nat_le_iff)
    then have "int z \<le> 2 ^ 31" by simp
    then show "- (2 ^ 31) \<le> ?k" by linarith
    have "int (unat r) < int z" using assms(1) by (simp only: of_nat_less_iff)
    then have "?k < 0" by linarith
    also have "0 < (2 ^ 31 :: int)" by simp
    finally show "?k < 2 ^ 31" .
  qed
  also have "\<dots> < 0" using assms(1) by (simp only: diff_less_0_iff_less of_nat_less_iff)
  finally show ?thesis .
qed

text \<open>With a last free block longer than the request, \<open>sf_malloc\<close> writes the header of a page it does not get.\<close>

lemma grow_nothing:
  assumes h: "heap_inv E v s" and t: "tiles v = bs @ [(z, False)]" and r: "unat req < z" "z \<le> 2 ^ 31" and st: "0 < steps E"
  shows "\<exists>m. grow_heap E req s = Inr (True, s\<lparr>mem := m\<rparr>) \<and> heap_inv E v (s\<lparr>mem := m\<rparr>)"
proof -
  note H = heap_invD [OF h]
  let ?g = "globalEnd s" and ?e = "mem_end s"
  have ug: "unat ?g = unat (mem_start E) + total bs" using H(7) t by auto
  have b: "(unat ?g, z, False) \<in> blocks E v" using t ug by (simp add: blocks_def)
  note R = block_range [OF h b] and F = free_block [OF h b]
  have g: "of_nat (unat ?g) = ?g" by simp
  have ge: "unat ?g + z + 16 = unat ?e" using H(2) t ug by simp
  have gh: "unmagic E (mem s (?g + 8)) AND 4 = 0" "size_bits (unmagic E (mem s (?g + 8))) = of_nat z"
    using F(4) [unfolded g] szok_flags(1) [OF F(5)] szok_and(1) [OF F(5)] szok_or(1,4) [OF F(5)] by auto
  have ue: "unat (?e - 16) = unat ?g + z" "unat (?e - 8) = unat ?g + z + 8"
  proof -
    have s16: "(16 :: addr) \<le> ?e" "(8 :: addr) \<le> ?e" using ge by (simp_all add: word_le_nat_alt)
    show "unat (?e - 16) = unat ?g + z" using unat_sub [OF s16(1)] ge by simp
    show "unat (?e - 8) = unat ?g + z + 8" using unat_sub [OF s16(2)] ge by simp
  qed
  have e8: "?e - 16 + 8 = ?e - 8" by simp
  have V: "valid_addr E s (?e - 8)" "valid_addr E s (?e - 16)" "valid_addr E s (?g + 8)"
  proof -
    have "(unat ?g + z) mod 8 = 0" "(unat ?g + z + 8) mod 8 = 0" using R(3,5) by presburger+
    then show "valid_addr E s (?e - 8)" "valid_addr E s (?e - 16)"
      using ue R(1) ge by (auto intro!: valid_heap [OF H(1)])
    show "valid_addr E s (?g + 8)" using block_blk(3) [OF h b] .
  qed
  let ?m = "(mem s)(?e - 8 := unmagic E PAGE_SZ, ?e - 16 := unmagic E (of_nat z))"
  have nb: "\<not> book E v w" if w: "unat w = unat ?g + z \<or> unat w = unat ?g + z + 8" for w
  proof -
    have far: "a + y \<le> unat ?g + z" if "(a, y, al) \<in> blocks E v" for a y al
      using block_range(2) [OF h that] ge by linarith
    show ?thesis
    proof
      assume "book E v w"
      then consider (header) a y al where "(a, y, al) \<in> blocks E v" "w = of_nat a + 8"
        | (head) x where "is_head E x" "w = nx x \<or> w = pv x"
        | (free) x y where "(unat x, y, False) \<in> blocks E v" "w = nx x \<or> w = pv x"
        | (quick) j x where "j < NUM_QUICK_LISTS" "x \<in> set (quicks v j)" "w = nx x"
        unfolding book_def by blast
      then show False
      proof cases
        case header
        note R' = block_range [OF h header(1)]
        have "unat w = a + 8"
          using header(2) R'(4,6) unat_plus [of a "num.Bit0 (num.Bit0 (num.Bit0 num.One))"] by simp
        then show False using far [OF header(1)] w R'(4) by linarith
      next
        case head
        from head_links [OF H(1) head] show False using w ge R(1) by linarith
      next
        case free
        note L = link_addr [OF block_blk(4) [OF h free(1)]]
        have "unat w = unat x + 16 \<or> unat w = unat x + 24" using free(2) L by blast
        then show False using far [OF free(1)] block_range(4) [OF h free(1)] w by linarith
      next
        case quick
        have q: "(unat x, unat (quick_size j), True) \<in> blocks E v" using quick_invD(5) [OF H(4) quick(1,2)] .
        have "unat w = unat x + 16" using quick(3) link_addr [OF block_blk(4) [OF h q]] by blast
        then show False using far [OF q] block_range(4) [OF h q] w by linarith
      qed
    qed
  qed
  have nbe: "\<not> book E v (?e - 8)" "\<not> book E v (?e - 16)" by (rule nb, simp only: ue simp_thms)+
  have upd: "?m w = mem s w" if "book E v w" for w
  proof -
    have "w \<noteq> ?e - 8" "w \<noteq> ?e - 16" using that nbe by metis+
    then show ?thesis by (simp only: fun_upd_apply if_False simp_thms)
  qed
  have inv: "heap_inv E v (s\<lparr>mem := ?m\<rparr>)" by (rule heap_inv_frame [OF h upd])
  have keep: "?m (?g + 8) = mem s (?g + 8)"
  proof -
    have "book E v (?g + 8)" using bookI(1) [OF b] unfolding g .
    then show ?thesis by (rule upd)
  qed
  obtain k where k: "steps E = Suc k" using st by (cases "steps E") auto
  have neg: "\<not> c_int (req - of_nat z) \<ge> 0" using c_int_negative [OF r] by simp
  have e1: "set_header E (?e - 16) (unmagic E PAGE_SZ) s = Inr ((), s\<lparr>mem := (mem s)(?e - 8 := unmagic E PAGE_SZ)\<rparr>)"
    unfolding sf_fields e8 by (rule wr_ok [OF V(1)])
  have e2: "set_footer E (?e - 16) (unmagic E (of_nat z)) (s\<lparr>mem := (mem s)(?e - 8 := unmagic E PAGE_SZ)\<rparr>)
      = Inr ((), s\<lparr>mem := ?m\<rparr>)"
    unfolding sf_fields by (rule mem_at(2) [OF V(2)])
  have e3: "get_header E ?g s = Inr (mem s (?g + 8), s)" unfolding sf_fields by (rule rd_ok [OF V(3)])
  have e4: "get_header E ?g (s\<lparr>mem := ?m\<rparr>) = Inr (mem s (?g + 8), s\<lparr>mem := ?m\<rparr>)"
    unfolding sf_fields mem_at(1) [OF V(3)] keep ..
  have n04: "(0 :: 64 word) = 4 \<longleftrightarrow> False" by simp
  have "grow_heap E req s = Inr (True, s\<lparr>mem := ?m\<rparr>)"
    by (simp only: grow_heap_def bnd_gets bnd_Inr [where m = "get_header E ?g", OF e3] Let_def
        gh THIS_BLOCK_ALLOCATED_def n04 if_False sq_Inr [where m = "set_header E (?e - 16) (unmagic E PAGE_SZ)", OF e1]
        sq_Inr [where m = "set_footer E (?e - 16) (unmagic E (of_nat z))", OF e2]
        bnd_Inr [where m = "get_header E ?g", OF e4] k grow_loop.simps neg ret_app)
  then show ?thesis using inv by blast
qed

lemma malloc_stuck:
  assumes h: "heap_inv E v s" and len: "\<forall>j < NUM_FREE_LISTS. length (frees v j) < steps E"
    and t: "tiles v = bs @ [(z, False)]" and r: "0 < unat req" "unat req < z" "z \<le> 2 ^ 31"
    and no: "\<not> serves E v (block_bytes (unat req))"
  shows "malloc_loop n E req s = Inl OutOfFuel"
  using h
proof (induction n arbitrary: s)
  case (Suc n)
  let ?n = "block_bytes (unat req)"
  have req: "unat req < 2 ^ 31" using r(2,3) by linarith
  note B = block_size_bytes [OF req]
  have n64: "?n < 2 ^ 64" using B(3) by simp
  have r0: "req \<noteq> 0" using r(1) by auto
  have me: "mem_start E \<noteq> mem_end s" using heap_invD(1) [OF Suc.prems] by (auto simp: geometry_def)
  have st: "0 < steps E" using len [rule_format, of 0] by (simp add: NUM_FREE_LISTS_def)
  then obtain k where k: "steps E = Suc k" by (cases "steps E") auto
  have "\<forall>i < NUM_QUICK_LISTS. quicks v i \<noteq> [] \<longrightarrow> quick_size i \<noteq> of_nat ?n"
    using no unat_nat [OF n64] by (auto simp: serves_def)
  note qs = quick_search_none [OF Suc.prems this]
  have "\<nexists>a z. (a, z, False) \<in> blocks E v \<and> ?n \<le> z" using no by (force simp: serves_def)
  with fit_lists_heap [OF Suc.prems len n64]
  have f: "fit_lists E [0..<NUM_FREE_LISTS] (of_nat ?n) s = Inr (None, s)" by blast
  from grow_nothing [OF Suc.prems t r(2,3) st] obtain m where
    g: "grow_heap E req s = Inr (True, s\<lparr>mem := m\<rparr>)" "heap_inv E v (s\<lparr>mem := m\<rparr>)" by blast
  show ?case
    unfolding malloc_unfold [OF k r0 B(2,1) me qs] using Suc.IH [OF g(2)] by (simp add: bnd_def f g(1))
qed simp

subsection \<open>Properties\<close>

text \<open>
  C4. Allocation on a well-formed heap that can serve the request (a quick list has a block of exactly the
  size, or some free block is large enough): \<open>sf_malloc\<close> returns the payload of a block of at least
  the requested bytes and less than 32 bytes above the rounded size, aligned to 16, inside the heap, that
  the client did not hold and that overlaps none it holds; the heap is well formed again, the client
  holds exactly one block more, and no word of the payloads it held has changed.
\<close>

theorem heap_malloc:
  assumes h: "heap_inv E v s" and st: "\<forall>j < NUM_FREE_LISTS. length (frees v j) < steps E"
    and req: "0 < unat req" "unat req < 2 ^ 31" and sv: "serves E v (block_bytes (unat req))"
  shows "\<exists>a z v' s'. sf_malloc E req s = Inr (of_nat a + 16, s') \<and> heap_inv E v' s'
    \<and> held E v' = insert (a, z) (held E v) \<and> (a, z) \<notin> held E v
    \<and> unat req + 8 \<le> z \<and> z < block_bytes (unat req) + 32 \<and> a mod 16 = 0
    \<and> unat (mem_start E) \<le> a \<and> a + z + 16 \<le> unat (mem_end s)
    \<and> (\<forall>b \<in> held E v. \<forall>w. in_payload b w \<longrightarrow> \<not> in_payload (a, z) w \<and> mem s' w = mem s w)"
proof -
  from malloc_heap [OF h st req sv] obtain a z v' s' where
    r: "sf_malloc E req s = Inr (of_nat a + 16, s')" "heap_inv E v' s'" "block_bytes (unat req) \<le> z"
      "z < block_bytes (unat req) + 32" "(a, z) \<notin> held E v" "held E v' = insert (a, z) (held E v)"
      "(a, z, True) \<in> blocks E v'" "\<forall>b \<in> held E v. \<forall>w. in_payload b w \<longrightarrow> mem s' w = mem s w" "mem_end s' = mem_end s"
    by blast
  note R = block_range [OF r(2,7)]
  have hz: "(a, z) \<in> held E v'" unfolding r(6) by simp
  have "\<not> in_payload (a, z) w" if "b \<in> held E v" "in_payload b w" for b w
  proof -
    obtain a' z' where b: "b = (a', z')" by (cases b)
    have b': "(a', z') \<in> held E v'" using that(1) unfolding r(6) b by simp
    have "a' \<noteq> a" using held_same [OF r(2) hz] b' that(1) r(5) b by blast
    then show ?thesis using held_disjoint(2) [OF r(2) b' hz] that(2) b by blast
  qed
  moreover have "unat req + 8 \<le> z" using block_bytes_mod(3) [of "unat req"] r(3) by linarith
  ultimately show ?thesis using r R by (metis (no_types, lifting))
qed

text \<open>A page at \<open>0x10000\<close>, with the list heads at \<open>0x1000\<close>.\<close>

definition page_E :: sf_env where
  "page_E = demo_E\<lparr>mem_grow := (\<lambda>s. (0x10000, s\<lparr>mem_end := 0x11000\<rparr>)), steps := 200\<rparr>"

definition page_s :: sfmm where
  "page_s = \<lparr>mem = (\<lambda>_. 0), mem_end = 0x10000, quick = [], globalEnd = 0, sf_errno = 0\<rparr>"

lemma page_E_layout: "page_layout page_E" "mem_end page_s = mem_start page_E" "200 = steps page_E"
  "mem_grow page_E t = (mem_start page_E, t\<lparr>mem_end := mem_start page_E + 4096\<rparr>)"
  by (simp_all add: page_layout_def page_E_def demo_E_def page_s_def)

lemma page_ready:
  "\<exists>s. sf_init_first_page page_E page_s = Inr ((), s) \<and> heap_inv page_E (first_view page_E) s
    \<and> unat (mem_end s) = 0x11000"
proof -
  from init_page [OF page_E_layout(1,2,4)] obtain s where
    "sf_init_first_page page_E page_s = Inr ((), s)" "heap_inv page_E (first_view page_E) s"
    "mem_end s = mem_start page_E + 4096" by blast
  moreover have "unat (mem_start page_E + 4096) = 0x11000" by (simp add: page_E_def demo_E_def)
  ultimately show ?thesis by auto
qed

lemma page_len: "\<forall>j < NUM_FREE_LISTS. length (frees (first_view page_E) j) < steps page_E"
  by (simp add: first_view_def page_E_layout(3) [symmetric])

lemma page_serves: "n \<le> 4080 \<Longrightarrow> serves page_E (first_view page_E) n"
  by (simp add: serves_def first_blocks)

theorem heap_malloc_witness:
  "\<exists>s s' p. sf_init_first_page page_E page_s = Inr ((), s) \<and> sf_malloc page_E 24 s = Inr (p, s') \<and> p mod 16 = 0"
proof -
  obtain s where s: "sf_init_first_page page_E page_s = Inr ((), s)" "heap_inv page_E (first_view page_E) s"
    using page_ready by blast
  have r: "0 < unat (24 :: 64 word)" "unat (24 :: 64 word) < 2 ^ 31" by simp_all
  have sv: "serves page_E (first_view page_E) (block_bytes (unat (24 :: 64 word)))"
    by (rule page_serves) (simp add: block_bytes_def)
  from heap_malloc [OF s(2) page_len r sv] obtain a z s' where
    m: "sf_malloc page_E 24 s = Inr (of_nat a + 16, s')" "a mod 16 = 0" "a + z + 16 \<le> unat (mem_end s)"
    by (elim exE conjE) (rule that; assumption)
  have "unat (of_nat a + 16 :: addr) = a + 16"
    using unat_plus [of a "num.Bit0 (num.Bit0 (num.Bit0 (num.Bit0 num.One)))"] m(3) addr_lt [of "mem_end s"] by simp
  then have "(of_nat a + 16 :: addr) mod 16 = 0" using m(2) by (simp add: mod16_unat)
  with s(1) m(1) show ?thesis by - (intro exI conjI; assumption)
qed



lemma heap_run_inv:
  assumes run: "heap_run E s L c" and lay: "page_layout E" and st: "128 \<le> steps E"
    and grow: "\<And>t. mem_end t = mem_start E \<Longrightarrow> mem_grow E t = (mem_start E, t\<lparr>mem_end := mem_start E + 4096\<rparr>)"
  shows "\<exists>v. run_inv E v s L c"
  using run
proof (induction rule: heap_run.induct)
  case (start s s')
  from init_page [OF lay start(1) grow] start(2) have
    h: "heap_inv E (first_view E) s'" "mem_end s' = mem_start E + 4096" by auto
  have "unat (mem_start E) + 4096 < 2 ^ 64" using lay by (simp add: page_layout_def)
  then have "unat (mem_start E + 4096) = unat (mem_start E) + 4096"
    using unat_word [of "mem_start E" "num.Bit0 (num.Bit0 (num.Bit0 (num.Bit0 (num.Bit0 (num.Bit0 (num.Bit0 (num.Bit0 (num.Bit0 (num.Bit0 (num.Bit0 (num.Bit0 num.One)))))))))))"]
    by simp
  then have "run_inv E (first_view E) s' {} (\<lambda>_. None)" using h by (simp add: run_inv_def)
  then show ?case by blast
next
  case (alloc s L c req p s')
  then obtain v where "run_inv E v s L c" by blast
  from run_alloc [OF this st alloc(2,3,4)] alloc(5) show ?case by auto
next
  case (release s L c p r s')
  then obtain v where "run_inv E v s L c" by blast
  from run_release [OF this release(2,3)] release(4) show ?case by auto
next
  case (store s L c p r w x)
  then obtain v where "run_inv E v s L c" by blast
  from run_store [OF this store(2,3)] show ?case by blast
qed

text \<open>
  C1. Programs that use the allocator on one page: after any sequence of served calls of \<open>sf_malloc\<close>, calls of
  \<open>sf_free\<close> with a held pointer whose quick list has room, and writes of the client inside what it asked for,
  the pointers it holds are aligned to 16 and lie in the heap with all requested bytes, two of them
  never overlap, every word still has the value the client wrote last, and the next such call succeeds,
  \<open>sf_malloc\<close> with a pointer that is not NULL. 128 steps are enough for every walk.
\<close>

theorem heap_runs:
  assumes run: "heap_run E s L c" and lay: "page_layout E" and st: "128 \<le> steps E"
    and grow: "\<And>t. mem_end t = mem_start E \<Longrightarrow> mem_grow E t = (mem_start E, t\<lparr>mem_end := mem_start E + 4096\<rparr>)"
  shows "(\<forall>(p, r) \<in> L. p mod 16 = 0 \<and> mem_start E \<le> p \<and> unat p + r \<le> unat (mem_end s))
    \<and> (\<forall>(p, r) \<in> L. \<forall>(q, t) \<in> L. (p, r) \<noteq> (q, t) \<longrightarrow> unat p + r \<le> unat q \<or> unat q + t \<le> unat p)
    \<and> (\<forall>w x. c w = Some x \<longrightarrow> mem s w = x)
    \<and> (\<forall>req. 0 < unat req \<and> unat req < 2 ^ 31 \<and> served E req s \<longrightarrow> (\<exists>p s'. sf_malloc E req s = Inr (p, s') \<and> p \<noteq> 0))
    \<and> (\<forall>(p, r) \<in> L. quick_room E p s \<longrightarrow> (\<exists>s'. sf_free E p s = Inr ((), s')))"
proof -
  from heap_run_inv [OF run lay st grow] obtain v where I: "run_inv E v s L c" by blast
  note D = run_invD [OF I]
  have in_heap: "p mod 16 = 0 \<and> mem_start E \<le> p \<and> unat p + r \<le> unat (mem_end s)" if b: "(p, r) \<in> L" for p r
  proof -
    obtain a z where a: "(a, z) \<in> held E v" "unat p = a + 16" "r + 8 \<le> z" using D(3) [OF b] by blast
    have bl: "(a, z, True) \<in> blocks E v" using a(1) by (simp add: held_def)
    note R = block_range [OF D(1) bl]
    show ?thesis using a(2,3) R(1,2,3) by (simp add: mod16_unat word_le_nat_alt)
  qed
  have apart: "unat p + r \<le> unat q \<or> unat q + t \<le> unat p" if b: "(p, r) \<in> L" "(q, t) \<in> L" and ne: "(p, r) \<noteq> (q, t)" for p r q t
  proof -
    obtain a z where a: "(a, z) \<in> held E v" "unat p = a + 16" "r + 8 \<le> z" using D(3) [OF b(1)] by blast
    obtain a' z' where a': "(a', z') \<in> held E v" "unat q = a' + 16" "t + 8 \<le> z'" using D(3) [OF b(2)] by blast
    have "p \<noteq> q" using ne D(4) b by blast
    then have "a \<noteq> a'" using a(2) a'(2) by (auto simp: addr_eq)
    from held_disjoint(1) [OF D(1) a(1) a'(1) this] show ?thesis using a(2,3) a'(2,3) by linarith
  qed
  have malloc_ok: "\<exists>p s'. sf_malloc E req s = Inr (p, s') \<and> p \<noteq> 0"
    if "0 < unat req \<and> unat req < 2 ^ 31 \<and> served E req s" for req
    using run_alloc [OF I st] that by blast
  have free_ok: "\<exists>s'. sf_free E p s = Inr ((), s')" if "(p, r) \<in> L" "quick_room E p s" for p r
    using run_release [OF I that] by blast
  show ?thesis
  proof (intro conjI)
    show "\<forall>(p, r) \<in> L. p mod 16 = 0 \<and> mem_start E \<le> p \<and> unat p + r \<le> unat (mem_end s)"
      using in_heap by auto
    show "\<forall>(p, r) \<in> L. \<forall>(q, t) \<in> L. (p, r) \<noteq> (q, t) \<longrightarrow> unat p + r \<le> unat q \<or> unat q + t \<le> unat p"
      by (intro ballI case_prodI2 impI) (rule apart, simp_all)
    show "\<forall>w x. c w = Some x \<longrightarrow> mem s w = x" by (intro allI impI) (rule D(5) [THEN conjunct1])
    show "\<forall>req. 0 < unat req \<and> unat req < 2 ^ 31 \<and> served E req s \<longrightarrow> (\<exists>p s'. sf_malloc E req s = Inr (p, s') \<and> p \<noteq> 0)"
      by (intro allI impI) (rule malloc_ok)
    show "\<forall>(p, r) \<in> L. quick_room E p s \<longrightarrow> (\<exists>s'. sf_free E p s = Inr ((), s'))"
      by (intro ballI case_prodI2 impI) (rule free_ok, simp_all)
  qed
qed

lemma page_served:
  assumes "heap_inv page_E (first_view page_E) s" and "unat req \<le> 4000"
  shows "served page_E req s"
proof -
  let ?n = "block_bytes (unat req)"
  have r: "unat req < 2 ^ 31" using assms(2) by simp
  note B = block_size_bytes [OF r]
  have "?n \<le> 4080" using block_bytes_le [of "unat req"] assms(2) by linarith
  then have "\<not> (\<forall>a z. (a, z, False) \<in> blocks page_E (first_view page_E) \<longrightarrow> z < ?n)" by (auto simp: first_blocks)
  moreover have "?n < 2 ^ 64" using B(3) by simp
  ultimately obtain x where "fit_lists page_E [0..<NUM_FREE_LISTS] (of_nat ?n) s = Inr (Some x, s)"
    using fit_lists_heap [OF assms(1) page_len] by blast
  moreover have "quick_search page_E [0..<NUM_QUICK_LISTS] (of_nat ?n) s = Inr (None, s)"
    by (rule quick_search_none [OF assms(1)]) (simp add: first_view_def)
  ultimately show ?thesis by (simp add: served_def B(1))
qed

theorem heap_runs_witness:
  "\<exists>s p. heap_run page_E (s\<lparr>mem := (mem s)(p := 7)\<rparr>) {(p, 24)} (Map.empty(p \<mapsto> 7))
    \<and> p mod 16 = 0 \<and> unat p + 24 \<le> unat (mem_end s)"
proof -
  obtain s0 where s0: "sf_init_first_page page_E page_s = Inr ((), s0)" "heap_inv page_E (first_view page_E) s0"
    using page_ready by blast
  have r: "0 < unat (24 :: 64 word)" "unat (24 :: 64 word) < 2 ^ 31" by simp_all
  have st: "128 \<le> steps page_E" by (simp add: page_E_layout(3) [symmetric])
  note r0 = heap_run.start [OF page_E_layout(2) s0(1)]
  from heap_run_inv [OF r0 page_E_layout(1) st page_E_layout(4)] obtain v where I: "run_inv page_E v s0 {} (\<lambda>_. None)" by blast
  have sv: "served page_E 24 s0" by (rule page_served [OF s0(2)]) simp
  from run_alloc [OF I st r sv] obtain p s where m: "sf_malloc page_E 24 s0 = Inr (p, s)" by blast
  have "(\<lambda>w. if in_request (p, unat (24 :: 64 word)) w then None else None) = (\<lambda>_. None)" by auto
  then have r1: "heap_run page_E s {(p, 24)} (\<lambda>_. None)" using heap_run.alloc [OF r0 r sv m] by simp
  have "in_request (p, 24) p" by (simp add: in_request_def)
  from heap_run.store [OF r1 _ this, of 7] have r2: "heap_run page_E (s\<lparr>mem := (mem s)(p := 7)\<rparr>) {(p, 24)} (Map.empty(p \<mapsto> 7))"
    by simp
  from heap_runs [OF r2 page_E_layout(1) st page_E_layout(4)]
  have "p mod 16 = 0 \<and> unat p + 24 \<le> unat (mem_end s)" by simp
  with r2 show ?thesis by - (intro exI conjI; (elim conjE)?; assumption)
qed

text \<open>
  C12. Requests on which \<open>sf_malloc\<close> never returns: when the last block of the heap is free and longer than the
  request, but no quick list and no free block can hold the request with its header, the computation of how
  much the heap must grow gives a negative number, no page is added, and the call repeats itself on a
  heap with the same blocks. However deep the recursion is allowed to go, it does not end. On a fresh page
  this happens for the seven sizes from 4073 to 4079.
\<close>

theorem malloc_never_returns:
  assumes h: "heap_inv E v s" and len: "\<forall>j < NUM_FREE_LISTS. length (frees v j) < steps E"
    and t: "tiles v = bs @ [(z, False)]" and r: "0 < unat req" "unat req < z" "z \<le> 2 ^ 31"
    and no: "\<not> serves E v (block_bytes (unat req))"
  shows "(\<forall>n. malloc_loop n E req s = Inl OutOfFuel) \<and> sf_malloc E req s = Inl OutOfFuel"
  using malloc_stuck [OF h len t r no] by (simp add: sf_malloc_def)

theorem malloc_never_returns_witness:
  "\<exists>s. sf_init_first_page page_E page_s = Inr ((), s)
    \<and> (\<forall>r \<in> {4073 .. 4079 :: nat}. sf_malloc page_E (of_nat r) s = Inl OutOfFuel)"
proof -
  obtain s where s: "sf_init_first_page page_E page_s = Inr ((), s)" "heap_inv page_E (first_view page_E) s"
    using page_ready by blast
  have t: "tiles (first_view page_E) = [] @ [(4080, False)]" by (simp add: first_view_def)
  have z: "(4080 :: nat) \<le> 2 ^ 31" by simp
  have "sf_malloc page_E (of_nat r) s = Inl OutOfFuel" if r: "4073 \<le> r" "r \<le> 4079" for r
  proof -
    have ur: "unat (of_nat r :: 64 word) = r" using r by (intro unat_nat) simp
    have "(r + 23) div 16 = 256" using r by presburger
    then have "block_bytes r = 4096" by (simp add: block_bytes_def)
    then have "\<not> serves page_E (first_view page_E) (block_bytes (unat (of_nat r :: 64 word)))"
      unfolding ur by (simp add: serves_def first_blocks) (simp add: first_view_def)
    then show ?thesis using malloc_never_returns [OF s(2) page_len t _ _ z, of "of_nat r"] r ur by simp
  qed
  then show ?thesis using s(1) by auto
qed

end
