(* ===== verification/Crc32.thy ===== *)
theory Crc32
  imports Interfaces
begin

unbundle bit_operations_syntax

section \<open>The CRC of a buffer (hw2/src/crc32.c)\<close>

text \<open>
  The two static variables of \<open>rc_crc32\<close> are its state; the table starts as zeroes. A buffer is the
  list of its bytes: the code converts each \<open>char\<close> to an unsigned octet.
\<close>

record crc_static =
  table :: "32 word list"
  have_table :: int

definition crc_static_init :: crc_static where
  "crc_static_init = \<lparr>table = replicate 256 0, have_table = 0\<rparr>"

definition POLY :: "32 word" where "POLY = 0xedb88320"

definition rem_step :: "32 word \<Rightarrow> 32 word" where
  "rem_step r = (if r AND 1 \<noteq> 0 then drop_bit 1 r XOR POLY else drop_bit 1 r)"

fun rem_loop :: "nat \<Rightarrow> 32 word \<Rightarrow> 32 word" where
  "rem_loop 0 r = r"
| "rem_loop (Suc j) r = rem_loop j (rem_step r)"

text \<open>The table loop, from index \<open>i\<close> up, \<open>k\<close> rounds.\<close>

fun table_loop :: "nat \<Rightarrow> nat \<Rightarrow> 32 word list \<Rightarrow> 32 word list" where
  "table_loop 0 i t = t"
| "table_loop (Suc k) i t = table_loop k (i + 1) (t[i := rem_loop 8 (of_nat i)])"

definition crc_byte :: "32 word list \<Rightarrow> 32 word \<Rightarrow> byte \<Rightarrow> 32 word" where
  "crc_byte t crc octet = drop_bit 8 crc XOR t ! unat ((crc AND 0xff) XOR ucast octet)"

definition rc_crc32 :: "32 word \<Rightarrow> byte list \<Rightarrow> crc_static \<Rightarrow> 32 word \<times> crc_static" where
  "rc_crc32 crc buf s =
     (let s1 = (if have_table s = 0 then s\<lparr>table := table_loop 256 0 (table s), have_table := 1\<rparr> else s)
      in (NOT (foldl (crc_byte (table s1)) (NOT crc) buf), s1))"

subsection \<open>The table\<close>

definition crc_table :: "32 word list" where
  "crc_table = map (\<lambda>i. rem_loop 8 (of_nat i)) [0..<256]"

text \<open>The static variables at any time: not yet initialised, or holding the table.\<close>

definition static_ok :: "crc_static \<Rightarrow> bool" where
  "static_ok s \<longleftrightarrow> length (table s) = 256 \<and> (have_table s \<noteq> 0 \<longrightarrow> table s = crc_table)"

lemma table_loop_length [simp]: "length (table_loop k i t) = length t"
  by (induction k i t rule: table_loop.induct) simp_all

lemma table_loop_nth:
  "i + k \<le> length t \<Longrightarrow> j < length t \<Longrightarrow>
   table_loop k i t ! j = (if i \<le> j \<and> j < i + k then rem_loop 8 (of_nat j) else t ! j)"
  by (induction k i t rule: table_loop.induct) (auto simp: nth_list_update)

lemma table_loop_table: "length t = 256 \<Longrightarrow> table_loop 256 0 t = crc_table"
  by (rule nth_equalityI) (simp_all add: crc_table_def table_loop_nth del: table_loop.simps)

lemma static_init_ok: "static_ok crc_static_init"
  by (simp add: static_ok_def crc_static_init_def)

lemma rc_crc32_run:
  assumes "static_ok s"
  shows "\<exists>s'. rc_crc32 crc buf s = (NOT (foldl (crc_byte crc_table) (NOT crc) buf), s')
    \<and> static_ok s' \<and> have_table s' \<noteq> 0"
  using assms by (auto simp: rc_crc32_def static_ok_def Let_def table_loop_table crc_table_def)

subsection \<open>The remainder step is linear and one-to-one\<close>

lemma and_1_bit: "(r :: 32 word) AND 1 \<noteq> 0 \<longleftrightarrow> bit r 0"
  by (simp add: and_one_eq bit_0 odd_iff_mod_2_eq_one)

lemma rem_step_bit: "rem_step r = drop_bit 1 r XOR (if bit r 0 then POLY else 0)"
  by (simp add: rem_step_def and_1_bit)

lemma rem_step_xor: "rem_step (x XOR y) = rem_step x XOR rem_step y"
  by (rule bit_word_eqI) (auto simp: rem_step_bit bit_simps)

lemma rem_loop_xor: "rem_loop n (x XOR y) = rem_loop n x XOR rem_loop n y"
  by (induction n arbitrary: x y) (simp_all add: rem_step_xor)

lemma rem_loop_add: "rem_loop (m + n) x = rem_loop n (rem_loop m x)"
  by (induction m arbitrary: x) simp_all

lemma rem_step_shift: "\<not> bit x 31 \<Longrightarrow> rem_step (push_bit 1 x) = x"
proof -
  assume a: "\<not> bit x 31"
  have "drop_bit 1 (push_bit 1 x) = x"
  proof (rule bit_word_eqI)
    fix n assume "n < LENGTH(32)"
    then show "bit (drop_bit 1 (push_bit 1 x)) n = bit x n"
      using a unfolding bit_drop_bit_eq o_def bit_push_bit_iff
      by (cases "n = 31") (auto simp: less_Suc_eq)
  qed
  moreover have "\<not> bit (push_bit 1 x) 0" unfolding bit_push_bit_iff by simp
  ultimately show ?thesis by (simp only: rem_step_bit if_False xor.right_neutral)
qed

lemma rem_loop_shift:
  "n \<le> 32 \<Longrightarrow> (\<And>i. 32 - n \<le> i \<Longrightarrow> i < 32 \<Longrightarrow> \<not> bit x i) \<Longrightarrow> rem_loop n (push_bit n x) = x"
proof (induction n)
  case (Suc n)
  have "\<not> bit (push_bit n x) 31" using Suc.prems by (auto simp: bit_simps)
  then have "rem_step (push_bit 1 (push_bit n x)) = push_bit n x" by (rule rem_step_shift)
  then have "rem_step (push_bit (Suc n) x) = push_bit n x" by (simp add: ac_simps)
  then show ?case using Suc by simp
qed simp

lemma bit_byte: "bit (0xff :: 32 word) n \<longleftrightarrow> n < 8" "bit (ucast (b :: byte) :: 32 word) n \<longleftrightarrow> bit b n"
proof -
  have "(0xff :: 32 word) = mask 8" by (simp add: mask_eq_exp_minus_1)
  then have "bit (0xff :: 32 word) n \<longleftrightarrow> n < min LENGTH(32) 8" by (simp only: bit_mask_iff) auto
  then show "bit (0xff :: 32 word) n \<longleftrightarrow> n < 8" by simp
  show "bit (ucast b :: 32 word) n \<longleftrightarrow> bit b n"
    by (auto simp: bit_simps dest: bit_imp_le_length)
qed

lemma byte_bit_less: "bit (b :: byte) n \<Longrightarrow> n < 8"
  using bit_imp_le_length [of b n] by simp

lemma crc_byte_rem: "crc_byte crc_table c b = rem_loop 8 (c XOR ucast b)"
proof -
  let ?i = "(c AND 0xff) XOR ucast b :: 32 word"
  have lt: "unat ?i < 256"
  proof -
    have "?i = take_bit 8 ?i"
      by (rule bit_word_eqI) (auto simp: bit_take_bit_iff bit_xor_iff bit_and_iff bit_byte
        simp del: bit_numeral_word_iff dest: byte_bit_less)
    then have "unat ?i = unat (take_bit 8 ?i)" by simp
    also have "\<dots> < 2 ^ 8" by (simp only: unsigned_take_bit_eq take_bit_nat_less_exp)
    finally show ?thesis by simp
  qed
  have split: "c XOR ucast b = push_bit 8 (drop_bit 8 c) XOR ?i"
    by (rule bit_word_eqI)
      (auto simp: bit_push_bit_iff bit_drop_bit_eq bit_xor_iff bit_and_iff bit_byte
        simp del: bit_numeral_word_iff dest: byte_bit_less)
  have "rem_loop 8 (push_bit 8 (drop_bit 8 c)) = drop_bit 8 c"
    by (rule rem_loop_shift) (auto simp: bit_drop_bit_eq dest: bit_imp_le_length)
  moreover have "crc_table ! unat ?i = rem_loop 8 ?i"
    using lt by (simp add: crc_table_def del: rem_loop.simps)
  ultimately show ?thesis by (simp only: crc_byte_def split rem_loop_xor)
qed

lemma rem_step_0: "rem_step z = 0 \<Longrightarrow> z = 0"
proof -
  assume a: "rem_step z = 0"
  have p: "bit POLY 31" by (simp add: POLY_def)
  have "\<not> bit (drop_bit 1 z) 31" by (auto simp: bit_drop_bit_eq dest: bit_imp_le_length)
  then have z0: "\<not> bit z 0"
    using arg_cong [OF a, of "\<lambda>w. bit w 31"] p by (auto simp: rem_step_bit bit_xor_iff split: if_splits)
  then have d: "drop_bit 1 z = 0" using a by (simp only: rem_step_bit if_False xor.right_neutral)
  show "z = 0"
  proof (rule bit_word_eqI)
    fix n
    show "bit z n = bit 0 n"
      using z0 arg_cong [OF d, of "\<lambda>w. bit w (n - 1)"] by (cases n) (simp_all add: bit_drop_bit_eq)
  qed
qed

lemma rem_loop_0: "rem_loop n z = 0 \<Longrightarrow> z = 0"
  by (induction n arbitrary: z) (auto dest: rem_step_0)

lemma rem_loop_inj: "rem_loop n x = rem_loop n y \<longleftrightarrow> x = y"
proof
  assume "rem_loop n x = rem_loop n y"
  then have "rem_loop n (x XOR y) = 0" by (simp add: rem_loop_xor)
  then have "(x XOR y) XOR y = 0 XOR y" using rem_loop_0 by metis
  then show "x = y" by (simp add: xor.assoc)
qed simp

lemma xor_cancel: "(a XOR b :: 32 word) = a XOR c \<longleftrightarrow> b = c"
  by (metis xor.left_commute xor_self_eq xor.right_neutral)

interpretation crc: checksum "crc_byte crc_table"
proof
  fix s t :: "32 word" and b c :: byte
  show "crc_byte crc_table s b = crc_byte crc_table t b \<Longrightarrow> s = t"
    using xor_cancel [of "ucast b" s t] by (simp add: crc_byte_rem rem_loop_inj xor.commute del: rem_loop.simps)
  assume "crc_byte crc_table s b = crc_byte crc_table s c"
  then have "(ucast b :: 32 word) = ucast c"
    by (simp add: crc_byte_rem rem_loop_inj xor_cancel del: rem_loop.simps)
  then show "b = c" by (metis bit_byte(2) bit_eqI)
qed

subsection \<open>Short runs of bytes\<close>

fun le_word :: "byte list \<Rightarrow> 32 word" where
  "le_word [] = 0"
| "le_word (b # bs) = ucast b XOR push_bit 8 (le_word bs)"

lemma le_word_high: "bit (le_word bs) i \<Longrightarrow> i < 8 * length bs"
proof (induction bs arbitrary: i)
  case (Cons b bs)
  then show ?case
    by (auto simp: bit_xor_iff bit_push_bit_iff bit_byte dest: byte_bit_less) (use Cons.IH in fastforce)
qed simp

lemma foldl_le_word:
  "length bs \<le> 4 \<Longrightarrow> foldl (crc_byte crc_table) c bs = rem_loop (8 * length bs) (c XOR le_word bs)"
proof (induction bs arbitrary: c)
  case (Cons b bs)
  have "rem_loop 8 (push_bit 8 (le_word bs)) = le_word bs"
    using Cons.prems by (intro rem_loop_shift) (auto dest: le_word_high)
  then have "rem_loop 8 (c XOR ucast b) XOR le_word bs = rem_loop 8 (c XOR ucast b) XOR rem_loop 8 (push_bit 8 (le_word bs))"
    by (simp only:)
  also have "\<dots> = rem_loop 8 (c XOR le_word (b # bs))"
    by (simp only: rem_loop_xor [symmetric] le_word.simps xor.assoc)
  finally have "rem_loop 8 (c XOR ucast b) XOR le_word bs = rem_loop 8 (c XOR le_word (b # bs))" .
  then show ?case using Cons by (simp add: crc_byte_rem rem_loop_add del: rem_loop.simps le_word.simps)
qed simp

lemma le_word_inj:
  "length us = length vs \<Longrightarrow> length us \<le> 4 \<Longrightarrow> le_word us = le_word vs \<Longrightarrow> us = vs"
proof (induction us vs rule: list_induct2)
  case (Cons a us b vs)
  have e: "bit (le_word (x # xs)) i = (if i < 8 then bit x i else bit (le_word xs) (i - 8))"
    if "length xs \<le> 3" "i < 32" for x xs i
    using that by (auto simp: bit_xor_iff bit_push_bit_iff bit_byte dest: byte_bit_less)
  have q: "bit (le_word (a # us)) i = bit (le_word (b # vs)) i" for i using Cons.prems(2) by simp
  have "a = b"
  proof (rule bit_word_eqI)
    fix i assume "i < LENGTH(8)"
    then show "bit a i = bit b i" using q [of i] e [of us i a] e [of vs i b] Cons.prems(1) Cons.hyps by simp
  qed
  moreover have "le_word us = le_word vs"
  proof (rule bit_word_eqI)
    fix i
    show "bit (le_word us) i = bit (le_word vs) i"
    proof (cases "i < 24")
      case True
      then show ?thesis
        using q [of "i + 8"] e [of us "i + 8" a] e [of vs "i + 8" b] Cons.prems(1) Cons.hyps by simp
    next
      case False
      then show ?thesis using le_word_high [of us i] le_word_high [of vs i] Cons.prems(1) Cons.hyps by auto
    qed
  qed
  ultimately show ?case using Cons by simp
qed simp

subsection \<open>The bit-serial checksum\<close>

text \<open>
  The reference, written from the standard: the message is shifted in bit by bit, least significant
  bit of each byte first, and divided by the polynomial of IEEE 802.3, the sum of \<open>x ^ 32\<close> and the
  powers below. The register is reflected, so the coefficient of \<open>x ^ e\<close> is bit \<open>31 - e\<close>.
\<close>

definition crc_poly :: "32 word" where
  "crc_poly = foldr (\<lambda>e. set_bit (31 - e)) [26, 23, 22, 16, 12, 11, 10, 8, 7, 5, 4, 2, 1, 0] 0"

lemma POLY_standard: "POLY = crc_poly"
  by code_simp

definition crc_bit :: "32 word \<Rightarrow> bool \<Rightarrow> 32 word" where
  "crc_bit r b = (if bit r 0 \<noteq> b then drop_bit 1 r XOR crc_poly else drop_bit 1 r)"

definition byte_bits :: "byte \<Rightarrow> bool list" where
  "byte_bits b = map (bit b) [0..<8]"

definition crc_serial :: "32 word \<Rightarrow> byte list \<Rightarrow> 32 word" where
  "crc_serial crc buf = NOT (foldl crc_bit (NOT crc) (concat (map byte_bits buf)))"

lemma rem_step_crc_bit: "rem_step (c XOR w) = crc_bit c (bit w 0) XOR drop_bit 1 w"
  by (rule bit_word_eqI) (auto simp: rem_step_bit crc_bit_def POLY_standard bit_xor_iff bit_drop_bit_eq)

lemma rem_loop_serial:
  "(\<And>i. n \<le> i \<Longrightarrow> \<not> bit w i) \<Longrightarrow> rem_loop n (c XOR w) = foldl crc_bit c (map (bit w) [0..<n])"
proof (induction n arbitrary: c w)
  case 0
  then have "w = 0" by (intro bit_word_eqI) simp
  then show ?case by simp
next
  case (Suc n)
  have "map (bit w) [0..<Suc n] = bit w 0 # map (bit (drop_bit 1 w)) [0..<n]"
    by (simp add: map_upt_Suc bit_drop_bit_eq del: upt_Suc)
  moreover have "\<not> bit (drop_bit 1 w) i" if "n \<le> i" for i
    using Suc.prems [of "Suc i"] that by (simp add: bit_drop_bit_eq)
  ultimately show ?case using Suc.IH [of "drop_bit 1 w" "crc_bit c (bit w 0)"]
    by (simp add: rem_step_crc_bit del: upt_Suc)
qed

lemma crc_byte_serial: "crc_byte crc_table c b = foldl crc_bit c (byte_bits b)"
proof -
  have "map (bit (ucast b :: 32 word)) [0..<8] = byte_bits b" by (simp add: byte_bits_def bit_byte)
  moreover have "rem_loop 8 (c XOR ucast b) = foldl crc_bit c (map (bit (ucast b :: 32 word)) [0..<8])"
    by (rule rem_loop_serial) (auto simp: bit_byte dest: byte_bit_less)
  ultimately show ?thesis by (simp only: crc_byte_rem)
qed

lemma foldl_serial: "foldl (crc_byte crc_table) c buf = foldl crc_bit c (concat (map byte_bits buf))"
  by (induction buf arbitrary: c) (simp_all add: crc_byte_serial)

text \<open>
  C19. The table-driven loop of \<open>rc_crc32\<close> computes the bit-serial CRC-32 of IEEE 802.3 (reflected,
  register and result complemented), on the first call, which builds the table, and on every later
  one alike; and the checksum of a buffer given in two pieces, the second call starting from the
  result of the first, is that of the whole buffer.
\<close>

theorem rc_crc32_serial:
  assumes "static_ok s"
  shows "fst (rc_crc32 crc buf s) = crc_serial crc buf \<and> static_ok (snd (rc_crc32 crc buf s))
    \<and> (case rc_crc32 crc xs s of (c1, s1) \<Rightarrow> fst (rc_crc32 c1 ys s1)) = fst (rc_crc32 crc (xs @ ys) s)"
proof -
  obtain s1 where 1: "rc_crc32 crc xs s = (crc_serial crc xs, s1)" "static_ok s1"
    using rc_crc32_run [OF assms, of crc xs] by (auto simp: foldl_serial crc_serial_def)
  have c: "fst (rc_crc32 c b t) = crc_serial c b" if "static_ok t" for c b t
    using rc_crc32_run [OF that, of c b] by (auto simp: foldl_serial crc_serial_def)
  have "static_ok (snd (rc_crc32 crc buf s))" using rc_crc32_run [OF assms, of crc buf] by auto
  then show ?thesis using c assms 1 by (simp add: crc_serial_def)
qed

text \<open>A known value: the checksum of the text 123.\<close>

lemma crc_check_value: "crc_serial 0 [49, 50, 51] = 0x884863D2"
  by code_simp

theorem rc_crc32_serial_witness:
  "fst (rc_crc32 0 [49, 50, 51] crc_static_init) = 0x884863D2"
  using rc_crc32_serial [OF static_init_ok, of 0 "[49, 50, 51]" "[]" "[]"]
  by (simp only: crc_check_value)

text \<open>
  Two messages that differ only within four consecutive bytes, wherever they lie, have different
  checksums, for any start value and whether or not the table had been built: every corruption of up
  to 32 consecutive bits at byte boundaries is detected.
\<close>

theorem rc_crc32_burst:
  assumes "static_ok s" and "static_ok t" and "length us = length vs" and "length us \<le> 4" and "us \<noteq> vs"
  shows "fst (rc_crc32 crc (xs @ us @ zs) s) \<noteq> fst (rc_crc32 crc (xs @ vs @ zs) t)"
proof -
  let ?c = "foldl (crc_byte crc_table) (NOT crc) xs"
  have "le_word us \<noteq> le_word vs" using assms(3-5) le_word_inj by blast
  then have "foldl (crc_byte crc_table) ?c us \<noteq> foldl (crc_byte crc_table) ?c vs"
    using assms(3,4) by (simp add: foldl_le_word rem_loop_inj xor_cancel)
  then have "foldl (crc_byte crc_table) ?c (us @ zs) \<noteq> foldl (crc_byte crc_table) ?c (vs @ zs)"
    using crc.suffix_irrelevant by simp
  then have "NOT (foldl (crc_byte crc_table) (NOT crc) (xs @ us @ zs))
      \<noteq> NOT (foldl (crc_byte crc_table) (NOT crc) (xs @ vs @ zs))" by simp
  then show ?thesis
    using rc_crc32_run [OF assms(1), of crc "xs @ us @ zs"] rc_crc32_run [OF assms(2), of crc "xs @ vs @ zs"]
    by (auto simp del: foldl_append)
qed

theorem rc_crc32_burst_witness:
  "fst (rc_crc32 0 [1, 2, 3, 4, 5] crc_static_init) \<noteq> fst (rc_crc32 0 [1, 9, 9, 4, 5] crc_static_init)"
  using rc_crc32_burst [OF static_init_ok static_init_ok, of "[2, 3]" "[9, 9]" 0 "[1]" "[4, 5]"] by simp

end
