(* ===== verification/Finddup.thy ===== *)
theory Finddup
  imports Crc32 "HOL-Library.Multiset" "HOL-Library.Sublist" "HOL-Library.Product_Lexorder"
begin

unbundle bit_operations_syntax

section \<open>The duplicate finder (hw2/src/finddup.c)\<close>

text \<open>
  The file system is a parameter: what \<open>lstat\<close> and \<open>fopen\<close> answer, and the text of the file of names.
  So are \<open>qsort\<close> and what fresh memory of \<open>realloc\<close> holds (\<open>None\<close> when it fails). The buffers that
  \<open>getline\<close> allocates are taken to be large enough for the names later copied into them. Standard
  output is a string; the progress notes on standard error are left out.
\<close>

record stat_t =
  is_reg :: bool
  st_size :: int
  st_dev :: "64 word"
  st_ino :: "64 word"

record filedesc =
  flength :: int
  crc32 :: "64 word"
  device :: "64 word"
  inode :: "64 word"
  nameloc :: nat
  flags :: "8 word"

record fs_env =
  names :: string
  lstat :: "string \<Rightarrow> stat_t option"
  content :: "string \<Rightarrow> byte list option"
  qsort :: "(filedesc \<Rightarrow> filedesc \<Rightarrow> int) \<Rightarrow> filedesc list \<Rightarrow> filedesc list"
  fresh_mem :: "nat \<Rightarrow> filedesc list option"

definition FL_CRC :: "8 word" where "FL_CRC = 1"
definition FL_DUP :: "8 word" where "FL_DUP = 2"
definition FL_LNK :: "8 word" where "FL_LNK = 4"

lemmas fl_consts = FL_CRC_def FL_DUP_def FL_LNK_def

text \<open>The global variables. The allocated vector is longer than the \<open>n_files\<close> entries in use.\<close>

record fd_state =
  filelist :: "filedesc list"
  n_files :: nat
  linkflag :: bool
  zl_hdr :: bool
  outp :: string
  crc_st :: crc_static

definition zero_desc :: filedesc where
  "zero_desc = \<lparr>flength = 0, crc32 = 0, device = 0, inode = 0, nameloc = 0, flags = 0\<rparr>"

definition entry :: "filedesc list \<Rightarrow> nat \<Rightarrow> filedesc outcome" where
  "entry fl i = (if i < length fl then Inr (fl ! i) else Inl MemFault)"

definition has_flag :: "8 word \<Rightarrow> filedesc \<Rightarrow> bool" where
  "has_flag f e \<longleftrightarrow> flags e AND f \<noteq> 0"

definition set_flag :: "8 word \<Rightarrow> filedesc \<Rightarrow> filedesc" where
  "set_flag f e = e\<lparr>flags := flags e OR f\<rparr>"

subsection \<open>Lines\<close>

definition getline :: "'a \<Rightarrow> 'a list \<Rightarrow> ('a list \<times> 'a list) option" where
  "getline eol s = (if s = [] then None
     else (let k = length (takeWhile (\<lambda>c. c \<noteq> eol) s) in Some (take (k + 1) s, drop (k + 1) s)))"

text \<open>\<open>line[strlen(line) - 1] = EOS\<close>.\<close>

definition chop :: "string \<Rightarrow> string outcome" where
  "chop line = (let s = takeWhile (\<lambda>c. c \<noteq> CHR 0x00) line in
     if s = [] then Inl MemFault else Inr (butlast s))"

lemma getline_shorter: "getline eol s = Some (l, r) \<Longrightarrow> length r < length s"
  by (cases s) (auto simp: getline_def Let_def)

definition getfn :: "fs_env \<Rightarrow> filedesc \<Rightarrow> string outcome" where
  "getfn E e = (case getline nl (drop (nameloc e) (names E)) of
     None \<Rightarrow> Inl MemFault | Some (l, _) \<Rightarrow> chop l)"

subsection \<open>get_crc\<close>

function crc_lines :: "byte list \<Rightarrow> 32 word \<Rightarrow> crc_static \<Rightarrow> 32 word \<times> crc_static" where
  "crc_lines s acc cs = (case getline 10 s of None \<Rightarrow> (acc, cs)
     | Some (l, r) \<Rightarrow>
         (case rc_crc32 0 (takeWhile (\<lambda>b. b \<noteq> 0) l) cs of (c, cs') \<Rightarrow> crc_lines r (acc + c) cs'))"
  by pat_completeness auto

termination
  by (relation "measure (\<lambda>(s, acc, cs). length s)") (auto dest: getline_shorter)

declare crc_lines.simps [simp del]

definition get_crc :: "fs_env \<Rightarrow> filedesc \<Rightarrow> crc_static \<Rightarrow> (64 word \<times> crc_static) outcome" where
  "get_crc E e cs = obind (getfn E e) (\<lambda>fname. case content E fname of
     None \<Rightarrow> Inl (Exited 1)
   | Some bs \<Rightarrow> (case crc_lines bs 0 cs of (c, cs') \<Rightarrow> Inr (ucast c, cs')))"

subsection \<open>comp1 and the sort\<close>

definition comp1 :: "filedesc \<Rightarrow> filedesc \<Rightarrow> int" where
  "comp1 p1 p2 =
     (let r1 = wrap32 (flength p1 - flength p2);
          r2 = wrap32 (uint (crc32 p1 - crc32 p2));
          r3 = wrap32 (uint (device p1 - device p2));
          r4 = wrap32 (uint (inode p1 - inode p2))
      in if r1 \<noteq> 0 then r1 else if r2 \<noteq> 0 then r2 else if r3 \<noteq> 0 then r3 else r4)"

definition SORT :: "fs_env \<Rightarrow> fd_state \<Rightarrow> fd_state" where
  "SORT E s = s\<lparr>filelist := qsort E comp1 (take (n_files s) (filelist s)) @ drop (n_files s) (filelist s)\<rparr>"

subsection \<open>scan1\<close>

text \<open>The checksum of one entry, unless it has one.\<close>

definition crc_entry :: "fs_env \<Rightarrow> nat \<Rightarrow> fd_state \<Rightarrow> fd_state outcome" where
  "crc_entry E i s = obind (entry (filelist s) i) (\<lambda>e.
     if \<not> has_flag FL_CRC e then
       obind (get_crc E e (crc_st s)) (\<lambda>(c, cs).
         Inr (s\<lparr>filelist := (filelist s)[i := set_flag FL_CRC (e\<lparr>crc32 := c\<rparr>)], crc_st := cs\<rparr>))
     else Inr s)"

text \<open>Rounds \<open>ix, ..., ix + k - 1\<close> of the loop; the flag is \<open>needsort\<close>.\<close>

fun scan1_loop :: "fs_env \<Rightarrow> nat \<Rightarrow> nat \<Rightarrow> bool \<Rightarrow> fd_state \<Rightarrow> (bool \<times> fd_state) outcome" where
  "scan1_loop E 0 ix needsort s = Inr (needsort, s)"
| "scan1_loop E (Suc k) ix needsort s =
     obind (entry (filelist s) (ix - 1)) (\<lambda>p.
     obind (entry (filelist s) ix) (\<lambda>q.
       if flength p = flength q then
         obind (crc_entry E (ix - 1) s) (\<lambda>s1. obind (crc_entry E ix s1) (\<lambda>s2.
           scan1_loop E k (ix + 1) True s2))
       else scan1_loop E k (ix + 1) needsort s))"

definition scan1 :: "fs_env \<Rightarrow> fd_state \<Rightarrow> fd_state outcome" where
  "scan1 E s = obind (scan1_loop E (n_files s) 1 False s) (\<lambda>(needsort, s').
     Inr (if needsort then SORT E s' else s'))"

subsection \<open>fullcmp\<close>

text \<open>
  \<open>ch\<close> is a signed \<open>char\<close>; the other operand is the \<open>int\<close> of \<open>getc\<close>, -1 at the end. The result is the
  last value of \<open>ch\<close>.
\<close>

fun cmp_loop :: "byte list \<Rightarrow> byte list \<Rightarrow> int" where
  "cmp_loop [] t = -1"
| "cmp_loop (b # s) t =
     (let ch = sint b; d = (case t of [] \<Rightarrow> -1 | c # _ \<Rightarrow> uint c) in
      if ch = -1 then -1 else if ch - d \<noteq> 0 then ch else cmp_loop s (tl t))"

definition fullcmp :: "fs_env \<Rightarrow> filedesc \<Rightarrow> filedesc \<Rightarrow> int outcome" where
  "fullcmp E e1 e2 =
     obind (getfn E e1) (\<lambda>f1. case content E f1 of None \<Rightarrow> Inl (Exited 1) | Some s1 \<Rightarrow>
     obind (getfn E e2) (\<lambda>f2. case content E f2 of None \<Rightarrow> Inl (Exited 1) | Some s2 \<Rightarrow>
       Inr (if cmp_loop s1 s2 = -1 then 0 else 1)))"

subsection \<open>scan2\<close>

text \<open>The inner loop over the links of the entry \<open>p1\<close> at \<open>ix\<close>, at most \<open>k\<close> rounds from \<open>ix2\<close>.\<close>

fun link_inner :: "fs_env \<Rightarrow> filedesc \<Rightarrow> nat \<Rightarrow> nat \<Rightarrow> bool \<Rightarrow> bool \<Rightarrow> fd_state \<Rightarrow>
    (nat \<times> bool \<times> fd_state) outcome" where
  "link_inner E p1 0 ix2 inmatch need_hdr s = Inr (ix2, need_hdr, s)"
| "link_inner E p1 (Suc k) ix2 inmatch need_hdr s =
     obind (entry (filelist s) ix2) (\<lambda>p2.
     if device p1 = device p2 \<and> inode p1 = inode p2 then
       let s1 = s\<lparr>filelist := (filelist s)[ix2 := set_flag FL_LNK p2]\<rparr> in
       if linkflag s then
         let s2 = (if need_hdr then s1\<lparr>outp := outp s1 @ nl # nl # ''Hard link summary:'' @ [nl, nl]\<rparr> else s1) in
         obind (if inmatch then Inr s2
                else obind (getfn E p1) (\<lambda>f. Inr (s2\<lparr>outp := outp s2 @ nl # ''FILE: '' @ f @ [nl]\<rparr>))) (\<lambda>s3.
         obind (getfn E p2) (\<lambda>f.
           link_inner E p1 k (ix2 + 1) True False (s3\<lparr>outp := outp s3 @ ''LINK: '' @ f @ [nl]\<rparr>)))
       else link_inner E p1 k (ix2 + 1) inmatch need_hdr s1
     else Inr (ix2, need_hdr, s))"

fun link_outer :: "nat \<Rightarrow> fs_env \<Rightarrow> nat \<Rightarrow> bool \<Rightarrow> fd_state \<Rightarrow> fd_state outcome" where
  "link_outer 0 E ix need_hdr s = (if ix < n_files s then Inl OutOfFuel else Inr s)"
| "link_outer (Suc fuel) E ix need_hdr s =
     (if ix < n_files s then
        obind (entry (filelist s) ix) (\<lambda>p1.
        obind (link_inner E p1 (n_files s - (ix + 1)) (ix + 1) False need_hdr s) (\<lambda>(ix2, nh, s').
          link_outer fuel E ix2 nh s'))
      else Inr s)"

text \<open>\<open>for (n1 = ix2; n1 > lastix; --n1) filelist[n1] = filelist[n1-1]\<close>, \<open>k\<close> rounds.\<close>

fun shift_loop :: "nat \<Rightarrow> nat \<Rightarrow> filedesc list \<Rightarrow> filedesc list" where
  "shift_loop 0 n1 fl = fl"
| "shift_loop (Suc k) n1 fl = shift_loop k (n1 - 1) (fl[n1 := fl ! (n1 - 1)])"

definition move_up :: "nat \<Rightarrow> nat \<Rightarrow> filedesc list \<Rightarrow> filedesc list" where
  "move_up lastix ix2 fl = (let wkdesc = fl ! ix2 in (shift_loop (ix2 - lastix) ix2 fl)[lastix := wkdesc])"

fun dup_inner :: "fs_env \<Rightarrow> nat \<Rightarrow> nat \<Rightarrow> nat \<Rightarrow> nat \<Rightarrow> bool \<Rightarrow> filedesc list \<Rightarrow> (nat \<times> filedesc list) outcome" where
  "dup_inner E ix 0 lastix ix2 lnkmatch fl = Inr (lastix, fl)"
| "dup_inner E ix (Suc k) lastix ix2 lnkmatch fl =
     obind (entry fl ix) (\<lambda>p1. obind (entry fl ix2) (\<lambda>p2.
     if flength p1 = flength p2 \<and> crc32 p1 = crc32 p2 then
       obind (if has_flag FL_LNK p2 \<and> lnkmatch then Inr True
              else obind (fullcmp E p1 p2) (\<lambda>r. Inr (r = 0))) (\<lambda>same.
       if same then
         let fl1 = fl[ix2 := set_flag FL_DUP p2] in
         if lastix \<noteq> ix2 then dup_inner E ix k (lastix + 1) (ix2 + 1) True (move_up lastix ix2 fl1)
         else dup_inner E ix k lastix (ix2 + 1) True fl1
       else dup_inner E ix k lastix (ix2 + 1) False fl)
     else Inr (lastix, fl)))"

fun dup_outer :: "nat \<Rightarrow> fs_env \<Rightarrow> nat \<Rightarrow> nat \<Rightarrow> filedesc list \<Rightarrow> filedesc list outcome" where
  "dup_outer 0 E n ix fl = (if ix < n then Inl OutOfFuel else Inr fl)"
| "dup_outer (Suc fuel) E n ix fl =
     (if ix < n then
        obind (dup_inner E ix (n - (ix + 1)) (ix + 1) (ix + 1) True fl) (\<lambda>(lastix, fl').
          dup_outer fuel E n lastix fl')
      else Inr fl)"

text \<open>The number of entries bounds the rounds of either loop (\<open>scan2_keeps\<close> below).\<close>

definition scan2 :: "fs_env \<Rightarrow> fd_state \<Rightarrow> fd_state outcome" where
  "scan2 E s = obind (link_outer (n_files s) E 0 True s) (\<lambda>s1.
     obind (dup_outer (n_files s1) E (n_files s1) 0 (filelist s1)) (\<lambda>fl. Inr (s1\<lparr>filelist := fl\<rparr>)))"

subsection \<open>scan3\<close>

fun scan3_loop :: "fs_env \<Rightarrow> nat \<Rightarrow> nat \<Rightarrow> bool \<Rightarrow> bool \<Rightarrow> string option \<Rightarrow> fd_state \<Rightarrow> fd_state outcome" where
  "scan3_loop E 0 ix need_hdr inmatch headfn s = Inr s"
| "scan3_loop E (Suc k) ix need_hdr inmatch headfn s =
     obind (entry (filelist s) ix) (\<lambda>p.
     let inm = (if flags p = FL_CRC then False else inmatch) in
     if has_flag FL_DUP p then
       obind (if \<not> inm then (if ix = 0 then Inl MemFault
                else obind (entry (filelist s) (ix - 1)) (\<lambda>q. obind (getfn E q) (\<lambda>f. Inr (Some f))))
              else Inr headfn) (\<lambda>h.
       if linkflag s \<or> \<not> has_flag FL_LNK p then
         let s1 = (if need_hdr
                   then s\<lparr>outp := outp s @ nl # nl # ''List of files with duplicate contents''
                          @ (if linkflag s then '' (includes hard links)'' else []) @ [nl]\<rparr> else s);
             s2 = (case h of None \<Rightarrow> s1
                   | Some f \<Rightarrow> s1\<lparr>outp := outp s1 @ nl # ''FILE: '' @ f @ [nl]\<rparr>)
         in obind (getfn E p) (\<lambda>f.
              scan3_loop E k (ix + 1) False True None (s2\<lparr>outp := outp s2 @ ''DUP:  '' @ f @ [nl]\<rparr>))
       else scan3_loop E k (ix + 1) need_hdr True h s)
     else scan3_loop E k (ix + 1) need_hdr inm headfn s)"

definition scan3 :: "fs_env \<Rightarrow> fd_state \<Rightarrow> fd_state outcome" where
  "scan3 E s = scan3_loop E (n_files s) 0 True True None s"

subsection \<open>finddup_main\<close>

text \<open>One line of the list of names, found at offset \<open>loc\<close>.\<close>

definition build_line :: "fs_env \<Rightarrow> nat \<Rightarrow> string \<Rightarrow> fd_state \<Rightarrow> fd_state outcome" where
  "build_line E loc curfile s =
     obind (if n_files s = length (filelist s)
            then (case fresh_mem E (length (filelist s)) of
                    None \<Rightarrow> Inl (Exited 1)
                  | Some m \<Rightarrow> Inr (s\<lparr>filelist := filelist s @ take 50 (m @ replicate 50 zero_desc)\<rparr>))
            else Inr s) (\<lambda>s.
     obind (chop curfile) (\<lambda>fname.
     case lstat E fname of
       None \<Rightarrow> Inr s
     | Some st \<Rightarrow>
         if \<not> is_reg st then Inr s
         else if st_size st = 0 then
           Inr (s\<lparr>outp := outp s @ (if zl_hdr s then ''Zero length files:'' @ [nl, nl] else []) @ fname @ [nl],
                  zl_hdr := False\<rparr>)
         else Inr (s\<lparr>n_files := n_files s + 1,
                     filelist := (filelist s)[n_files s :=
                       \<lparr>flength = st_size st, crc32 = 0, device = st_dev st, inode = st_ino st,
                        nameloc = loc, flags = 0\<rparr>]\<rparr>)))"

function build_loop :: "fs_env \<Rightarrow> nat \<Rightarrow> string \<Rightarrow> fd_state \<Rightarrow> fd_state outcome" where
  "build_loop E loc s st = (case getline nl s of None \<Rightarrow> Inr st
     | Some (l, r) \<Rightarrow> obind (build_line E loc l st) (\<lambda>st'. build_loop E (loc + length l) r st'))"
  by pat_completeness auto

termination
  by (relation "measure (\<lambda>(E, loc, s, st). length s)") (auto dest: getline_shorter)

declare build_loop.simps [simp del]

text \<open>
  The options: \<open>getopt_long\<close> is a library function, so the list of what it returns is a parameter, with
  the name of the long option where it returns 0 (then \<open>optarg\<close> matters only under DEBUG). \<open>None\<close>:
  go on; \<open>Some\<close> a status and the text printed: \<open>exit\<close>.
\<close>

definition HelpMsg :: string where
  "HelpMsg = ''Calling sequence:'' @ nl # nl # ''  finddup [options] list'' @ nl # nl #
     ''where list is a list of files to check, such as generated'' @ nl #
     ''by '' @ [CHR 0x22] @ ''find . -type f -print > file'' @ [CHR 0x22] @ nl # nl # ''Options:'' @ nl #
     ''  -l - don'' @ [CHR 0x27] @ ''t list hard links'' @ [nl]"

fun options_loop :: "(int \<times> string) list \<Rightarrow> bool \<Rightarrow> bool \<times> (int \<times> string) option" where
  "options_loop [] lf = (lf, None)"
| "options_loop ((ch, nm) # r) lf =
     (if ch = 0 then
        (if nm = ''no-links'' then options_loop r False
         else if nm = ''help'' then (lf, Some (0, HelpMsg))
         else options_loop r False)
      else if ch = c_char (CHR ''l'') then options_loop r False
      else if ch = c_char (CHR ''h'') then (lf, Some (0, HelpMsg))
      else if ch = c_char (CHR ''?'') then (lf, Some (1, HelpMsg))
      else (lf, Some (1, [])))"

text \<open>\<open>opts\<close> are the results of \<open>getopt_long\<close>, \<open>args\<close> what is left of the command line after them.\<close>

definition finddup_main :: "fs_env \<Rightarrow> (string \<Rightarrow> bool) \<Rightarrow> (int \<times> string) list \<Rightarrow> string list \<Rightarrow>
    (int \<times> string) outcome" where
  "finddup_main E can_open opts args = (case options_loop opts True of
     (lf, Some r) \<Rightarrow> Inr r
   | (lf, None) \<Rightarrow>
       if length args \<noteq> 1 then Inr (1, [])
       else if \<not> can_open (args ! 0) then Inr (1, [])
       else obind (build_loop E 0 (names E) \<lparr>filelist = replicate 50 zero_desc, n_files = 0, linkflag = lf,
              zl_hdr = True, outp = [], crc_st = crc_static_init\<rparr>) (\<lambda>s0.
            obind (scan1 E (SORT E s0)) (\<lambda>s1. obind (scan2 E s1) (\<lambda>s2. obind (scan3 E s2) (\<lambda>s3.
              Inr (0, outp s3))))))"

subsection \<open>What the scans keep\<close>

text \<open>An entry but for its flags; the entries of a list as a multiset.\<close>

definition core :: "filedesc \<Rightarrow> filedesc" where
  "core e = e\<lparr>flags := 0\<rparr>"

definition cores :: "filedesc list \<Rightarrow> filedesc multiset" where
  "cores fl = mset (map core fl)"

lemma core_set_flag [simp]: "core (set_flag f e) = core e"
  by (simp add: core_def set_flag_def)

lemma set_flag_fields [simp]:
  "flength (set_flag f e) = flength e" "crc32 (set_flag f e) = crc32 e" "device (set_flag f e) = device e"
  "inode (set_flag f e) = inode e" "nameloc (set_flag f e) = nameloc e"
  by (simp_all add: set_flag_def)

lemma has_set_flag [simp]:
  "has_flag FL_DUP (set_flag FL_LNK e) = has_flag FL_DUP e" "has_flag FL_LNK (set_flag FL_DUP e) = has_flag FL_LNK e"
  "has_flag FL_DUP (set_flag FL_DUP e)" "has_flag FL_LNK (set_flag FL_LNK e)"
  by (simp_all add: has_flag_def set_flag_def fl_consts bit.conj_disj_distrib2)

lemma getfn_set_flag [simp]: "getfn E (set_flag f e) = getfn E e"
  by (simp add: getfn_def)

lemma fullcmp_set_flag [simp]: "fullcmp E e1 (set_flag f e2) = fullcmp E e1 e2"
  by (simp add: fullcmp_def cong: option.case_cong)

lemma entry_Inr: "entry fl i = Inr e \<longleftrightarrow> i < length fl \<and> e = fl ! i"
  by (auto simp: entry_def)

lemma cores_update: "i < length fl \<Longrightarrow> core x = core (fl ! i) \<Longrightarrow> cores (fl[i := x]) = cores fl"
proof -
  assume a: "i < length fl" "core x = core (fl ! i)"
  have "(map core fl)[i := core (fl ! i)] = map core fl" using a(1) by (metis list_update_id nth_map)
  then show ?thesis using a(2) by (simp add: cores_def map_update del: mset_map)
qed

lemma pair_cores:
  assumes "i < length fl" and "j < length fl" and "i \<noteq> j"
  shows "{#core (fl ! i), core (fl ! j)#} \<subseteq># cores fl"
proof -
  have "mset_set {i, j} \<subseteq># mset_set {0..<length fl}"
    using assms by (intro subset_imp_msubset_mset_set) auto
  then have "image_mset (\<lambda>k. core (fl ! k)) (mset_set {i, j}) \<subseteq># image_mset (\<lambda>k. core (fl ! k)) (mset [0..<length fl])"
    by (intro image_mset_subseteq_mono) simp
  moreover have "image_mset (\<lambda>k. core (fl ! k)) (mset [0..<length fl]) = cores fl"
    by (metis (no_types, lifting) cores_def map_map map_nth mset_map o_def map_eq_conv)
  ultimately show ?thesis using assms(3) by simp
qed

lemma shift_loop_length [simp]: "length (shift_loop k n1 fl) = length fl"
  by (induction k n1 fl rule: shift_loop.induct) simp_all

lemma shift_loop_nth:
  "k \<le> n1 \<Longrightarrow> n1 < length fl \<Longrightarrow> j < length fl \<Longrightarrow>
   shift_loop k n1 fl ! j = (if n1 - k < j \<and> j \<le> n1 then fl ! (j - 1) else fl ! j)"
  by (induction k n1 fl rule: shift_loop.induct) (auto simp: nth_list_update)

lemma move_up_list:
  assumes "l \<le> i" and "i < length fl"
  shows "move_up l i fl = take l fl @ [fl ! i] @ take (i - l) (drop l fl) @ drop (i + 1) fl"
proof (rule nth_equalityI)
  show "length (move_up l i fl) = length (take l fl @ [fl ! i] @ take (i - l) (drop l fl) @ drop (i + 1) fl)"
    using assms by (simp add: move_up_def Let_def)
  fix j assume "j < length (move_up l i fl)"
  then have j: "j < length fl" by (simp add: move_up_def Let_def)
  then show "move_up l i fl ! j = (take l fl @ [fl ! i] @ take (i - l) (drop l fl) @ drop (i + 1) fl) ! j"
    using assms shift_loop_nth [of "i - l" i fl j]
    by (auto simp: move_up_def Let_def nth_append nth_list_update min_def)
qed

lemma move_up_mset: "l \<le> i \<Longrightarrow> i < length fl \<Longrightarrow> mset (move_up l i fl) = mset fl"
proof -
  assume a: "l \<le> i" "i < length fl"
  have t: "take i fl = take l fl @ take (i - l) (drop l fl)" using a take_add [of l "i - l" fl] by simp
  have d: "drop i fl = fl ! i # drop (i + 1) fl" using a by (simp add: Cons_nth_drop_Suc)
  have "mset fl = mset (take i fl) + mset (drop i fl)" unfolding mset_append [symmetric] by simp
  then show ?thesis using a unfolding t d by (simp add: move_up_list)
qed

lemma move_up_facts:
  assumes "l \<le> i" and "i < length fl"
  shows "length (move_up l i fl) = length fl" "set (move_up l i fl) = set fl" "cores (move_up l i fl) = cores fl"
  by (rule mset_eq_length [OF move_up_mset [OF assms]], rule mset_eq_setD [OF move_up_mset [OF assms]],
      simp add: cores_def move_up_mset [OF assms])

text \<open>
  What a flag promises, over the multiset \<open>M\<close> of all entries: a duplicate has another entry of the same
  length and checksum with which \<open>fullcmp\<close> found no difference (or it is a link), a link another entry
  of the same device and inode.
\<close>

definition sound :: "fs_env \<Rightarrow> filedesc multiset \<Rightarrow> filedesc \<Rightarrow> bool" where
  "sound E M e \<longleftrightarrow>
     (has_flag FL_DUP e \<longrightarrow> (\<exists>p. {#core p, core e#} \<subseteq># M \<and> flength p = flength e \<and> crc32 p = crc32 e
        \<and> (has_flag FL_LNK e \<or> fullcmp E p e = Inr 0)))
     \<and> (has_flag FL_LNK e \<longrightarrow> (\<exists>p. {#core p, core e#} \<subseteq># M \<and> device p = device e \<and> inode p = inode e))"

definition readable :: "fs_env \<Rightarrow> filedesc \<Rightarrow> bool" where
  "readable E e \<longleftrightarrow> (\<exists>f. getfn E e = Inr f \<and> content E f \<noteq> None)"

definition scan_inv :: "fs_env \<Rightarrow> filedesc multiset \<Rightarrow> nat \<Rightarrow> filedesc list \<Rightarrow> bool" where
  "scan_inv E M n fl \<longleftrightarrow> n \<le> length fl \<and> cores fl = M \<and> (\<forall>e \<in> set fl. sound E M e)
     \<and> (\<forall>e \<in> set (take n fl). readable E e)"

lemma readable_core: "core x = core y \<Longrightarrow> readable E x = readable E y"
proof -
  assume "core x = core y"
  then have "nameloc (core x) = nameloc (core y)" by simp
  then have "nameloc x = nameloc y" by (simp add: core_def)
  then show ?thesis by (simp add: readable_def getfn_def)
qed

lemma readable_nth: "scan_inv E M n fl \<Longrightarrow> i < n \<Longrightarrow> readable E (fl ! i)"
proof -
  assume a: "scan_inv E M n fl" "i < n"
  then have "take n fl ! i \<in> set (take n fl)" by (intro nth_mem) (simp add: scan_inv_def)
  then show ?thesis using a by (auto simp: scan_inv_def)
qed

lemma fullcmp_readable: "readable E x \<Longrightarrow> readable E y \<Longrightarrow> \<exists>r. fullcmp E x y = Inr r"
  by (auto simp: readable_def fullcmp_def)

lemma sound_link:
  "sound E M e \<Longrightarrow> {#core p, core e#} \<subseteq># M \<Longrightarrow> device p = device e \<Longrightarrow> inode p = inode e \<Longrightarrow>
   sound E M (set_flag FL_LNK e)"
  by (auto simp: sound_def)

lemma sound_dup:
  "sound E M e \<Longrightarrow> {#core p, core e#} \<subseteq># M \<Longrightarrow> flength p = flength e \<Longrightarrow> crc32 p = crc32 e \<Longrightarrow>
   has_flag FL_LNK e \<or> fullcmp E p e = Inr 0 \<Longrightarrow> sound E M (set_flag FL_DUP e)"
  by (auto simp: sound_def)

lemma scan_inv_update:
  assumes "scan_inv E M n fl" and "i < n" and "core x = core (fl ! i)" and "sound E M x"
  shows "scan_inv E M n (fl[i := x])"
proof -
  have "readable E x" using readable_core [OF assms(3)] readable_nth [OF assms(1,2)] by simp
  moreover have "take n (fl[i := x]) = (take n fl)[i := x]" by (rule take_update_swap)
  ultimately show ?thesis
    using assms set_update_subset_insert [of fl i x] set_update_subset_insert [of "take n fl" i x]
    by (auto simp: scan_inv_def cores_update)
qed

lemma scan_inv_link:
  assumes "scan_inv E M n fl" and "i < n" and "j < n" and "i \<noteq> j"
    and "device (fl ! i) = device (fl ! j)" and "inode (fl ! i) = inode (fl ! j)"
  shows "scan_inv E M n (fl[j := set_flag FL_LNK (fl ! j)])"
proof (rule scan_inv_update [OF assms(1,3)])
  have "sound E M (fl ! j)" "{#core (fl ! i), core (fl ! j)#} \<subseteq># M"
    using assms pair_cores [of i fl j] by (auto simp: scan_inv_def)
  then show "sound E M (set_flag FL_LNK (fl ! j))" using assms(5,6) by (rule sound_link)
qed simp

lemma scan_inv_dup:
  assumes "scan_inv E M n fl" and "i < n" and "j < n" and "i \<noteq> j"
    and "flength (fl ! i) = flength (fl ! j)" and "crc32 (fl ! i) = crc32 (fl ! j)"
    and "has_flag FL_LNK (fl ! j) \<or> fullcmp E (fl ! i) (fl ! j) = Inr 0"
  shows "scan_inv E M n (fl[j := set_flag FL_DUP (fl ! j)])"
proof (rule scan_inv_update [OF assms(1,3)])
  have "sound E M (fl ! j)" "{#core (fl ! i), core (fl ! j)#} \<subseteq># M"
    using assms pair_cores [of i fl j] by (auto simp: scan_inv_def)
  then show "sound E M (set_flag FL_DUP (fl ! j))" using assms(5-7) by (rule sound_dup)
qed simp

lemma move_up_take:
  "l \<le> i \<Longrightarrow> i < n \<Longrightarrow> n \<le> length fl \<Longrightarrow> take n (move_up l i fl) = move_up l i (take n fl)"
  by (cases "n - Suc l = i - l") (auto simp: move_up_list min_def drop_take take_Cons')

lemma scan_inv_move:
  assumes "scan_inv E M n fl" and "l \<le> i" and "i < n"
  shows "scan_inv E M n (move_up l i fl)"
proof -
  have n: "n \<le> length fl" "i < length fl" using assms by (auto simp: scan_inv_def)
  then have "set (take n (move_up l i fl)) = set (take n fl)"
    using assms(2,3) by (simp add: move_up_take move_up_facts)
  then show ?thesis using assms n by (simp add: scan_inv_def move_up_facts)
qed

lemma link_inner_total:
  assumes "scan_inv E M n (filelist s)" and "ix < ix2" and "ix2 + k \<le> n" and "p1 = filelist s ! ix"
  shows "\<exists>ix' nh' s'. link_inner E p1 k ix2 im nh s = Inr (ix', nh', s') \<and> scan_inv E M n (filelist s')
    \<and> n_files s' = n_files s \<and> linkflag s' = linkflag s \<and> ix2 \<le> ix' \<and> ix' \<le> n
    \<and> length (filelist s') = length (filelist s)"
  using assms
proof (induction k arbitrary: ix2 im nh s)
  case (Suc k)
  have en: "entry (filelist s) ix2 = Inr (filelist s ! ix2)"
    using Suc.prems(1-3) by (simp add: entry_def scan_inv_def)
  have lt: "ix < n" "ix2 < n" using Suc.prems(2,3) by simp_all
  obtain f1 where f1: "getfn E p1 = Inr f1"
    using readable_nth [OF Suc.prems(1) lt(1)] Suc.prems(4) by (auto simp: readable_def)
  obtain f2 where f2: "getfn E (filelist s ! ix2) = Inr f2"
    using readable_nth [OF Suc.prems(1) lt(2)] by (auto simp: readable_def)
  show ?case
  proof (cases "device p1 = device (filelist s ! ix2) \<and> inode p1 = inode (filelist s ! ix2)")
    case False
    then show ?thesis using Suc.prems en by auto
  next
    case True
    let ?fl = "(filelist s)[ix2 := set_flag FL_LNK (filelist s ! ix2)]"
    have iv: "scan_inv E M n ?fl"
      using scan_inv_link [OF Suc.prems(1) lt] True Suc.prems(2,4) by simp
    have "\<exists>im1 nh1 s1. link_inner E p1 (Suc k) ix2 im nh s = link_inner E p1 k (ix2 + 1) im1 nh1 s1
        \<and> filelist s1 = ?fl \<and> n_files s1 = n_files s \<and> linkflag s1 = linkflag s"
      using True en f1 f2 by (cases "linkflag s") (force simp: Let_def)+
    then obtain im1 nh1 s1 where r: "link_inner E p1 (Suc k) ix2 im nh s = link_inner E p1 k (ix2 + 1) im1 nh1 s1"
      and f: "filelist s1 = ?fl" "n_files s1 = n_files s" "linkflag s1 = linkflag s" by blast
    have p: "p1 = filelist s1 ! ix" and iv1: "scan_inv E M n (filelist s1)" using Suc.prems(2,4) iv f by simp_all
    from Suc.IH [OF iv1 _ _ p, of "ix2 + 1" im1 nh1] Suc.prems(2,3) f show ?thesis unfolding r by auto
  qed
qed auto

lemma link_outer_total:
  "scan_inv E M n (filelist s) \<Longrightarrow> n_files s = n \<Longrightarrow> n - ix \<le> fuel \<Longrightarrow>
   \<exists>s'. link_outer fuel E ix nh s = Inr s' \<and> scan_inv E M n (filelist s') \<and> n_files s' = n
     \<and> linkflag s' = linkflag s \<and> length (filelist s') = length (filelist s)"
proof (induction fuel arbitrary: ix nh s)
  case (Suc fuel)
  show ?case
  proof (cases "ix < n")
    case True
    then have en: "entry (filelist s) ix = Inr (filelist s ! ix)"
      using Suc.prems(1) by (simp add: entry_def scan_inv_def)
    from link_inner_total [OF Suc.prems(1), of ix "ix + 1" "n - (ix + 1)" _ False nh] True
    obtain ix' nh' s1 where r: "link_inner E (filelist s ! ix) (n - (ix + 1)) (ix + 1) False nh s = Inr (ix', nh', s1)"
      and k: "scan_inv E M n (filelist s1)" "n_files s1 = n_files s" "linkflag s1 = linkflag s" "ix + 1 \<le> ix'"
        "length (filelist s1) = length (filelist s)" by auto
    have "n - ix' \<le> fuel" using k(4) Suc.prems(3) by simp
    from Suc.IH [OF k(1) _ this, of nh'] k Suc.prems(2) show ?thesis using True en r by simp
  next
    case False
    then show ?thesis using Suc.prems by simp
  qed
qed simp

lemma dup_inner_total:
  assumes "scan_inv E M n fl" and "ix < l" and "l \<le> ix2" and "ix2 + k \<le> n"
  shows "\<exists>l' fl'. dup_inner E ix k l ix2 lm fl = Inr (l', fl') \<and> scan_inv E M n fl' \<and> l \<le> l' \<and> l' \<le> ix2 + k
    \<and> length fl' = length fl"
  using assms
proof (induction k arbitrary: l ix2 lm fl)
  case (Suc k)
  have lt: "ix < n" "ix2 < n" "ix2 < length fl" "ix < length fl" using Suc.prems by (auto simp: scan_inv_def)
  then have en: "entry fl ix = Inr (fl ! ix)" "entry fl ix2 = Inr (fl ! ix2)" by (simp_all add: entry_def)
  obtain r where r: "fullcmp E (fl ! ix) (fl ! ix2) = Inr r"
    using fullcmp_readable readable_nth Suc.prems(1) lt by blast
  let ?p = "fl ! ix" and ?q = "fl ! ix2"
  let ?fl1 = "fl[ix2 := set_flag FL_DUP ?q]"
  show ?case
  proof (cases "flength ?p = flength ?q \<and> crc32 ?p = crc32 ?q")
    case e: True
    show ?thesis
    proof (cases "(has_flag FL_LNK ?q \<and> lm) \<or> r = 0")
      case True
      then have same: "obind (if has_flag FL_LNK ?q \<and> lm then Inr True
          else obind (fullcmp E ?p ?q) (\<lambda>r. Inr (r = 0))) g = g True" for g :: "bool \<Rightarrow> 'z outcome"
        using r by auto
      have iv: "scan_inv E M n ?fl1"
        using scan_inv_dup [OF Suc.prems(1) lt(1,2)] e True r Suc.prems(2,3) by auto
      show ?thesis
      proof (cases "l = ix2")
        case True
        then show ?thesis using Suc.IH [OF iv Suc.prems(2), of "ix2 + 1" True] Suc.prems(3,4) en e
          by (auto simp: same)
      next
        case False
        have "scan_inv E M n (move_up l ix2 ?fl1)" using iv Suc.prems(3) lt(2) by (rule scan_inv_move)
        then show ?thesis
          using Suc.IH [of "move_up l ix2 ?fl1" "l + 1" "ix2 + 1" True] Suc.prems(2-4) False en e lt
          by (auto simp: same move_up_facts)
      qed
    next
      case False
      then have same: "obind (if has_flag FL_LNK ?q \<and> lm then Inr True
          else obind (fullcmp E ?p ?q) (\<lambda>r. Inr (r = 0))) g = g False" for g :: "bool \<Rightarrow> (nat \<times> filedesc list) outcome"
        using r by auto
      show ?thesis using Suc.IH [OF Suc.prems(1,2), of "ix2 + 1" False] Suc.prems(3,4) en e by (auto simp: same)
    qed
  next
    case False
    then show ?thesis using Suc.prems en by auto
  qed
qed auto

lemma dup_outer_total:
  "scan_inv E M n fl \<Longrightarrow> n - ix \<le> fuel \<Longrightarrow>
   \<exists>fl'. dup_outer fuel E n ix fl = Inr fl' \<and> scan_inv E M n fl' \<and> length fl' = length fl"
proof (induction fuel arbitrary: ix fl)
  case (Suc fuel)
  show ?case
  proof (cases "ix < n")
    case True
    with dup_inner_total [OF Suc.prems(1), of ix "ix + 1" "ix + 1" "n - (ix + 1)" True] obtain l' fl'
      where r: "dup_inner E ix (n - (ix + 1)) (ix + 1) (ix + 1) True fl = Inr (l', fl')" "scan_inv E M n fl'"
        "ix + 1 \<le> l'" "length fl' = length fl" by auto
    have "n - l' \<le> fuel" using r(3) Suc.prems(2) by simp
    from Suc.IH [OF r(2) this] r True show ?thesis by simp
  next
    case False
    then show ?thesis using Suc.prems by simp
  qed
qed simp

lemma sound_unflagged: "\<not> has_flag FL_DUP e \<Longrightarrow> \<not> has_flag FL_LNK e \<Longrightarrow> sound E M e"
  by (simp add: sound_def)


definition demo_desc :: "nat \<Rightarrow> 64 word \<Rightarrow> filedesc" where
  "demo_desc loc i = \<lparr>flength = 2, crc32 = 7, device = 1, inode = i, nameloc = loc, flags = 1\<rparr>"

definition demo_fs_env :: fs_env where
  "demo_fs_env = \<lparr>names = ''a'' @ [nl] @ ''b'' @ [nl], lstat = (\<lambda>f. None),
     content = (\<lambda>f. if f = ''a'' \<or> f = ''b'' then Some [104, 105] else None),
     qsort = (\<lambda>c xs. xs), fresh_mem = (\<lambda>n. None)\<rparr>"

definition demo_fd :: fd_state where
  "demo_fd = \<lparr>filelist = [demo_desc 0 3, demo_desc 2 4], n_files = 2, linkflag = True, zl_hdr = True,
     outp = [], crc_st = crc_static_init\<rparr>"

lemma demo_getfn: "getfn demo_fs_env (demo_desc 0 i) = Inr ''a''" "getfn demo_fs_env (demo_desc 2 i) = Inr ''b''"
  by (simp_all add: getfn_def demo_fs_env_def demo_desc_def getline_def Let_def chop_def nl_def)


subsection \<open>The comparisons\<close>

lemma byte_sint: "sint (b :: byte) = (if b < 0x80 then uint b else uint b - 256)"
proof -
  have m: "uint b = sint b mod 256" by (simp add: uint_sint take_bit_eq_mod)
  have r: "- 128 \<le> sint b" "sint b < 128" using sint_ge [of b] sint_lt [of b] by simp_all
  have u: "b < 0x80 \<longleftrightarrow> uint b < 128" by (simp add: word_less_def)
  from m r have "sint b = (if uint b < 128 then uint b else uint b - 256)" by presburger
  then show ?thesis by (simp only: u)
qed

lemma byte_uint: "0 \<le> uint (b :: byte)" "uint b < 256"
  using uint_lt2p [of b] by simp_all

text \<open>What \<open>fullcmp\<close> decides: the ASCII part of the first file must start the second, and end the first
  file or be followed by a byte FF.\<close>

definition ascii :: "byte \<Rightarrow> bool" where
  "ascii b \<longleftrightarrow> b < 0x80"

definition looks_equal :: "byte list \<Rightarrow> byte list \<Rightarrow> bool" where
  "looks_equal s t \<longleftrightarrow> prefix (takeWhile ascii s) t
     \<and> (dropWhile ascii s = [] \<or> hd (dropWhile ascii s) = 0xFF)"

lemma cmp_loop_spec: "cmp_loop s t = -1 \<longleftrightarrow> looks_equal s t"
proof (induction s arbitrary: t)
  case Nil
  then show ?case by (simp add: looks_equal_def)
next
  case (Cons b s)
  show ?case
  proof (cases "ascii b")
    case True
    then have ch: "sint b = uint b" by (simp add: byte_sint ascii_def)
    show ?thesis
    proof (cases t)
      case Nil
      have "uint b \<noteq> -1" using byte_uint(1) [of b] by linarith
      then show ?thesis using True Nil by (simp add: looks_equal_def ch Let_def)
    next
      case (Cons c u)
      have e: "uint b - uint c \<noteq> 0 \<longleftrightarrow> b \<noteq> c" by (simp add: word_uint_eq_iff)
      have m: "uint b \<noteq> -1" using byte_uint(1) [of b] by linarith
      have "cmp_loop (b # s) t = (if b \<noteq> c then uint b else cmp_loop s u)"
        unfolding cmp_loop.simps Let_def ch Cons list.case e using m by (simp only: if_False list.sel)
      then show ?thesis using True m Cons.IH [of u] Cons by (simp add: looks_equal_def)
    qed
  next
    case False
    then have ch: "sint b = uint b - 256" by (simp add: byte_sint ascii_def)
    have ff: "b = 0xFF \<longleftrightarrow> uint b = 255" by (simp add: word_uint_eq_iff)
    have d: "-1 \<le> (case t of [] \<Rightarrow> -1 | c # _ \<Rightarrow> uint c)"
      using byte_uint by (auto split: list.split intro: order_trans [of "-1" 0])
    show ?thesis using False byte_uint [of b] d ff by (auto simp: looks_equal_def ch Let_def)
  qed
qed



text \<open>
  The comparison function of the sort: between entries whose lengths, checksums, devices and inodes
  differ by less than 2^31 it is the lexicographic order of the four; but it is not an order: with
  checksums further apart it goes round in a circle, and lengths 2^32 apart are not told apart.
\<close>

theorem comp1_spec:
  assumes "flength p - flength q \<in> {-(2 ^ 31) <..< 2 ^ 31}" and "uint (crc32 p) < 2 ^ 31" and "uint (crc32 q) < 2 ^ 31"
    and "uint (device p) < 2 ^ 31" and "uint (device q) < 2 ^ 31"
    and "uint (inode p) < 2 ^ 31" and "uint (inode q) < 2 ^ 31"
  shows "(comp1 p q < 0 \<longleftrightarrow> (flength p, uint (crc32 p), uint (device p), uint (inode p))
           < (flength q, uint (crc32 q), uint (device q), uint (inode q)))
    \<and> (comp1 p q = 0 \<longleftrightarrow> flength p = flength q \<and> crc32 p = crc32 q \<and> device p = device q \<and> inode p = inode q)
    \<and> comp1 (p\<lparr>crc32 := 0\<rparr>) (p\<lparr>crc32 := 0x60000000\<rparr>) < 0
    \<and> comp1 (p\<lparr>crc32 := 0x60000000\<rparr>) (p\<lparr>crc32 := 0xC0000000\<rparr>) < 0
    \<and> comp1 (p\<lparr>crc32 := 0xC0000000\<rparr>) (p\<lparr>crc32 := 0\<rparr>) < 0
    \<and> comp1 p (p\<lparr>flength := flength p + 2 ^ 32\<rparr>) = 0"
proof -
  have w: "wrap32 (uint (a - b)) = uint a - uint b" if "uint a < 2 ^ 31" "uint b < 2 ^ 31" for a b :: "64 word"
  proof -
    have "uint (a - b) = (uint a - uint b) mod 2 ^ 64" by (simp add: uint_word_ariths)
    then have "(uint (a - b) + 2 ^ 31) mod 2 ^ 32 = ((uint a - uint b) mod 2 ^ 64 mod 2 ^ 32 + 2 ^ 31) mod 2 ^ 32"
      by (simp only: mod_add_left_eq)
    also have "(uint a - uint b) mod 2 ^ 64 mod 2 ^ 32 = (uint a - uint b) mod 2 ^ 32"
      by (rule mod_mod_cancel) simp
    also have "((uint a - uint b) mod 2 ^ 32 + 2 ^ 31) mod 2 ^ 32 = (uint a - uint b + 2 ^ 31) mod 2 ^ 32"
      by (simp only: mod_add_left_eq)
    also have "\<dots> = uint a - uint b + 2 ^ 31"
    proof (rule mod_pos_pos_trivial)
      show "0 \<le> uint a - uint b + 2 ^ 31" using that(2) uint_ge_0 [of a] by linarith
      have "uint a - uint b + 2 ^ 31 < 2 ^ 31 + 2 ^ 31" using that(1) uint_ge_0 [of b] by linarith
      then show "uint a - uint b + 2 ^ 31 < 2 ^ 32" by simp
    qed
    finally show ?thesis by (simp add: wrap32_def)
  qed
  have l: "wrap32 (flength p - flength q) = flength p - flength q"
    using assms(1) by (intro wrap32_id) auto
  note e = word_uint_eq_iff
  have c: "wrap32 (uint (0 - 0x60000000 :: 64 word)) = - 0x60000000"
    "wrap32 (uint (0x60000000 - 0xC0000000 :: 64 word)) = - 0x60000000"
    "wrap32 (uint (0xC0000000 - 0 :: 64 word)) = - 0x40000000" "wrap32 0 = 0" "wrap32 (- (2 ^ 32)) = 0"
    by (simp_all add: wrap32_def)
  show ?thesis
    using c l w [OF assms(2,3)] w [OF assms(4,5)] w [OF assms(6,7)]
    by (auto simp: comp1_def Let_def e less_prod_def)
qed

theorem comp1_spec_witness: "comp1 (demo_desc 0 3) (demo_desc 2 4) < 0"
  using comp1_spec [of "demo_desc 0 3" "demo_desc 2 4"] by (simp add: demo_desc_def)

subsection \<open>The checksum of a file\<close>

definition is_line :: "byte list \<Rightarrow> bool" where
  "is_line l \<longleftrightarrow> l \<noteq> [] \<and> last l = 10 \<and> 10 \<notin> set (butlast l)"

definition line_crc :: "byte list \<Rightarrow> 32 word" where
  "line_crc l = crc_serial 0 (takeWhile (\<lambda>b. b \<noteq> 0) l)"

lemma getline_line: "is_line l \<Longrightarrow> getline 10 (l @ r) = Some (l, r)"
proof -
  assume a: "is_line l"
  then have "l = butlast l @ [10]" unfolding is_line_def by (metis append_butlast_last_id)
  then obtain m where l: "l = m @ [10]" and m: "10 \<notin> set m" using a by (metis butlast_snoc is_line_def)
  have "takeWhile (\<lambda>c. c \<noteq> 10) (m @ 10 # r) = m" using m by (subst takeWhile_append2) auto
  then show ?thesis by (simp add: getline_def Let_def l)
qed

lemma crc_lines_sum:
  "list_all is_line ls \<Longrightarrow> static_ok cs \<Longrightarrow>
   fst (crc_lines (concat ls) acc cs) = acc + sum_list (map line_crc ls)"
proof (induction ls arbitrary: acc cs)
  case Nil
  show ?case by (subst crc_lines.simps) (simp add: getline_def)
next
  case (Cons l ls)
  obtain cs' where 1: "rc_crc32 0 (takeWhile (\<lambda>b. b \<noteq> 0) l) cs = (line_crc l, cs')" "static_ok cs'"
    using rc_crc32_run [OF Cons.prems(2), of 0 "takeWhile (\<lambda>b. b \<noteq> 0) l"]
    by (auto simp: line_crc_def crc_serial_def foldl_serial)
  have "crc_lines (concat (l # ls)) acc cs = crc_lines (concat ls) (acc + line_crc l) cs'"
    using Cons.prems(1) by (subst crc_lines.simps) (simp add: getline_line 1(1))
  then show ?case using Cons.IH [OF _ 1(2), of "acc + line_crc l"] Cons.prems(1) by (simp add: add.assoc)
qed

text \<open>
  The checksum of a readable file of whole lines is the sum modulo 2^32 of the CRCs of its lines (each
  up to its first zero byte). So it is not the CRC of the file: two files with the same lines in a
  different order always get the same checksum, and only \<open>fullcmp\<close> tells them apart.
\<close>

theorem get_crc_lines:
  assumes "static_ok cs" and "getfn E e1 = Inr f1" and "getfn E e2 = Inr f2"
    and "content E f1 = Some (concat ls)" and "content E f2 = Some (concat ks)"
    and "list_all is_line ls" and "mset ls = mset ks"
  shows "\<exists>cs1 cs2. get_crc E e1 cs = Inr (ucast (sum_list (map line_crc ls)), cs1)
    \<and> get_crc E e2 cs = Inr (ucast (sum_list (map line_crc ls)), cs2)"
proof -
  have k: "list_all is_line ks" using assms(6,7) by (metis list_all_iff mset_eq_setD)
  have "sum_list (map line_crc ls) = sum_list (map line_crc ks)"
    using assms(7) by (metis mset_map sum_mset_sum_list)
  then have "fst (crc_lines (concat ls) 0 cs) = sum_list (map line_crc ls)"
    "fst (crc_lines (concat ks) 0 cs) = sum_list (map line_crc ls)"
    using crc_lines_sum [OF assms(6,1), of 0] crc_lines_sum [OF k assms(1), of 0] by simp_all
  then show ?thesis using assms(2-5)
    by (cases "crc_lines (concat ls) 0 cs"; cases "crc_lines (concat ks) 0 cs") (simp add: get_crc_def)
qed

theorem get_crc_lines_witness:
  "\<exists>c cs1 cs2. get_crc (demo_fs_env\<lparr>content := [''a'' \<mapsto> [104, 10, 105, 10], ''b'' \<mapsto> [105, 10, 104, 10]]\<rparr>)
       (demo_desc 0 3) crc_static_init = Inr (c, cs1)
     \<and> get_crc (demo_fs_env\<lparr>content := [''a'' \<mapsto> [104, 10, 105, 10], ''b'' \<mapsto> [105, 10, 104, 10]]\<rparr>)
       (demo_desc 2 4) crc_static_init = Inr (c, cs2)"
proof -
  let ?E = "demo_fs_env\<lparr>content := [''a'' \<mapsto> [104, 10, 105, 10], ''b'' \<mapsto> [105, 10, 104, 10 :: byte]]\<rparr>"
  have g: "getfn ?E (demo_desc 0 3) = Inr ''a''" "getfn ?E (demo_desc 2 4) = Inr ''b''"
    using demo_getfn by (simp_all add: getfn_def)
  have c: "content ?E ''a'' = Some (concat [[104, 10], [105, 10]])"
    "content ?E ''b'' = Some (concat [[105, 10], [104, 10]])" by simp_all
  from get_crc_lines [OF static_init_ok g c] show ?thesis by (auto simp: is_line_def)
qed

end
