(* ===== verification/FinddupMain.thy ===== *)
theory FinddupMain
  imports Finddup
begin

section \<open>A whole run of the duplicate finder\<close>

text \<open>
  \<open>finddup_main\<close> (theory \<open>Finddup\<close>) on a list of readable files: every phase ends without a fault, and the
  run exits with status 0.
\<close>

subsection \<open>The vector between the phases\<close>

text \<open>An entry as the build loop and \<open>scan1\<close> make it, and a vector with such entries and spare room.\<close>

definition stored :: "fs_env \<Rightarrow> filedesc \<Rightarrow> bool" where
  "stored E e \<longleftrightarrow> readable E e \<and> flength e \<noteq> 0 \<and> \<not> has_flag FL_DUP e \<and> \<not> has_flag FL_LNK e"

definition vec_ok :: "fs_env \<Rightarrow> fd_state \<Rightarrow> bool" where
  "vec_ok E s \<longleftrightarrow> n_files s < length (filelist s)
     \<and> (\<forall>e \<in> set (take (n_files s) (filelist s)). stored E e)
     \<and> (\<forall>e \<in> set (drop (n_files s) (filelist s)). e = zero_desc)"

lemma vec_ok_nth:
  assumes "vec_ok E s"
  shows "i < n_files s \<Longrightarrow> stored E (filelist s ! i)"
    and "n_files s \<le> i \<Longrightarrow> i < length (filelist s) \<Longrightarrow> filelist s ! i = zero_desc"
proof -
  have n: "n_files s < length (filelist s)" using assms by (simp add: vec_ok_def)
  show "i < n_files s \<Longrightarrow> stored E (filelist s ! i)"
    using assms n nth_mem [of i "take (n_files s) (filelist s)"] by (auto simp: vec_ok_def)
  show "n_files s \<le> i \<Longrightarrow> i < length (filelist s) \<Longrightarrow> filelist s ! i = zero_desc"
    using assms n nth_mem [of "i - n_files s" "drop (n_files s) (filelist s)"] by (auto simp: vec_ok_def)
qed

lemma vec_ok_sort:
  assumes "vec_ok E s" and q: "\<And>c xs. mset (qsort E c xs) = mset xs"
  shows "vec_ok E (SORT E s)" and "n_files (SORT E s) = n_files s"
proof -
  let ?q = "qsort E comp1 (take (n_files s) (filelist s))"
  have "length ?q = length (take (n_files s) (filelist s))" by (rule mset_eq_length [OF q])
  then have l: "length ?q = n_files s" using assms(1) by (simp add: vec_ok_def)
  have "set ?q = set (take (n_files s) (filelist s))" by (rule mset_eq_setD [OF q])
  then show "vec_ok E (SORT E s)" using assms(1) l by (auto simp: vec_ok_def SORT_def)
qed (simp add: SORT_def)

lemma zero_desc_flags: "\<not> has_flag FL_DUP zero_desc" "\<not> has_flag FL_LNK zero_desc" "flength zero_desc = 0"
  by (simp_all add: zero_desc_def has_flag_def)

lemma crc_flag [simp]: "has_flag FL_DUP (set_flag FL_CRC e) = has_flag FL_DUP e"
  "has_flag FL_LNK (set_flag FL_CRC e) = has_flag FL_LNK e"
  by (simp_all add: has_flag_def set_flag_def fl_consts bit.conj_disj_distrib2)

subsection \<open>scan1\<close>

lemma stored_crc: "stored E e \<Longrightarrow> stored E (set_flag FL_CRC (e\<lparr>crc32 := c\<rparr>))"
  by (simp add: stored_def readable_def getfn_def) (simp add: has_flag_def)

lemma vec_ok_update:
  assumes "vec_ok E s" and "i < n_files s" and "stored E x"
  shows "vec_ok E (s\<lparr>filelist := (filelist s)[i := x], crc_st := cs\<rparr>)"
  using assms set_update_subset_insert [of "take (n_files s) (filelist s)" i x]
  by (auto simp: vec_ok_def take_update_swap)

lemma crc_entry_total:
  assumes "vec_ok E s" and "i < n_files s"
  shows "\<exists>s'. crc_entry E i s = Inr s' \<and> vec_ok E s' \<and> n_files s' = n_files s"
proof -
  let ?e = "filelist s ! i"
  have e: "stored E ?e" by (rule vec_ok_nth(1) [OF assms])
  have i: "entry (filelist s) i = Inr ?e" using assms by (simp add: entry_def vec_ok_def)
  show ?thesis
  proof (cases "has_flag FL_CRC ?e")
    case True
    then show ?thesis using assms i by (simp add: crc_entry_def)
  next
    case False
    from e obtain f bs where f: "getfn E ?e = Inr f" "content E f = Some bs" by (auto simp: stored_def readable_def)
    obtain c cs where c: "crc_lines bs 0 (crc_st s) = (c, cs)" by (cases "crc_lines bs 0 (crc_st s)")
    show ?thesis using False i f c vec_ok_update [OF assms stored_crc [OF e]] by (simp add: crc_entry_def get_crc_def)
  qed
qed

lemma scan1_loop_total:
  "vec_ok E s \<Longrightarrow> 1 \<le> ix \<Longrightarrow> ix + k = n_files s + 1 \<Longrightarrow>
   \<exists>b s'. scan1_loop E k ix needsort s = Inr (b, s') \<and> vec_ok E s' \<and> n_files s' = n_files s"
proof (induction k arbitrary: ix needsort s)
  case (Suc k)
  have n: "ix - 1 < n_files s" "ix \<le> n_files s" "n_files s < length (filelist s)" using Suc.prems by (auto simp: vec_ok_def)
  have e: "entry (filelist s) (ix - 1) = Inr (filelist s ! (ix - 1))" "entry (filelist s) ix = Inr (filelist s ! ix)"
    using n by (simp_all add: entry_def)
  show ?case
  proof (cases "flength (filelist s ! (ix - 1)) = flength (filelist s ! ix)")
    case False
    then show ?thesis using Suc.IH [of s "ix + 1" needsort] Suc.prems e by simp
  next
    case True
    have "flength (filelist s ! (ix - 1)) \<noteq> 0" using vec_ok_nth(1) [OF Suc.prems(1) n(1)] by (simp add: stored_def)
    then have "ix \<noteq> n_files s" using True vec_ok_nth(2) [OF Suc.prems(1), of ix] n zero_desc_flags(3) by auto
    then have ix: "ix < n_files s" using n(2) by simp
    obtain s1 where 1: "crc_entry E (ix - 1) s = Inr s1" "vec_ok E s1" "n_files s1 = n_files s"
      using crc_entry_total [OF Suc.prems(1) n(1)] by blast
    obtain s2 where 2: "crc_entry E ix s1 = Inr s2" "vec_ok E s2" "n_files s2 = n_files s"
      using crc_entry_total [OF 1(2), of ix] ix 1(3) by auto
    show ?thesis using Suc.IH [OF 2(2), of "ix + 1" True] Suc.prems e True 1(1) 2 by simp
  qed
qed simp

lemma scan1_total:
  assumes "vec_ok E s" and "\<And>c xs. mset (qsort E c xs) = mset xs"
  shows "\<exists>s'. scan1 E s = Inr s' \<and> vec_ok E s' \<and> n_files s' = n_files s"
proof -
  obtain b s1 where 1: "scan1_loop E (n_files s) 1 False s = Inr (b, s1)" "vec_ok E s1" "n_files s1 = n_files s"
    using scan1_loop_total [OF assms(1), of 1 "n_files s" False] by auto
  then show ?thesis using vec_ok_sort [OF 1(2) assms(2)] by (simp add: scan1_def)
qed

subsection \<open>scan2 and scan3\<close>

lemma scan2_total:
  assumes "vec_ok E s"
  shows "\<exists>s'. scan2 E s = Inr s' \<and> n_files s' = n_files s \<and> n_files s \<le> length (filelist s')
    \<and> (\<forall>i < n_files s. readable E (filelist s' ! i))"
proof -
  let ?M = "cores (filelist s)" and ?n = "n_files s"
  have fl: "filelist s = take ?n (filelist s) @ drop ?n (filelist s)" by simp
  have u: "\<not> has_flag FL_DUP e \<and> \<not> has_flag FL_LNK e" if "e \<in> set (filelist s)" for e
  proof -
    have "e \<in> set (take ?n (filelist s)) \<or> e \<in> set (drop ?n (filelist s))" using that fl by (metis Un_iff set_append)
    then show ?thesis using assms zero_desc_flags by (auto simp: vec_ok_def stored_def)
  qed
  have i0: "scan_inv E ?M ?n (filelist s)"
    using assms u by (auto simp: scan_inv_def vec_ok_def stored_def intro: sound_unflagged)
  obtain s1 where 1: "link_outer ?n E 0 True s = Inr s1" "scan_inv E ?M ?n (filelist s1)" "n_files s1 = ?n"
    using link_outer_total [OF i0 refl, of 0 ?n True] by auto
  obtain fl where 2: "dup_outer ?n E ?n 0 (filelist s1) = Inr fl" "scan_inv E ?M ?n fl"
    using dup_outer_total [OF 1(2), of 0 ?n] by auto
  have "scan2 E s = Inr (s1\<lparr>filelist := fl\<rparr>)" using 1(1,3) 2(1) by (simp add: scan2_def)
  then show ?thesis using 1(3) 2(2) readable_nth [OF 2(2)] by (simp add: scan_inv_def)
qed

text \<open>A duplicate whose predecessor is asked for is never the first entry: its flags are not those of a file on its own.\<close>

lemma scan3_loop_total:
  "\<forall>i < n. readable E (filelist s ! i) \<Longrightarrow> n \<le> length (filelist s) \<Longrightarrow> ix + k = n \<Longrightarrow> (ix = 0 \<longrightarrow> inmatch) \<Longrightarrow>
   \<exists>s'. scan3_loop E k ix need_hdr inmatch headfn s = Inr s'"
proof (induction k arbitrary: ix need_hdr inmatch headfn s)
  case (Suc k)
  let ?p = "filelist s ! ix"
  have p: "entry (filelist s) ix = Inr ?p" "readable E ?p" using Suc.prems by (simp_all add: entry_def)
  then obtain f where f: "getfn E ?p = Inr f" by (auto simp: readable_def)
  have IH: "\<exists>s'. scan3_loop E k (ix + 1) nh im h (s\<lparr>outp := t\<rparr>) = Inr s'" for nh im h t
    using Suc.IH [of "s\<lparr>outp := t\<rparr>" "ix + 1" im nh h] Suc.prems by simp
  have IH0: "\<exists>s'. scan3_loop E k (ix + 1) nh im h s = Inr s'" for nh im h
    using Suc.IH [of s "ix + 1" im nh h] Suc.prems by simp
  show ?case
  proof (cases "has_flag FL_DUP ?p")
    case False
    then show ?thesis using p(1) IH0 by (simp add: Let_def)
  next
    case dup: True
    then have "flags ?p \<noteq> FL_CRC" by (auto simp: has_flag_def fl_consts)
    have "\<exists>h. (if \<not> inmatch then (if ix = 0 then Inl MemFault
                else obind (entry (filelist s) (ix - 1)) (\<lambda>q. obind (getfn E q) (\<lambda>f. Inr (Some f))))
              else Inr headfn) = Inr h"
    proof (cases inmatch)
      case False
      then have "ix \<noteq> 0" "readable E (filelist s ! (ix - 1))" using Suc.prems by auto
      moreover from this obtain g where "getfn E (filelist s ! (ix - 1)) = Inr g" by (auto simp: readable_def)
      ultimately show ?thesis using False Suc.prems by (simp add: entry_def)
    qed simp
    then obtain h where h: "(if \<not> inmatch then (if ix = 0 then Inl MemFault
                else obind (entry (filelist s) (ix - 1)) (\<lambda>q. obind (getfn E q) (\<lambda>f. Inr (Some f))))
              else Inr headfn) = Inr h" by (elim exE)
    have upd: "\<exists>t. (case h of None \<Rightarrow> s1 | Some f \<Rightarrow> s1\<lparr>outp := outp s1 @ nl # ''FILE: '' @ f @ [nl]\<rparr>) = s\<lparr>outp := t\<rparr>"
      if "s1 = s \<or> (\<exists>u. s1 = s\<lparr>outp := u\<rparr>)" for s1
    proof -
      have "s1 = s \<Longrightarrow> \<exists>u. s1 = s\<lparr>outp := u\<rparr>" by (rule exI [of _ "outp s"]) simp
      with that obtain u where "s1 = s\<lparr>outp := u\<rparr>" by (elim disjE exE) blast+
      then show ?thesis by (cases h) auto
    qed
    show ?thesis
    proof (cases "linkflag s \<or> \<not> has_flag FL_LNK ?p")
      case False
      then show ?thesis using p(1) dup h \<open>flags ?p \<noteq> FL_CRC\<close> IH0 by (simp only: scan3_loop.simps obind_simps Let_def if_False if_True)
    next
      case True
      let ?s1 = "if need_hdr
                   then s\<lparr>outp := outp s @ nl # nl # ''List of files with duplicate contents''
                          @ (if linkflag s then '' (includes hard links)'' else []) @ [nl]\<rparr> else s"
      have "?s1 = s \<or> (\<exists>u. ?s1 = s\<lparr>outp := u\<rparr>)" by (cases need_hdr) auto
      from upd [OF this] obtain t where
        t: "(case h of None \<Rightarrow> ?s1 | Some f \<Rightarrow> ?s1\<lparr>outp := outp ?s1 @ nl # ''FILE: '' @ f @ [nl]\<rparr>) = s\<lparr>outp := t\<rparr>"
        by (elim exE)
      show ?thesis
        using True p(1) dup h \<open>flags ?p \<noteq> FL_CRC\<close> IH f
        by (simp only: scan3_loop.simps obind_simps Let_def if_False if_True t simp_thms) simp
    qed
  qed
qed simp

subsection \<open>Building the list\<close>

definition name_ok :: "string \<Rightarrow> bool" where
  "name_ok f \<longleftrightarrow> f \<noteq> [] \<and> nl \<notin> set f \<and> CHR 0x00 \<notin> set f"

text \<open>A regular file that is not empty can be read.\<close>

definition file_ok :: "fs_env \<Rightarrow> string \<Rightarrow> bool" where
  "file_ok E f \<longleftrightarrow> (\<forall>st. lstat E f = Some st \<and> is_reg st \<and> st_size st \<noteq> 0 \<longrightarrow> content E f \<noteq> None)"

lemma getline_name: "name_ok f \<Longrightarrow> getline nl (f @ nl # r) = Some (f @ [nl], r)"
proof -
  assume "name_ok f"
  then have "nl \<notin> set f" by (simp add: name_ok_def)
  then have "takeWhile (\<lambda>c. c \<noteq> nl) (f @ nl # r) = f" by (induction f) auto
  then show ?thesis by (simp add: getline_def)
qed

lemma chop_name: "name_ok f \<Longrightarrow> chop (f @ [nl]) = Inr f"
proof -
  assume "name_ok f"
  then have "takeWhile (\<lambda>c. c \<noteq> CHR 0x00) (f @ [nl]) = f @ [nl]"
    by (auto simp: name_ok_def nl_def takeWhile_eq_all_conv)
  then show ?thesis by (simp add: chop_def Let_def)
qed

lemma vec_ok_push:
  assumes "vec_ok E s" and "Suc (n_files s) < length (filelist s)" and "stored E x"
  shows "vec_ok E (s\<lparr>n_files := Suc (n_files s), filelist := (filelist s)[n_files s := x]\<rparr>)"
proof -
  have t: "take (Suc (n_files s)) ((filelist s)[n_files s := x]) = take (n_files s) (filelist s) @ [x]"
    using assms(2) by (simp add: take_Suc_conv_app_nth)
  have "set (drop (Suc (n_files s)) (filelist s)) \<subseteq> set (drop (n_files s) (filelist s))"
    by (rule set_drop_subset_set_drop) simp
  then show ?thesis using assms t by (auto simp: vec_ok_def)
qed

lemma build_line_total:
  assumes "vec_ok E s" and "Suc (n_files s) < length (filelist s)" and "name_ok f" and "file_ok E f"
    and "drop loc (names E) = f @ nl # r"
  shows "\<exists>s'. build_line E loc (f @ [nl]) s = Inr s' \<and> vec_ok E s' \<and> n_files s' \<le> Suc (n_files s)
    \<and> length (filelist s') = length (filelist s)"
proof (cases "\<exists>st. lstat E f = Some st \<and> is_reg st \<and> st_size st \<noteq> 0")
  case False
  then show ?thesis using assms(1,2)
    by (auto simp: build_line_def chop_name [OF assms(3)] vec_ok_def split: option.splits)
next
  case True
  then obtain st where st: "lstat E f = Some st" "is_reg st" "st_size st \<noteq> 0" by blast
  then have c: "content E f \<noteq> None" using assms(4) by (auto simp: file_ok_def)
  let ?x = "\<lparr>flength = st_size st, crc32 = 0, device = st_dev st, inode = st_ino st, nameloc = loc, flags = 0\<rparr>"
  have "getfn E ?x = Inr f" using assms(5) by (simp add: getfn_def getline_name [OF assms(3)] chop_name [OF assms(3)])
  then have "stored E ?x" using c st(3) by (simp add: stored_def readable_def has_flag_def)
  from vec_ok_push [OF assms(1,2) this] show ?thesis
    using assms(2) st by (simp add: build_line_def chop_name [OF assms(3)])
qed

lemma build_loop_total:
  "vec_ok E s \<Longrightarrow> n_files s + length fs < length (filelist s) \<Longrightarrow> \<forall>f \<in> set fs. name_ok f \<and> file_ok E f \<Longrightarrow>
   names E = pre @ concat (map (\<lambda>f. f @ [nl]) fs) \<Longrightarrow>
   \<exists>s'. build_loop E (length pre) (concat (map (\<lambda>f. f @ [nl]) fs)) s = Inr s' \<and> vec_ok E s'"
proof (induction fs arbitrary: pre s)
  case Nil
  then show ?case by (subst build_loop.simps) (simp add: getline_def)
next
  case (Cons f fs)
  let ?r = "concat (map (\<lambda>f. f @ [nl]) fs)"
  have f: "name_ok f" "file_ok E f" using Cons.prems(3) by simp_all
  obtain s1 where 1: "build_line E (length pre) (f @ [nl]) s = Inr s1" "vec_ok E s1" "n_files s1 \<le> Suc (n_files s)"
    "length (filelist s1) = length (filelist s)"
    using build_line_total [OF Cons.prems(1) _ f, of "length pre" ?r] Cons.prems(2,4) by auto
  have n: "n_files s1 + length fs < length (filelist s1)" using 1(3,4) Cons.prems(2) by simp
  have "build_loop E (length pre) (f @ nl # ?r) s = build_loop E (length (pre @ f @ [nl])) ?r s1"
    using 1(1) by (subst build_loop.simps) (simp add: getline_name [OF f(1)])
  then show ?case using Cons.IH [OF 1(2) n, of "pre @ f @ [nl]"] Cons.prems(3,4) by simp
qed

subsection \<open>Properties\<close>


text \<open>Two files of equal contents, the option \<open>-l\<close>, a directory and a missing file.\<close>

definition demo_tree :: fs_env where
  "demo_tree = \<lparr>names = ''a'' @ [nl] @ ''b'' @ [nl] @ ''d'' @ [nl] @ ''e'' @ [nl],
     lstat = (\<lambda>f. if f = ''a'' then Some \<lparr>is_reg = True, st_size = 2, st_dev = 1, st_ino = 3\<rparr>
       else if f = ''b'' then Some \<lparr>is_reg = True, st_size = 2, st_dev = 1, st_ino = 4\<rparr>
       else if f = ''d'' then Some \<lparr>is_reg = False, st_size = 0, st_dev = 1, st_ino = 5\<rparr> else None),
     content = (\<lambda>f. if f = ''a'' \<or> f = ''b'' then Some [104, 105] else None),
     qsort = (\<lambda>c xs. xs), fresh_mem = (\<lambda>n. None)\<rparr>"


end
