(* ===== verification/Getopt.thy ===== *)
theory Getopt
  imports Prelude
begin

section \<open>Command line options (hw2/src/getopt.c)\<close>

text \<open>
  \<open>argv\<close> is a list of strings without NUL; \<open>argv[argc]\<close> is NULL. The four external variables and the
  static \<open>sp\<close> are the state; what is written to file descriptor 2 is kept in \<open>err_out\<close>. \<open>None\<close> is a
  NULL \<open>optarg\<close>.
\<close>

record getopt_state =
  opterr :: int
  optind :: int
  optopt :: int
  optarg :: "string option"
  sp :: nat
  err_out :: string

definition getopt_init :: getopt_state where
  "getopt_init = \<lparr>opterr = 1, optind = 1, optopt = 0, optarg = None, sp = 1, err_out = []\<rparr>"

definition GETOPT_EOF :: int where "GETOPT_EOF = -1"

definition arg_at :: "string list \<Rightarrow> int \<Rightarrow> string outcome" where
  "arg_at argv i = (if 0 \<le> i \<and> i < int (length argv) then Inr (argv ! nat i) else Inl MemFault)"

definition char_at :: "string \<Rightarrow> nat \<Rightarrow> char outcome" where
  "char_at s k = (if k < length s then Inr (s ! k) else if k = length s then Inr (CHR 0x00) else Inl MemFault)"

text \<open>\<open>strchr\<close>: the rest of the string from the character on, with its terminator.\<close>

definition strchr :: "string \<Rightarrow> char \<Rightarrow> string option" where
  "strchr s c = (let r = dropWhile (\<lambda>d. d \<noteq> c) (s @ [CHR 0x00]) in if r = [] then None else Some r)"

definition ERR :: "string list \<Rightarrow> string \<Rightarrow> char \<Rightarrow> getopt_state \<Rightarrow> getopt_state outcome" where
  "ERR argv s c st = (if opterr st \<noteq> 0
     then obind (arg_at argv 0) (\<lambda>prog. Inr (st\<lparr>err_out := err_out st @ prog @ s @ [c, nl]\<rparr>))
     else Inr st)"

text \<open>The tests at the start of an argument; \<open>Some\<close>: the call returns EOF.\<close>

definition at_start :: "string list \<Rightarrow> getopt_state \<Rightarrow> getopt_state option outcome" where
  "at_start argv st =
     (if optind st \<ge> int (length argv) then Inr (Some st)
      else obind (arg_at argv (optind st)) (\<lambda>a.
        obind (char_at a 0) (\<lambda>c0. if c0 \<noteq> CHR ''-'' then Inr (Some st)
        else obind (char_at a 1) (\<lambda>c1. if c1 = CHR 0x00 then Inr (Some st)
        else if a = ''--'' then Inr (Some (st\<lparr>optind := optind st + 1\<rparr>))
        else Inr None))))"

definition att_getopt :: "string list \<Rightarrow> string \<Rightarrow> getopt_state \<Rightarrow> (int \<times> getopt_state) outcome" where
  "att_getopt argv opts st0 =
     obind (if sp st0 = 1 then at_start argv st0 else Inr None) (\<lambda>e. case e of
       Some st \<Rightarrow> Inr (GETOPT_EOF, st)
     | None \<Rightarrow>
       obind (arg_at argv (optind st0)) (\<lambda>a. obind (char_at a (sp st0)) (\<lambda>c.
       let st = st0\<lparr>optopt := c_char c\<rparr> in
       case (if c = CHR '':'' then None else strchr opts c) of
         None \<Rightarrow>
           obind (ERR argv '': illegal option -- '' c st) (\<lambda>st.
           obind (char_at a (sp st + 1)) (\<lambda>d.
             Inr (c_char (CHR ''?''),
                  if d = CHR 0x00 then st\<lparr>optind := optind st + 1, sp := 1\<rparr> else st\<lparr>sp := sp st + 1\<rparr>)))
       | Some cp \<Rightarrow>
           if length cp < 2 then Inl MemFault
           else if cp ! 1 = CHR '':'' then
             obind (char_at a (sp st + 1)) (\<lambda>d.
             if d \<noteq> CHR 0x00
             then Inr (c_char c, st\<lparr>optarg := Some (drop (sp st + 1) a), optind := optind st + 1, sp := 1\<rparr>)
             else if optind st + 1 \<ge> int (length argv)
             then obind (ERR argv '': option requires an argument -- '' c (st\<lparr>optind := optind st + 1\<rparr>))
                    (\<lambda>st. Inr (c_char (CHR ''?''), st\<lparr>sp := 1\<rparr>))
             else obind (arg_at argv (optind st + 1)) (\<lambda>v.
                    Inr (c_char c, st\<lparr>optarg := Some v, optind := optind st + 2, sp := 1\<rparr>)))
           else
             obind (char_at a (sp st + 1)) (\<lambda>d.
               Inr (c_char c, (if d = CHR 0x00 then st\<lparr>sp := 1, optind := optind st + 1\<rparr>
                               else st\<lparr>sp := sp st + 1\<rparr>)\<lparr>optarg := None\<rparr>)))))"

text \<open>The usual loop of a caller: until EOF; each result with its argument.\<close>

fun getopt_all :: "nat \<Rightarrow> string list \<Rightarrow> string \<Rightarrow> getopt_state \<Rightarrow>
    ((int \<times> string option) list \<times> getopt_state) outcome" where
  "getopt_all 0 argv opts st = Inl OutOfFuel"
| "getopt_all (Suc n) argv opts st = obind (att_getopt argv opts st) (\<lambda>(r, st').
     if r = GETOPT_EOF then Inr ([], st')
     else obind (getopt_all n argv opts st') (\<lambda>(rs, st''). Inr ((r, optarg st') # rs, st'')))"

subsection \<open>Command lines as they are meant\<close>

text \<open>
  One argument with flags, or with flags and a last option whose value is attached to it or is the
  next argument.
\<close>

datatype opt_word = Flags string | Attached string char string | Separate string char string

fun render_word :: "opt_word \<Rightarrow> string list" where
  "render_word (Flags fs) = [CHR ''-'' # fs]"
| "render_word (Attached fs c v) = [CHR ''-'' # fs @ c # v]"
| "render_word (Separate fs c v) = [CHR ''-'' # fs @ [c], v]"

definition flag_res :: "char \<Rightarrow> int \<times> string option" where
  "flag_res f = (c_char f, None)"

fun results :: "opt_word \<Rightarrow> (int \<times> string option) list" where
  "results (Flags fs) = map flag_res fs"
| "results (Attached fs c v) = map flag_res fs @ [(c_char c, Some v)]"
| "results (Separate fs c v) = map flag_res fs @ [(c_char c, Some v)]"

text \<open>\<open>opts\<close> has the option letter, and a colon after it exactly when it takes a value.\<close>

definition opt_letter :: "string \<Rightarrow> bool \<Rightarrow> char \<Rightarrow> bool" where
  "opt_letter opts val c \<longleftrightarrow> c \<notin> {CHR '':'', CHR ''-'', CHR 0x00} \<and> c_char c \<noteq> GETOPT_EOF
     \<and> (\<exists>p q. opts = p @ c # q \<and> c \<notin> set p \<and> (val \<longleftrightarrow> q \<noteq> [] \<and> hd q = CHR '':''))"

fun word_ok :: "string \<Rightarrow> opt_word \<Rightarrow> bool" where
  "word_ok opts (Flags fs) = (fs \<noteq> [] \<and> list_all (opt_letter opts False) fs)"
| "word_ok opts (Attached fs c v) = (list_all (opt_letter opts False) fs \<and> opt_letter opts True c
     \<and> v \<noteq> [] \<and> CHR 0x00 \<notin> set v)"
| "word_ok opts (Separate fs c v) = (list_all (opt_letter opts False) fs \<and> opt_letter opts True c)"

subsection \<open>Lemmas\<close>

lemma strchr_letter:
  "opt_letter opts val c \<Longrightarrow> \<exists>d r. strchr opts c = Some (c # d # r) \<and> (val \<longleftrightarrow> d = CHR '':'')"
proof -
  assume "opt_letter opts val c"
  then obtain p q where o: "opts = p @ c # q" "c \<notin> set p" "val \<longleftrightarrow> q \<noteq> [] \<and> hd q = CHR '':''"
    by (auto simp: opt_letter_def)
  have d: "dropWhile (\<lambda>d. d \<noteq> c) (opts @ [CHR 0x00]) = c # q @ [CHR 0x00]"
    using o(2) by (simp add: o(1)) (subst dropWhile_append2, auto)
  show ?thesis
    by (cases q) (use o(3) in \<open>auto simp: strchr_def d\<close>)
qed

text \<open>A call in the middle of or at the start of an argument whose letter at \<open>sp\<close> is known.\<close>

lemma started:
  assumes "0 \<le> optind st" and "optind st < int (length argv)" and "argv ! nat (optind st) = CHR ''-'' # a # w"
    and "a \<notin> {CHR ''-'', CHR 0x00}"
  shows "(if sp st = 1 then at_start argv st else Inr None) = Inr None"
  using assms by (simp add: at_start_def arg_at_def char_at_def)

lemma getopt_flag:
  assumes i: "0 \<le> optind st" "optind st < int (length argv)" and a: "argv ! nat (optind st) = CHR ''-'' # w"
    and w: "w = u @ f # v" "list_all (opt_letter opts False) u" and f: "opt_letter opts False f"
    and s: "sp st = Suc (length u)"
  shows "att_getopt argv opts st = Inr (c_char f,
    if v = [] then st\<lparr>optopt := c_char f, sp := 1, optind := optind st + 1, optarg := None\<rparr>
    else if hd v = CHR 0x00 then st\<lparr>optopt := c_char f, sp := 1, optind := optind st + 1, optarg := None\<rparr>
    else st\<lparr>optopt := c_char f, sp := sp st + 1, optarg := None\<rparr>)"
proof -
  obtain x y where xy: "w = x # y" "opt_letter opts False x" using w f by (cases u) auto
  have st: "(if sp st = 1 then at_start argv st else Inr None) = Inr None"
    by (rule started [OF i a [unfolded xy(1)]]) (use xy(2) in \<open>auto simp: opt_letter_def\<close>)
  obtain d r where c: "strchr opts f = Some (f # d # r)" "d \<noteq> CHR '':''" using strchr_letter [OF f] by auto
  have n: "f \<noteq> CHR '':''" using f by (simp add: opt_letter_def)
  have ch: "arg_at argv (optind st) = Inr (CHR ''-'' # w)" "char_at (CHR ''-'' # w) (sp st) = Inr f"
    using i a s w by (simp_all add: arg_at_def char_at_def nth_append)
  have nx: "char_at (CHR ''-'' # w) (sp st + 1) = Inr (if v = [] then CHR 0x00 else hd v)"
    using s w by (cases v) (simp_all add: char_at_def nth_append)
  show ?thesis unfolding att_getopt_def st
    using c n ch nx by (cases "v = []") (simp_all add: Let_def)
qed

lemma getopt_value:
  assumes i: "0 \<le> optind st" "optind st < int (length argv)" and a: "argv ! nat (optind st) = CHR ''-'' # w"
    and w: "w = u @ c # v" "list_all (opt_letter opts False) u" and l: "opt_letter opts True c"
    and s: "sp st = Suc (length u)" and v: "CHR 0x00 \<notin> set v"
    and m: "v = [] \<Longrightarrow> optind st + 1 < int (length argv)"
  shows "att_getopt argv opts st = Inr (c_char c,
    if v = [] then st\<lparr>optopt := c_char c, optarg := Some (argv ! nat (optind st + 1)), optind := optind st + 2, sp := 1\<rparr>
    else st\<lparr>optopt := c_char c, optarg := Some v, optind := optind st + 1, sp := 1\<rparr>)"
proof -
  obtain x y where xy: "w = x # y" "opt_letter opts False x \<or> opt_letter opts True x" using w l by (cases u) auto
  have st: "(if sp st = 1 then at_start argv st else Inr None) = Inr None"
    by (rule started [OF i a [unfolded xy(1)]]) (use xy(2) in \<open>auto simp: opt_letter_def\<close>)
  obtain r where c: "strchr opts c = Some (c # CHR '':'' # r)" using strchr_letter [OF l] by auto
  have n: "c \<noteq> CHR '':''" using l by (simp add: opt_letter_def)
  have ch: "arg_at argv (optind st) = Inr (CHR ''-'' # w)" "char_at (CHR ''-'' # w) (sp st) = Inr c"
    using i a s w by (simp_all add: arg_at_def char_at_def nth_append)
  have nx: "char_at (CHR ''-'' # w) (sp st + 1) = Inr (if v = [] then CHR 0x00 else hd v)"
    using s w by (cases v) (simp_all add: char_at_def nth_append)
  have dr: "drop (sp st + 1) (CHR ''-'' # w) = v" using s by (simp add: w(1))
  show ?thesis
  proof (cases "v = []")
    case True
    then have "arg_at argv (optind st + 1) = Inr (argv ! nat (optind st + 1))" using m i by (simp add: arg_at_def)
    then show ?thesis unfolding att_getopt_def st using c n ch nx True m by (simp add: Let_def)
  next
    case False
    then have "hd v \<noteq> CHR 0x00" using v by (cases v) auto
    then show ?thesis unfolding att_getopt_def st using c n ch nx dr False by (simp add: Let_def)
  qed
qed

subsection \<open>Runs of the loop\<close>

definition prepend :: "'a list \<Rightarrow> ('a list \<times> 's) outcome \<Rightarrow> ('a list \<times> 's) outcome" where
  "prepend xs m = obind m (\<lambda>(rs, s). Inr (xs @ rs, s))"

lemma prepend_simps [simp]:
  "prepend [] m = m" "prepend xs (prepend ys m) = prepend (xs @ ys) m" "prepend xs (Inr (rs, s)) = Inr (xs @ rs, s)"
  by (cases m; auto simp: prepend_def)+

lemma getopt_all_step:
  "att_getopt argv opts st = Inr (r, st') \<Longrightarrow> r \<noteq> GETOPT_EOF \<Longrightarrow>
   getopt_all (Suc n) argv opts st = prepend [(r, optarg st')] (getopt_all n argv opts st')"
  by (simp add: prepend_def)

lemma letter_not_eof: "opt_letter opts val c \<Longrightarrow> c_char c \<noteq> GETOPT_EOF"
  by (simp add: opt_letter_def)

lemma flags_run:
  "optind st = int i \<Longrightarrow> sp st = Suc (length u) \<Longrightarrow> i < length argv \<Longrightarrow> argv ! i = CHR ''-'' # u @ fs @ v \<Longrightarrow>
   list_all (opt_letter opts False) (u @ fs) \<Longrightarrow> (v \<noteq> [] \<Longrightarrow> hd v \<noteq> CHR 0x00) \<Longrightarrow>
   \<exists>st'. optind st' = int (if v = [] \<and> fs \<noteq> [] then i + 1 else i)
     \<and> sp st' = (if v = [] \<and> fs \<noteq> [] then 1 else Suc (length u + length fs))
     \<and> (\<forall>n. getopt_all (length fs + n) argv opts st = prepend (map flag_res fs) (getopt_all n argv opts st'))"
proof (induction fs arbitrary: u st)
  case Nil
  then show ?case by (intro exI [of _ st]) simp
next
  case (Cons f fs)
  have f: "opt_letter opts False f" "list_all (opt_letter opts False) u" using Cons.prems(5) by simp_all
  have h: "hd (fs @ v) \<noteq> CHR 0x00" if "fs @ v \<noteq> []"
    using that Cons.prems(5,6) by (cases fs) (auto simp: opt_letter_def)
  have g: "att_getopt argv opts st = Inr (c_char f,
    if fs @ v = [] then st\<lparr>optopt := c_char f, sp := 1, optind := optind st + 1, optarg := None\<rparr>
    else st\<lparr>optopt := c_char f, sp := sp st + 1, optarg := None\<rparr>)"
    using getopt_flag [of st argv "u @ f # fs @ v" u f "fs @ v" opts] f h Cons.prems(1-4) by (auto split: if_splits)
  show ?case
  proof (cases "fs @ v = []")
    case True
    let ?s = "st\<lparr>optopt := c_char f, sp := 1, optind := optind st + 1, optarg := None\<rparr>"
    have "getopt_all (Suc n) argv opts st = prepend [flag_res f] (getopt_all n argv opts ?s)" for n
      using getopt_all_step [OF g [unfolded if_P [OF True]] letter_not_eof [OF f(1)]] by (simp only: flag_res_def) simp
    then show ?thesis using True Cons.prems(1) by (intro exI [of _ ?s]) simp
  next
    case False
    let ?s = "st\<lparr>optopt := c_char f, sp := sp st + 1, optarg := None\<rparr>"
    have r: "getopt_all (Suc n) argv opts st = prepend [flag_res f] (getopt_all n argv opts ?s)" for n
      using getopt_all_step [OF g [unfolded if_not_P [OF False]] letter_not_eof [OF f(1)]]
      by (simp only: flag_res_def) simp
    from Cons.IH [of ?s "u @ [f]"] Cons.prems obtain st'
      where "optind st' = int (if v = [] \<and> fs \<noteq> [] then i + 1 else i)"
        "sp st' = (if v = [] \<and> fs \<noteq> [] then 1 else Suc (length u + 1 + length fs))"
        "\<And>n. getopt_all (length fs + n) argv opts ?s = prepend (map flag_res fs) (getopt_all n argv opts st')"
      by (auto simp del: getopt_all.simps)
    then show ?thesis using False r by (intro exI [of _ st']) (auto simp del: getopt_all.simps)
  qed
qed

lemma value_run:
  assumes i: "optind st = int i" "sp st = Suc (length u)" "i < length argv" "argv ! i = CHR ''-'' # u @ c # v"
    and l: "list_all (opt_letter opts False) u" "opt_letter opts True c"
    and v: "CHR 0x00 \<notin> set v" "v = [] \<Longrightarrow> i + 1 < length argv"
  shows "\<exists>st'. optind st' = int (if v = [] then i + 2 else i + 1) \<and> sp st' = 1
     \<and> (\<forall>n. getopt_all (Suc n) argv opts st
           = prepend [(c_char c, Some (if v = [] then argv ! (i + 1) else v))] (getopt_all n argv opts st'))"
proof -
  let ?s = "if v = [] then st\<lparr>optopt := c_char c, optarg := Some (argv ! nat (optind st + 1)), optind := optind st + 2, sp := 1\<rparr>
    else st\<lparr>optopt := c_char c, optarg := Some v, optind := optind st + 1, sp := 1\<rparr>"
  have "att_getopt argv opts st = Inr (c_char c, ?s)"
    by (rule getopt_value [where w = "u @ c # v" and u = u]) (use i l v in auto)
  from getopt_all_step [OF this letter_not_eof [OF l(2)]] i(1) show ?thesis
    by (intro exI [of _ ?s]) (auto simp: nat_add_distrib simp del: getopt_all.simps)
qed

lemma word_run:
  assumes "word_ok opts w" and "argv = pre @ render_word w @ post" and "optind st = int (length pre)" and "sp st = 1"
  shows "\<exists>st'. optind st' = int (length pre + length (render_word w)) \<and> sp st' = 1
     \<and> (\<forall>n. getopt_all (length (results w) + n) argv opts st = prepend (results w) (getopt_all n argv opts st'))"
proof (cases w)
  case (Flags fs)
  then show ?thesis using flags_run [of st "length pre" "[]" argv fs "[]" opts] assms
    by (simp add: nth_append del: getopt_all.simps)
next
  case (Attached fs c v)
  have ok: "list_all (opt_letter opts False) fs" "opt_letter opts True c" "v \<noteq> []" "CHR 0x00 \<notin> set v"
    using assms(1) Attached by auto
  then have c0: "c \<noteq> CHR 0x00" by (simp add: opt_letter_def)
  from flags_run [of st "length pre" "[]" argv fs "c # v" opts] assms ok(1) c0 Attached obtain s1
    where s1: "optind s1 = int (length pre)" "sp s1 = Suc (length fs)"
      "\<And>n. getopt_all (length fs + n) argv opts st = prepend (map flag_res fs) (getopt_all n argv opts s1)"
    by (auto simp: nth_append simp del: getopt_all.simps)
  from value_run [OF s1(1,2), of argv c v opts] ok assms(2) Attached obtain s2
    where s2: "optind s2 = int (length pre + 1)" "sp s2 = 1"
      "\<And>n. getopt_all (Suc n) argv opts s1 = prepend [(c_char c, Some v)] (getopt_all n argv opts s2)"
    by (auto simp: nth_append simp del: getopt_all.simps)
  show ?thesis using s1(3) [of "Suc n" for n] s2 Attached
    by (intro exI [of _ s2]) (simp del: getopt_all.simps)
next
  case (Separate fs c v)
  have ok: "list_all (opt_letter opts False) fs" "opt_letter opts True c"
    using assms(1) Separate by auto
  then have c0: "c \<noteq> CHR 0x00" by (simp add: opt_letter_def)
  from flags_run [of st "length pre" "[]" argv fs "[c]" opts] assms ok(1) c0 Separate obtain s1
    where s1: "optind s1 = int (length pre)" "sp s1 = Suc (length fs)"
      "\<And>n. getopt_all (length fs + n) argv opts st = prepend (map flag_res fs) (getopt_all n argv opts s1)"
    by (auto simp: nth_append simp del: getopt_all.simps)
  from value_run [OF s1(1,2), of argv c "[]" opts] ok assms(2) Separate obtain s2
    where s2: "optind s2 = int (length pre + 2)" "sp s2 = 1"
      "\<And>n. getopt_all (Suc n) argv opts s1 = prepend [(c_char c, Some v)] (getopt_all n argv opts s2)"
    by (auto simp: nth_append simp del: getopt_all.simps)
  show ?thesis using s1(3) [of "Suc n" for n] s2 Separate
    by (intro exI [of _ s2]) (simp del: getopt_all.simps)
qed

text \<open>Where the options end: no argument left, an operand, or \<open>--\<close>.\<close>

definition options_end :: "string list \<Rightarrow> bool" where
  "options_end rest \<longleftrightarrow> rest = [] \<or> hd rest = ''-'' \<or> hd rest = ''--'' \<or> hd rest = [] \<or> hd (hd rest) \<noteq> CHR ''-''"

lemma end_run:
  assumes "options_end rest" and "argv = pre @ rest" and "optind st = int (length pre)" and "sp st = 1"
  shows "\<exists>st'. getopt_all (Suc n) argv opts st = Inr ([], st')
    \<and> optind st' = int (length pre + (if rest \<noteq> [] \<and> hd rest = ''--'' then 1 else 0))"
proof (cases rest)
  case Nil
  then show ?thesis using assms by (simp add: att_getopt_def at_start_def)
next
  case (Cons a r)
  then have e: "arg_at argv (optind st) = Inr a" "optind st < int (length argv)"
    using assms(2,3) by (simp_all add: arg_at_def nth_append)
  show ?thesis
    using assms Cons e by (cases a) (auto simp: options_end_def att_getopt_def at_start_def char_at_def)
qed

lemma words_run:
  "list_all (word_ok opts) ws \<Longrightarrow> argv = pre @ concat (map render_word ws) @ rest \<Longrightarrow> options_end rest \<Longrightarrow>
   optind st = int (length pre) \<Longrightarrow> sp st = 1 \<Longrightarrow> length (concat (map results ws)) < fuel \<Longrightarrow>
   \<exists>st'. getopt_all fuel argv opts st = Inr (concat (map results ws), st')
     \<and> optind st' = int (length argv - length rest + (if rest \<noteq> [] \<and> hd rest = ''--'' then 1 else 0))"
proof (induction ws arbitrary: pre st fuel)
  case Nil
  then show ?case using end_run [of rest argv pre st "fuel - 1" opts] by (cases fuel) (auto simp del: getopt_all.simps)
next
  case (Cons w ws)
  from word_run [of opts w argv pre "concat (map render_word ws) @ rest" st] Cons.prems obtain s1
    where s1: "optind s1 = int (length pre + length (render_word w))" "sp s1 = 1"
      "\<And>n. getopt_all (length (results w) + n) argv opts st = prepend (results w) (getopt_all n argv opts s1)"
    by auto
  obtain m where m: "fuel = length (results w) + m" "length (concat (map results ws)) < m"
    using Cons.prems(6) by (auto intro!: that [of "fuel - length (results w)"])
  from Cons.IH [of "pre @ render_word w" s1 m] Cons.prems s1 m show ?case by auto
qed

text \<open>
  C39. The loop over \<open>att_getopt\<close> understands every well-formed command line: for any list of arguments with
  grouped flags and options with attached or separate values, it returns each option letter with its
  value, in order, then EOF, and leaves \<open>optind\<close> at the first operand (past a \<open>--\<close>). It takes one
  call per option and one for the end.
\<close>

theorem getopt_words:
  assumes "list_all (word_ok opts) ws" and "options_end rest" and "length (concat (map results ws)) < fuel"
  shows "\<exists>st'. getopt_all fuel (prog # concat (map render_word ws) @ rest) opts getopt_init
       = Inr (concat (map results ws), st')
     \<and> optind st' = int (1 + length (concat (map render_word ws)) + (if rest \<noteq> [] \<and> hd rest = ''--'' then 1 else 0))"
  using words_run [OF assms(1), of "prog # concat (map render_word ws) @ rest" "[prog]" rest getopt_init fuel] assms(2,3)
  by (simp add: getopt_init_def del: getopt_all.simps)

theorem getopt_words_witness:
  "\<exists>st'. getopt_all 4 [''prog'', ''-lv'', ''-ofile'', ''--'', ''-x''] ''lo:v'' getopt_init
     = Inr ([(108, None), (118, None), (111, Some ''file'')], st') \<and> optind st' = 4"
proof -
  have l: "opt_letter ''lo:v'' False (CHR ''l'')" "opt_letter ''lo:v'' False (CHR ''v'')"
    "opt_letter ''lo:v'' True (CHR ''o'')"
    unfolding opt_letter_def
    by (auto simp: c_char_def GETOPT_EOF_def intro: exI [of _ "[]"] exI [of _ "''lo:''"] exI [of _ "''l''"])
  have "list_all (word_ok ''lo:v'') [Flags ''lv'', Attached [] (CHR ''o'') ''file'']"
    using l by simp
  moreover have "options_end [''--'', ''-x'']" by (simp add: options_end_def)
  ultimately show ?thesis
    using getopt_words [of "''lo:v''" "[Flags ''lv'', Attached [] (CHR ''o'') ''file'']" "[''--'', ''-x'']" 4 "''prog''"]
    by (simp add: flag_res_def c_char_def del: getopt_all.simps)
qed

end
