(* ===== verification/Legion.thy ===== *)
theory Legion
  imports Prelude
begin

section \<open>The daemon manager (hw4/src/cli.c)\<close>

text \<open>
  The process state: the flags that the signal handlers set, the argument array with its counter, the
  list of daemons after the head node, what was printed and the event functions called. The
  operating system is a parameter: the results of \<open>pipe\<close>, \<open>fork\<close>, \<open>read\<close>, \<open>kill\<close>, \<open>waitpid\<close> and of the
  wait for a signal. The log files are a map from paths to contents.
\<close>

subsection \<open>Constants\<close>

definition DAEMON_NAME_MAX_LENGTH :: nat where "DAEMON_NAME_MAX_LENGTH = 100"
definition ARG_CONTAINER :: nat where "ARG_CONTAINER = 500"
definition LOGFILE_PATH_LENGTH :: nat where "LOGFILE_PATH_LENGTH = 100"
definition LOG_VERSIONS :: nat where "LOG_VERSIONS = 7"
definition LOGFILE_DIR :: string where "LOGFILE_DIR = ''logs''"
definition DAEMONS_DIR :: string where "DAEMONS_DIR = ''daemons''"

definition status_unknown :: int where "status_unknown = 0"
definition status_inactive :: int where "status_inactive = 1"
definition status_starting :: int where "status_starting = 2"
definition status_active :: int where "status_active = 3"
definition status_stopping :: int where "status_stopping = 4"
definition status_exited :: int where "status_exited = 5"
definition status_crashed :: int where "status_crashed = 6"

lemmas status_defs = status_unknown_def status_inactive_def status_starting_def status_active_def
  status_stopping_def status_exited_def status_crashed_def

definition daemon_status_map :: "string list" where
  "daemon_status_map = [''unknown'', ''inactive'', ''starting'', ''active'', ''stopping'', ''exited'', ''crashed'']"

subsection \<open>State\<close>

text \<open>The three fields are arrays of 100 bytes one after the other, followed by the status.\<close>

record daemon =
  daemonName :: string
  daemonExe :: string
  daemonArgs :: string
  daemonStatus :: int
  daemonProcessID :: int

definition NUL :: char where "NUL = CHR 0x00"

definition cstr :: "string \<Rightarrow> string" where
  "cstr s = takeWhile (\<lambda>c. c \<noteq> NUL) s"

definition strncpy100 :: "string \<Rightarrow> string" where
  "strncpy100 s = take DAEMON_NAME_MAX_LENGTH (s @ replicate DAEMON_NAME_MAX_LENGTH NUL)"

text \<open>A name of 100 bytes or more has no terminator of its own and runs on into the next fields.\<close>

definition read_name :: "daemon \<Rightarrow> string" where
  "read_name d = cstr (daemonName d @ daemonExe d @ daemonArgs d @ [char_of (nat (daemonStatus d)), NUL])"

text \<open>An entry of \<open>argArr\<close>: NULL, a string, or a pointer into memory that is gone.\<close>

datatype argp = ArgNull | ArgStr string | ArgStale

datatype event = EvRegister string string | EvUnregister string | EvStart string | EvActive string int
  | EvStop string int | EvReset string | EvKill string int | EvLogrotate string | EvTerm string int int
  | EvCrash string int int | EvError string | EvFini

record 'w os_api =
  os_pipe :: "'w \<Rightarrow> bool \<times> 'w"
  os_fork :: "'w \<Rightarrow> int \<times> 'w"
  os_read :: "'w \<Rightarrow> (int \<times> bool \<times> bool) \<times> 'w"
  os_kill :: "int \<Rightarrow> 'w \<Rightarrow> int \<times> 'w"
  os_suspend :: "'w \<Rightarrow> (bool \<times> bool) \<times> 'w"
  os_waitpid :: "int \<Rightarrow> 'w \<Rightarrow> (int \<times> int) \<times> 'w"

text \<open>
  \<open>os_read\<close> gives the result of \<open>read\<close>, whether SIGALRM was handled meanwhile and whether the child
  has opened its log; \<open>os_suspend\<close> whether SIGCHLD and SIGALRM were handled during \<open>sigsuspend\<close>.
\<close>

record 'w legion =
  sigchld_flag :: bool
  sigalrm_flag :: bool
  argArr :: "nat \<Rightarrow> argp"
  argArrIdx :: nat
  daemons :: "daemon list"
  printed :: string
  events :: "event list"
  exit_status :: "int option"
  log_files :: "string \<Rightarrow> nat option"
  osw :: 'w

type_synonym ('w, 'a) act = "('w legion, 'a) action"

definition legion_start_state :: "'w \<Rightarrow> 'w legion" where
  "legion_start_state w = \<lparr>sigchld_flag = False, sigalrm_flag = False, argArr = (\<lambda>_. ArgNull), argArrIdx = 0,
     daemons = [], printed = [], events = [], exit_status = None, log_files = (\<lambda>_. None), osw = w\<rparr>"

definition emit :: "event \<Rightarrow> ('w, unit) act" where
  "emit e = modify (\<lambda>s. s\<lparr>events := events s @ [e]\<rparr>)"

definition print :: "string \<Rightarrow> ('w, unit) act" where
  "print t = modify (\<lambda>s. s\<lparr>printed := printed s @ t\<rparr>)"

definition os_call :: "('w \<Rightarrow> 'a \<times> 'w) \<Rightarrow> ('w, 'a) act" where
  "os_call f s = (case f (osw s) of (x, w) \<Rightarrow> Inr (x, s\<lparr>osw := w\<rparr>))"

definition upd_daemon :: "nat \<Rightarrow> (daemon \<Rightarrow> daemon) \<Rightarrow> ('w, unit) act" where
  "upd_daemon i f = modify (\<lambda>s. s\<lparr>daemons := (daemons s)[i := f (daemons s ! i)]\<rparr>)"

abbreviation set_status :: "nat \<Rightarrow> int \<Rightarrow> ('w, unit) act" where
  "set_status i st \<equiv> upd_daemon i (\<lambda>d. d\<lparr>daemonStatus := st\<rparr>)"

text \<open>\<open>sprintf\<close> into an array of \<open>n\<close> bytes.\<close>

definition sprintf_ok :: "nat \<Rightarrow> string \<Rightarrow> ('w, string) act" where
  "sprintf_ok n t = (if length t + 1 \<le> n then ret t else fail MemFault)"

subsection \<open>Parsing a line\<close>

text \<open>The part of the line before the newline; a line without one is read past its end.\<close>

definition line_body :: "string \<Rightarrow> string outcome" where
  "line_body s = (if nl \<in> set s then Inr (takeWhile (\<lambda>c. c \<noteq> nl) s) else Inl MemFault)"

text \<open>
  What the copying loop writes, on the part of the line from the index on; \<open>None\<close> when it meets \<open><\<close>
  at the start of a field, where the whole line is dropped. A field in quotes ends at the next quote,
  and further quotes there are skipped.
\<close>

function copy_fields :: "string \<Rightarrow> string option" where
  "copy_fields [] = Some []"
| "copy_fields (c # s) =
     (if c = CHR ''<'' then None
      else if c = CHR 0x27 then
        let q = takeWhile (\<lambda>d. d \<noteq> CHR 0x27) s;
            r = dropWhile (\<lambda>d. d = CHR '' '') (dropWhile (\<lambda>d. d = CHR 0x27) (drop (length q) s))
        in map_option (\<lambda>t. q @ [CHR ''@''] @ t) (copy_fields r)
      else
        let q = takeWhile (\<lambda>d. d \<noteq> CHR '' '') (c # s);
            r = dropWhile (\<lambda>d. d = CHR '' '') (drop (length q) (c # s))
        in map_option (\<lambda>t. q @ [CHR ''@''] @ t) (copy_fields r))"
  by pat_completeness auto

termination
proof (relation "measure length")
  fix c :: char and s q r :: string
  assume q: "q = takeWhile (\<lambda>d. d \<noteq> CHR 0x27) s"
    and r: "r = dropWhile (\<lambda>d. d = CHR '' '') (dropWhile (\<lambda>d. d = CHR 0x27) (drop (length q) s))"
  let ?d = "drop (length q) s"
  have "length r \<le> length (dropWhile (\<lambda>d. d = CHR 0x27) ?d)" unfolding r by (rule length_dropWhile_le)
  also have "\<dots> \<le> length ?d" by (rule length_dropWhile_le)
  also have "\<dots> \<le> length s" by simp
  finally have "length r \<le> length s" .
  then show "(r, c # s) \<in> measure length" by simp
next
  fix c :: char and s q r :: string
  assume q: "q = takeWhile (\<lambda>d. d \<noteq> CHR '' '') (c # s)"
    and r: "r = dropWhile (\<lambda>d. d = CHR '' '') (drop (length q) (c # s))"
  show "(r, c # s) \<in> measure length"
  proof (cases "c = CHR '' ''")
    case True
    then show ?thesis using length_dropWhile_le [of _ s] by (simp add: r q le_imp_less_Suc)
  next
    case False
    have "length r \<le> length (drop (length q) (c # s))" unfolding r by (rule length_dropWhile_le)
    also have "\<dots> \<le> length s" using False by (simp add: q)
    finally show ?thesis by simp
  qed
qed auto

text \<open>\<open>strtok_r\<close> with the separator \<open>@\<close>, until it returns NULL.\<close>

function tokens :: "string \<Rightarrow> string list" where
  "tokens s = (let r = dropWhile (\<lambda>c. c = CHR ''@'') s in
     if r = [] then [] else takeWhile (\<lambda>c. c \<noteq> CHR ''@'') r # tokens (dropWhile (\<lambda>c. c \<noteq> CHR ''@'') r))"
  by pat_completeness auto

termination
proof (relation "measure length")
  fix s r :: string assume r: "r = dropWhile (\<lambda>c. c = CHR ''@'') s" "r \<noteq> []"
  then have h: "hd r \<noteq> CHR ''@''" using hd_dropWhile [of "\<lambda>c. c = CHR ''@''" s] by simp
  have "length (dropWhile (\<lambda>c. c \<noteq> CHR ''@'') r) < length r"
  proof (cases r)
    case (Cons c t)
    then have "dropWhile (\<lambda>c. c \<noteq> CHR ''@'') r = dropWhile (\<lambda>c. c \<noteq> CHR ''@'') t" using h by simp
    then show ?thesis using length_dropWhile_le [of "\<lambda>c. c \<noteq> CHR ''@''" t] Cons by simp
  qed (use r in simp)
  also have "\<dots> \<le> length s" unfolding r(1) by (rule length_dropWhile_le)
  finally show "(dropWhile (\<lambda>c. c \<noteq> CHR ''@'') r, s) \<in> measure length" by simp
qed auto

declare tokens.simps [simp del]

text \<open>
  The first three fields go to \<open>argArr\<close>; the others are joined with spaces in a container of 500
  bytes, entry 3. The counter stays at 3.
\<close>

fun store_args :: "string list \<Rightarrow> string option \<Rightarrow> nat \<Rightarrow> (nat \<Rightarrow> argp) \<Rightarrow> (nat \<times> (nat \<Rightarrow> argp)) outcome" where
  "store_args [] con idx arr = Inr (idx, arr)"
| "store_args (t # ts) con idx arr =
     (case con of
        None \<Rightarrow> if idx = 3
          then (if length t + 1 \<le> ARG_CONTAINER then store_args ts (Some t) idx (arr(3 := ArgStr t)) else Inl MemFault)
          else store_args ts None (idx + 1) (arr(idx := ArgStr t))
      | Some u \<Rightarrow> let v = u @ CHR '' '' # t in
          if length v + 1 \<le> ARG_CONTAINER then store_args ts (Some v) idx (arr(3 := ArgStr v)) else Inl MemFault)"

definition stale :: "argp \<Rightarrow> argp" where
  "stale a = (case a of ArgStr _ \<Rightarrow> ArgStale | _ \<Rightarrow> a)"

subsection \<open>The list of daemons\<close>

fun find_name :: "string \<Rightarrow> daemon list \<Rightarrow> nat option" where
  "find_name n [] = None"
| "find_name n (d # ds) = (if read_name d = n then Some 0 else map_option Suc (find_name n ds))"

text \<open>The name is only looked at when there is a daemon to compare it with.\<close>

definition deref_arg :: "argp \<Rightarrow> ('w, string) act" where
  "deref_arg a = (case a of ArgStr n \<Rightarrow> ret n | _ \<Rightarrow> fail MemFault)"

definition legion_daemon_name_exists :: "argp \<Rightarrow> ('w, nat option) act" where
  "legion_daemon_name_exists a = bnd (gets daemons) (\<lambda>ds.
     if ds = [] then ret None else bnd (deref_arg a) (\<lambda>n. ret (find_name n ds)))"

definition the_daemon :: "nat \<Rightarrow> ('w, daemon) act" where
  "the_daemon i = bnd (gets daemons) (\<lambda>ds. if i < length ds then ret (ds ! i) else fail MemFault)"

text \<open>\<open>argArrIdx - 3\<close> is never positive, so the command of the event is always empty.\<close>

definition legion_register :: "argp \<Rightarrow> argp \<Rightarrow> argp \<Rightarrow> ('w, int) act" where
  "legion_register curName curExe args =
     bnd (deref_arg curName) (\<lambda>n. bnd (deref_arg curExe) (\<lambda>e. bnd (deref_arg args) (\<lambda>a.
     let d = \<lparr>daemonName = strncpy100 n, daemonExe = strncpy100 e, daemonArgs = strncpy100 a,
              daemonStatus = status_inactive, daemonProcessID = 0\<rparr> in
     sq (modify (\<lambda>s. s\<lparr>daemons := d # daemons s\<rparr>))
     (bnd (gets argArrIdx) (\<lambda>k. bnd (gets (\<lambda>s. argArr s 3)) (\<lambda>c.
       if k > 3 then bnd (deref_arg c) (\<lambda>t. sq (emit (EvRegister (read_name d) t)) (ret 1))
       else sq (emit (EvRegister (read_name d) [])) (ret 1)))))))"

definition legion_unregister :: "argp \<Rightarrow> ('w, int) act" where
  "legion_unregister curName = bnd (legion_daemon_name_exists curName) (\<lambda>r. case r of
     None \<Rightarrow> ret 0
   | Some i \<Rightarrow> bnd (the_daemon i) (\<lambda>d.
       if daemonStatus d = status_inactive
       then sq (modify (\<lambda>s. s\<lparr>daemons := take i (daemons s) @ drop (i + 1) (daemons s)\<rparr>))
              (sq (emit (EvUnregister (read_name d))) (ret 1))
       else ret 0))"

definition status_line :: "daemon \<Rightarrow> string outcome" where
  "status_line d = (if 0 \<le> daemonStatus d \<and> daemonStatus d < 7
     then Inr (read_name d @ [tab] @ show_int (daemonProcessID d) @ [tab] @ daemon_status_map ! nat (daemonStatus d) @ [nl])
     else Inl MemFault)"

fun status_loop :: "daemon list \<Rightarrow> ('w, unit) act" where
  "status_loop [] = ret ()"
| "status_loop (d # ds) = bnd (lift_outcome (status_line d)) (\<lambda>t. sq (print t) (status_loop ds))"

definition legion_status_all :: "('w, unit) act" where
  "legion_status_all = bnd (gets daemons) status_loop"

subsection \<open>Starting and stopping\<close>

definition log_path :: "string \<Rightarrow> nat \<Rightarrow> string" where
  "log_path n v = LOGFILE_DIR @ ''/'' @ n @ ''.log.'' @ [char_of (v + 48)]"

definition open_append :: "string \<Rightarrow> ('w, unit) act" where
  "open_append p = modify (\<lambda>s. if log_files s p = None then s\<lparr>log_files := (log_files s)(p \<mapsto> 0)\<rparr> else s)"

text \<open>The parent's side; the signal is blocked, so only SIGALRM can interrupt the \<open>read\<close>.\<close>

definition legion_start :: "'w os_api \<Rightarrow> argp \<Rightarrow> nat \<Rightarrow> ('w, int) act" where
  "legion_start os curName logFileVersion = bnd (legion_daemon_name_exists curName) (\<lambda>r. case r of
     None \<Rightarrow> sq (emit (EvError ''command execution'')) (ret 0)
   | Some i \<Rightarrow> bnd (the_daemon i) (\<lambda>d.
     if daemonStatus d \<noteq> status_inactive then sq (emit (EvError ''command execution'')) (ret 0)
     else sq (set_status i status_starting) (bnd (os_call (os_pipe os)) (\<lambda>piped.
       if \<not> piped then sq (set_status i status_inactive) (sq (emit (EvError ''Pipe error'')) (ret 0))
       else bnd (os_call (os_fork os)) (\<lambda>childPID.
       if childPID = -1 then sq (set_status i status_inactive) (sq (emit (EvError ''Fork error'')) (ret 0))
       else bnd (os_call (os_read os)) (\<lambda>(n, alrm, opened).
         sq (when_do opened (open_append (log_path (read_name d) logFileVersion)))
         (sq (when_do alrm (modify (\<lambda>s. s\<lparr>sigalrm_flag := True\<rparr>)))
         (sq (when_do (n \<noteq> 0) (sq (emit (EvStart (read_name d)))
               (sq (upd_daemon i (\<lambda>d. d\<lparr>daemonProcessID := childPID, daemonStatus := status_active\<rparr>))
                   (emit (EvActive (read_name d) childPID)))))
         (bnd (gets sigalrm_flag) (\<lambda>a.
           if a then sq (emit (EvStop (read_name d) childPID)) (sq (set_status i status_crashed)
                  (sq (modify (\<lambda>s. s\<lparr>sigalrm_flag := False\<rparr>)) (ret 0)))
           else ret 1))))))))))"

text \<open>The strings the child builds before it replaces itself, in buffers of the sizes it computes.\<close>

definition child_strings :: "string option \<Rightarrow> string \<Rightarrow> nat \<Rightarrow> (string \<times> string) outcome" where
  "child_strings path curName v = (case path of
     None \<Rightarrow> Inl MemFault
   | Some p \<Rightarrow>
       if length p < 2 then Inl MemFault else
       let logFilePath = length LOGFILE_DIR + length curName + 2;
           envPath = length DAEMONS_DIR + (length p - 2);
           e = take 999 (DAEMONS_DIR @ '':'' @ p); l = take 999 (log_path curName v)
       in if length e + 1 > envPath then Inl MemFault
          else if length l + 1 > logFilePath then Inl MemFault else Inr (e, l))"

definition legion_stop :: "'w os_api \<Rightarrow> argp \<Rightarrow> ('w, int) act" where
  "legion_stop os curName = bnd (legion_daemon_name_exists curName) (\<lambda>r. case r of
     None \<Rightarrow> fail MemFault
   | Some i \<Rightarrow> bnd (the_daemon i) (\<lambda>d. bnd (deref_arg curName) (\<lambda>nm.
     if daemonStatus d = status_exited \<or> daemonStatus d = status_crashed
     then sq (set_status i status_inactive) (sq (emit (EvReset (read_name d))) (ret 1))
     else if daemonStatus d \<noteq> status_active then sq (emit (EvError ''command execution'')) (ret 0)
     else sq (set_status i status_stopping) (sq (emit (EvStop (read_name d) (daemonProcessID d)))
       (bnd (os_call (os_kill os (daemonProcessID d))) (\<lambda>k.
       if k \<noteq> 0
       then bnd (sprintf_ok 100 (''Unable to send SIGTERM to daemon '' @ nm @ ''.'')) (\<lambda>m. sq (emit (EvError m)) (ret 0))
       else bnd (os_call (os_suspend os)) (\<lambda>(chld, alrm).
         sq (modify (\<lambda>s. s\<lparr>sigchld_flag := sigchld_flag s \<or> chld, sigalrm_flag := sigalrm_flag s \<or> alrm\<rparr>))
         (bnd (gets sigchld_flag) (\<lambda>c. bnd (gets sigalrm_flag) (\<lambda>a.
         if c then bnd (os_call (os_waitpid os (daemonProcessID d))) (\<lambda>(curPID, status).
           if curPID = -1
           then bnd (sprintf_ok 100 (''WaitPID error with daemon '' @ nm @ ''.'')) (\<lambda>m.
             sq (emit (EvError m)) (sq (upd_daemon i (\<lambda>d. d\<lparr>daemonProcessID := 0, daemonStatus := status_crashed\<rparr>))
             (sq (emit (EvCrash (read_name d) curPID (status mod 128))) (ret 0))))
           else sq (set_status i status_exited) (sq (modify (\<lambda>s. s\<lparr>sigchld_flag := False\<rparr>))
             (sq (emit (EvTerm (read_name d) curPID 0)) (ret 1))))
         else if a then sq (emit (EvKill (read_name d) (daemonProcessID d)))
           (bnd (os_call (os_kill os (daemonProcessID d))) (\<lambda>_.
           bnd (sprintf_ok 100 (''Daemon '' @ nm @ '' killed with SIGKILL.'')) (\<lambda>m.
             sq (emit (EvError m)) (sq (modify (\<lambda>s. s\<lparr>sigalrm_flag := False\<rparr>)) (ret 0)))))
         else sq (set_status i status_exited) (ret 1)))))))))))"

subsection \<open>Rotating the logs\<close>

text \<open>\<open>rename\<close> fails when there is no file of the old name. Versions below \<open>k\<close> move up by one, the highest first.\<close>

fun rotate_loop :: "string \<Rightarrow> nat \<Rightarrow> (string \<Rightarrow> nat option) \<Rightarrow> bool \<times> (string \<Rightarrow> nat option)" where
  "rotate_loop n 0 fs = (True, fs)"
| "rotate_loop n (Suc i) fs = (case fs (log_path n i) of
     None \<Rightarrow> (False, fs)
   | Some x \<Rightarrow> rotate_loop n i (fs(log_path n (i + 1) := Some x, log_path n i := None)))"

text \<open>The first version not in use; the loop ends at 6 at the latest, which the caller has tested.\<close>

fun next_version :: "nat \<Rightarrow> nat \<Rightarrow> string \<Rightarrow> (string \<Rightarrow> nat option) \<Rightarrow> nat" where
  "next_version 0 v n fs = v"
| "next_version (Suc k) v n fs = (if fs (log_path n v) \<noteq> None then next_version k (v + 1) n fs else v)"

definition legion_logrotate :: "'w os_api \<Rightarrow> argp \<Rightarrow> ('w, int) act" where
  "legion_logrotate os curName = bnd (legion_daemon_name_exists curName) (\<lambda>r. case r of
     None \<Rightarrow> sq (emit (EvError ''command execution'')) (ret 0)
   | Some i \<Rightarrow> bnd (the_daemon i) (\<lambda>d. bnd (deref_arg curName) (\<lambda>n.
     if daemonStatus d \<noteq> status_active then sq (emit (EvError ''Daemon not started'')) (ret 0)
     else bnd (sprintf_ok LOGFILE_PATH_LENGTH (log_path n (LOG_VERSIONS - 1))) (\<lambda>top. bnd (gets log_files) (\<lambda>fs.
       if fs top \<noteq> None then
         (case rotate_loop n (LOG_VERSIONS - 1) (fs(top := None)) of (ok, fs') \<Rightarrow>
           sq (modify (\<lambda>s. s\<lparr>log_files := fs'\<rparr>))
           (if \<not> ok then sq (emit (EvError ''Unable to logrotate files'')) (ret 0)
            else sq (emit (EvLogrotate n)) (sq (legion_stop os curName) (sq (legion_stop os curName)
                   (sq (legion_start os curName 0) (ret 1))))))
       else
         let v = next_version LOG_VERSIONS 0 n fs in
         sq (emit (EvLogrotate n)) (sq (legion_stop os curName) (sq (legion_stop os curName)
           (sq (legion_start os curName v) (ret 1))))))))) "

subsection \<open>The commands\<close>

text \<open>The daemons from \<open>i\<close> on that are active are stopped, by name.\<close>

fun quit_stop :: "'w os_api \<Rightarrow> nat \<Rightarrow> nat \<Rightarrow> ('w, unit) act" where
  "quit_stop os i 0 = ret ()"
| "quit_stop os i (Suc k) = bnd (the_daemon i) (\<lambda>d.
     if daemonStatus d = status_active
     then sq (legion_stop os (ArgStr (read_name d))) (quit_stop os (i + 1) k)
     else quit_stop os (i + 1) k)"

fun quit_free :: "daemon list \<Rightarrow> ('w, unit) act" where
  "quit_free [] = ret ()"
| "quit_free (d # ds) = sq (when_do (read_name d \<noteq> ''daemonNodeHead'') (emit (EvUnregister (read_name d)))) (quit_free ds)"

definition legion_quit :: "'w os_api \<Rightarrow> ('w, unit) act" where
  "legion_quit os = bnd (gets (\<lambda>s. length (daemons s))) (\<lambda>k. sq (quit_stop os 0 k)
     (bnd (gets daemons) (\<lambda>ds. sq (quit_free ds)
     (sq (emit EvFini) (modify (\<lambda>s. s\<lparr>daemons := [], exit_status := Some 0\<rparr>))))))"

definition HELP_MSG :: string where
  "HELP_MSG = ''Available commands:'' @ nl # ''help (0 args) Print this help message'' @ nl #
     ''quit (0 args) Quit the program'' @ nl # ''register (0 args) Register a daemon'' @ nl #
     ''unregister (1 args) Unregister a daemon'' @ nl # ''status (1 args) Show the status of a daemon'' @ nl #
     ''status-all (0 args) Show the status of all daemons'' @ nl # ''start (1 args) Start a daemon'' @ nl #
     ''stop (1 args) Stop a daemon'' @ nl # ''logrotate (1 args) Rotate log files for a daemon'' @ [nl]"

definition exec_error :: "string \<Rightarrow> ('w, unit) act" where
  "exec_error cmd = print (''Error executing command: '' @ cmd @ '' '' @ [nl])"

definition legion_check_args_print_err :: "nat \<Rightarrow> nat \<Rightarrow> string \<Rightarrow> ('w, unit) act" where
  "legion_check_args_print_err given required curArg =
     sq (print (''Wrong number of args (given: '' @ show_int (int given - 1) @ '', required: '' @ show_nat required
          @ '') for command '' @ [CHR 0x27] @ ''status-all'' @ [CHR 0x27] @ '' '' @ [nl]))
     (sq (emit (EvError ''command execution'')) (exec_error curArg))"

definition on_zero :: "('w, int) act \<Rightarrow> ('w, unit) act \<Rightarrow> ('w, unit) act" where
  "on_zero m e = bnd m (\<lambda>r. if r = 0 then e else ret ())"

definition one_arg :: "string \<Rightarrow> nat \<Rightarrow> nat \<Rightarrow> ('w, unit) act \<Rightarrow> ('w, unit) act" where
  "one_arg cmd k required m = (if k > 2 then legion_check_args_print_err k required cmd else m)"

definition legion_check_args :: "'w os_api \<Rightarrow> ('w, unit) act" where
  "legion_check_args os = bnd (gets argArrIdx) (\<lambda>k. bnd (gets argArr) (\<lambda>a.
     if k = 0 then ret () else bnd (deref_arg (a 0)) (\<lambda>cmd.
     let err = sq (emit (EvError ''command execution'')) (exec_error cmd) in
     if cmd = ''help'' then print HELP_MSG
     else if cmd = ''quit'' then legion_quit os
     else if cmd = ''register'' then
       (if k < 3 then sq (print (''Usage: register <daemon> <cmd-and-args> '' @ [nl])) err
        else bnd (legion_daemon_name_exists (a 1)) (\<lambda>r.
          if r = None then sq (legion_register (a 1) (a 2) (if a 3 \<noteq> ArgNull then a 3 else ArgStr [])) (ret ())
          else bnd (deref_arg (a 1)) (\<lambda>n. sq (print (''Daemon '' @ n @ '' is already registered.'' @ [nl])) err)))
     else if cmd = ''unregister'' then one_arg cmd k 2
       (on_zero (legion_unregister (a 1)) (bnd (deref_arg (a 1)) (\<lambda>n.
          sq (print (''Daemon '' @ n @ '' is not registered.'' @ [nl])) err)))
     else if cmd = ''status'' then one_arg cmd k 1
       (bnd (legion_daemon_name_exists (a 1)) (\<lambda>r. case r of
          Some i \<Rightarrow> bnd (the_daemon i) (\<lambda>d. bnd (lift_outcome (status_line d)) print)
        | None \<Rightarrow> err))
     else if cmd = ''status-all'' then
       (if k > 1 then legion_check_args_print_err k 0 cmd else legion_status_all)
     else if cmd = ''start'' then one_arg cmd k 1 (on_zero (legion_start os (a 1) 0) (exec_error cmd))
     else if cmd = ''stop'' then one_arg cmd k 1 (on_zero (legion_stop os (a 1)) (exec_error cmd))
     else if cmd = ''logrotate'' then one_arg cmd k 1 (on_zero (legion_logrotate os (a 1)) (exec_error cmd))
     else sq (print (''Unrecognized command: '' @ cmd @ '' '' @ [nl])) err)))"

definition legion_parse_args :: "'w os_api \<Rightarrow> string \<Rightarrow> ('w, unit) act" where
  "legion_parse_args os line =
     sq (modify (\<lambda>s. s\<lparr>argArrIdx := 0\<rparr>)) (bnd (lift_outcome (line_body line)) (\<lambda>b.
     case copy_fields b of None \<Rightarrow> ret ()
     | Some t \<Rightarrow>
         if NUL \<notin> set t \<and> 2 * length b \<le> length t then fail MemFault
         else bnd (gets argArr) (\<lambda>arr. bnd (lift_outcome (store_args (tokens (cstr t)) None 0 arr)) (\<lambda>(k, arr').
           sq (modify (\<lambda>s. s\<lparr>argArrIdx := k, argArr := arr'\<rparr>))
           (sq (legion_check_args os) (modify (\<lambda>s. s\<lparr>argArr := stale \<circ> argArr s\<rparr>)))))))"

text \<open>What happens at the prompt: a line is read, or one of the two signals that quit.\<close>

datatype cli_event = Line string | SigInt | SigTstp

definition cli_step :: "'w os_api \<Rightarrow> cli_event \<Rightarrow> ('w, unit) act" where
  "cli_step os e = (case e of Line l \<Rightarrow> sq (print ''legion> '') (legion_parse_args os l)
     | SigInt \<Rightarrow> legion_quit os | SigTstp \<Rightarrow> legion_quit os)"

fun run_cli :: "'w os_api \<Rightarrow> cli_event list \<Rightarrow> ('w, unit) act" where
  "run_cli os [] = print ''legion> ''"
| "run_cli os (e # es) = bnd (gets exit_status) (\<lambda>x.
     if x \<noteq> None then ret () else sq (cli_step os e) (run_cli os es))"

subsection \<open>The life of a daemon\<close>

text \<open>The abstract machine: what a command may do to the list of daemons, one step at a time.\<close>

definition changed :: "nat \<Rightarrow> int \<Rightarrow> int \<Rightarrow> daemon list \<Rightarrow> daemon list" where
  "changed i st pid ds = ds[i := (ds ! i)\<lparr>daemonStatus := st, daemonProcessID := pid\<rparr>]"

inductive daemon_step :: "daemon list \<Rightarrow> daemon list \<Rightarrow> bool" where
  start: "i < length ds \<Longrightarrow> daemonStatus (ds ! i) = status_inactive \<Longrightarrow>
    st \<in> {status_inactive, status_starting, status_active, status_crashed} \<Longrightarrow> daemon_step ds (changed i st pid ds)"
| stop: "i < length ds \<Longrightarrow> daemonStatus (ds ! i) = status_active \<Longrightarrow>
    st \<in> {status_stopping, status_exited, status_crashed} \<Longrightarrow> daemon_step ds (changed i st pid ds)"
| reset: "i < length ds \<Longrightarrow> daemonStatus (ds ! i) \<in> {status_exited, status_crashed} \<Longrightarrow>
    daemon_step ds (changed i status_inactive pid ds)"
| register: "find_name n ds = None \<Longrightarrow> daemonStatus d = status_inactive \<Longrightarrow> daemonName d = strncpy100 n \<Longrightarrow>
    daemonProcessID d = 0 \<Longrightarrow> daemon_step ds (d # ds)"
| unregister: "i < length ds \<Longrightarrow> daemonStatus (ds ! i) = status_inactive \<Longrightarrow>
    daemon_step ds (take i ds @ drop (i + 1) ds)"

inductive_cases daemon_stepE [elim]: "daemon_step ds ds'"

definition stuck :: "daemon \<Rightarrow> bool" where
  "stuck d \<longleftrightarrow> daemonStatus d = status_starting \<or> daemonStatus d = status_stopping"

definition status_ok :: "daemon \<Rightarrow> bool" where
  "status_ok d \<longleftrightarrow> status_inactive \<le> daemonStatus d \<and> daemonStatus d \<le> status_crashed"

lemma stuck_changed:
  "d \<in> set ds \<Longrightarrow> stuck d \<Longrightarrow> i < length ds \<Longrightarrow> \<not> stuck (ds ! i) \<Longrightarrow> d \<in> set (changed i st pid ds)"
  unfolding changed_def by (metis in_set_conv_nth length_list_update nth_list_update_neq)

lemma stuck_removed:
  "d \<in> set ds \<Longrightarrow> stuck d \<Longrightarrow> i < length ds \<Longrightarrow> \<not> stuck (ds ! i) \<Longrightarrow> d \<in> set (take i ds @ drop (i + 1) ds)"
proof -
  assume a: "d \<in> set ds" "stuck d" "i < length ds" "\<not> stuck (ds ! i)"
  have "ds = take i ds @ ds ! i # drop (i + 1) ds" using a(3) by (simp add: id_take_nth_drop)
  then have "set ds = insert (ds ! i) (set (take i ds @ drop (i + 1) ds))"
    by (metis list.simps(15) set_append Un_insert_right)
  then show ?thesis using a by auto
qed

lemma step_stuck: "daemon_step ds ds' \<Longrightarrow> d \<in> set ds \<Longrightarrow> stuck d \<Longrightarrow> d \<in> set ds'"
proof (induction rule: daemon_step.induct)
  case (start i ds st pid)
  then show ?case by (intro stuck_changed) (auto simp: stuck_def status_defs)
next
  case (stop i ds st pid)
  then show ?case by (intro stuck_changed) (auto simp: stuck_def status_defs)
next
  case (reset i ds pid)
  then show ?case by (intro stuck_changed) (auto simp: stuck_def status_defs)
next
  case (unregister i ds)
  then show ?case by (intro stuck_removed) (auto simp: stuck_def status_defs)
qed simp

lemma step_status: "daemon_step ds ds' \<Longrightarrow> list_all status_ok ds \<Longrightarrow> list_all status_ok ds'"
proof (induction rule: daemon_step.induct)
  case (unregister i ds)
  then show ?case by (auto simp: list_all_iff dest: in_set_takeD in_set_dropD)
qed (auto simp: changed_def list_all_iff status_ok_def status_defs dest!: set_update_subset_insert [THEN subsetD])

subsection \<open>Commands follow the machine\<close>

named_theorems follows_intros \<open>actions that follow the machine of daemons\<close>

definition follows :: "('w, 'a) act \<Rightarrow> bool" where
  "follows m \<longleftrightarrow> (\<forall>s r s'. m s = Inr (r, s') \<longrightarrow> exit_status s' = None \<longrightarrow>
     exit_status s = None \<and> daemon_step\<^sup>*\<^sup>* (daemons s) (daemons s'))"

lemma follows_bnd [follows_intros]: "follows m \<Longrightarrow> (\<And>x. follows (k x)) \<Longrightarrow> follows (bnd m k)"
  unfolding follows_def bnd_eq_Inr by (meson rtranclp_trans)

lemma follows_sq [follows_intros]: "follows m \<Longrightarrow> follows k \<Longrightarrow> follows (sq m k)"
  unfolding sq_def by (rule follows_bnd)

lemma follows_modify:
  "(\<And>s. daemons (f s) = daemons s) \<Longrightarrow> (\<And>s. exit_status (f s) = exit_status s) \<Longrightarrow> follows (modify f)"
  by (auto simp: follows_def)

lemma follows_basic [follows_intros]:
  "follows (ret x)" "follows (fail e)" "follows (gets g)" "follows (emit v)" "follows (print t)"
  "follows (os_call q)" "follows (lift_outcome oc)" "follows (deref_arg a)" "follows (sprintf_ok n t)"
  "follows (the_daemon i)"
  by (auto simp: follows_def emit_def print_def os_call_def sprintf_ok_def the_daemon_def lift_outcome_def
      deref_arg_def obind_Inr_iff split: prod.splits argp.splits if_splits)

lemma follows_if [follows_intros]: "follows m \<Longrightarrow> follows k \<Longrightarrow> follows (if b then m else k)"
  by simp

lemma follows_when [follows_intros]: "follows m \<Longrightarrow> follows (when_do b m)"
  by (simp add: when_do_def follows_basic)

lemma follows_exists [follows_intros]: "follows (legion_daemon_name_exists a)"
  unfolding legion_daemon_name_exists_def by (intro follows_intros)

lemma find_name_lt: "find_name n ds = Some i \<Longrightarrow> i < length ds"
  by (induction ds arbitrary: i) (auto split: if_splits)

text \<open>What a successful run of a primitive does, for unfolding longer runs.\<close>

lemma run_prims [m_simps]:
  "emit v s = Inr ((), s\<lparr>events := events s @ [v]\<rparr>)" "print t s = Inr ((), s\<lparr>printed := printed s @ t\<rparr>)"
  "upd_daemon i f s = Inr ((), s\<lparr>daemons := (daemons s)[i := f (daemons s ! i)]\<rparr>)"
  "the_daemon i s = (if i < length (daemons s) then Inr (daemons s ! i, s) else Inl MemFault)"
  by (simp_all add: emit_def print_def upd_daemon_def the_daemon_def)

lemma run_exists: "legion_daemon_name_exists a s = Inr (r, s') \<Longrightarrow>
   s' = s \<and> (case r of None \<Rightarrow> True | Some i \<Rightarrow> i < length (daemons s))
     \<and> (\<forall>n. a = ArgStr n \<longrightarrow> r = find_name n (daemons s))"
  by (auto simp: legion_daemon_name_exists_def deref_arg_def split: if_splits argp.splits option.splits
      dest: find_name_lt)

lemma changed_trivial: "i < length ds \<Longrightarrow> changed i (daemonStatus (ds ! i)) (daemonProcessID (ds ! i)) ds = ds"
  by (simp add: changed_def)

lemma changed_upd:
  "ds[i := (ds ! i)\<lparr>daemonStatus := st\<rparr>] = changed i st (daemonProcessID (ds ! i)) ds"
  "ds[i := (ds ! i)\<lparr>daemonProcessID := pid, daemonStatus := st\<rparr>] = changed i st pid ds"
  "i < length ds \<Longrightarrow> changed i st' pid' (changed i st pid ds) = changed i st' pid' ds"
  "i < length ds \<Longrightarrow> daemonProcessID (changed i st pid ds ! i) = pid"
  "length (changed i st pid ds) = length ds"
  by (simp_all add: changed_def) (cases "ds ! i", simp)

lemmas act_simps = m_simps sq_def bnd_def os_call_def open_append_def when_do_def sprintf_ok_def changed_upd

lemma start_run:
  assumes e: "legion_daemon_name_exists a s = Inr (Some i, s)" and i: "i < length (daemons s)"
    and d: "d = daemons s ! i" "daemonStatus d = status_inactive"
    and p: "os_pipe os (osw s) = (True, w1)" and f: "os_fork os w1 = (pid, w2)" "pid \<noteq> -1"
    and r: "os_read os w2 = ((k, alrm, opened), w3)" and c: "crash = (sigalrm_flag s \<or> alrm)"
  shows "\<exists>s'. legion_start os a v s = Inr (if crash then 0 else 1, s') \<and> exit_status s' = exit_status s
    \<and> daemons s' = changed i (if crash then status_crashed else if k = 0 then status_starting else status_active)
        (if k = 0 then daemonProcessID d else pid) (daemons s)
    \<and> events s' = events s @ (if k = 0 then [] else [EvStart (read_name d), EvActive (read_name d) pid])
        @ (if crash then [EvStop (read_name d) pid] else [])"
  using assms by (cases "k = 0"; cases alrm; cases "sigalrm_flag s"; cases opened)
    (auto simp: legion_start_def e act_simps)

lemma run_start:
  assumes "legion_start os a v s = Inr (r, s')"
  shows "exit_status s' = exit_status s \<and> (daemons s' = daemons s
    \<or> (\<exists>i st pid. i < length (daemons s) \<and> daemonStatus (daemons s ! i) = status_inactive
        \<and> st \<in> {status_inactive, status_starting, status_active, status_crashed}
        \<and> daemons s' = changed i st pid (daemons s)))"
proof -
  from assms obtain w s0 where e: "legion_daemon_name_exists a s = Inr (w, s0)"
    by (auto simp: legion_start_def bnd_eq_Inr)
  note x = run_exists [OF e]
  show ?thesis
  proof (cases w)
    case None
    then show ?thesis using assms e x by (auto simp: legion_start_def m_simps sq_def bnd_def)
  next
    case (Some i)
    then have i: "i < length (daemons s)" "s0 = s" using x by auto
    have e: "legion_daemon_name_exists a s = Inr (Some i, s)" using e Some i by simp
    obtain piped w1 where p: "os_pipe os (osw s) = (piped, w1)" by force
    obtain pid w2 where f: "os_fork os w1 = (pid, w2)" by force
    obtain k alrm opened w3 where rd: "os_read os w2 = ((k, alrm, opened), w3)" by (metis prod.collapse)
    consider "daemonStatus (daemons s ! i) \<noteq> status_inactive"
      | "daemonStatus (daemons s ! i) = status_inactive" "\<not> piped \<or> pid = -1"
      | "daemonStatus (daemons s ! i) = status_inactive" "piped" "pid \<noteq> -1" by blast
    then show ?thesis
    proof cases
      case 1
      then show ?thesis using assms i by (auto simp: legion_start_def e act_simps)
    next
      case 2
      then have "exit_status s' = exit_status s
          \<and> daemons s' = changed i status_inactive (daemonProcessID (daemons s ! i)) (daemons s)"
        using assms i p f by (cases piped) (auto simp: legion_start_def e act_simps)
      then show ?thesis using 2 i by blast
    next
      case 3
      from start_run [OF e i(1) refl 3(1) p [unfolded eqTrueI [OF 3(2)]] f 3(3) rd refl, of v] assms 3(1) i(1)
      show ?thesis by (auto split: if_splits)
    qed
  qed
qed

lemma run_deref: "deref_arg a s = Inr (n, s') \<Longrightarrow> s' = s \<and> a = ArgStr n"
  by (auto simp: deref_arg_def split: argp.splits)

lemma stop_run:
  fixes s :: "'w legion"
  assumes e: "legion_daemon_name_exists a s = Inr (Some i, s)" and i: "i < length (daemons s)"
    and d_def: "d = daemons s ! i" and n: "deref_arg a = (ret n :: ('w, string) act)" and len: "length n \<le> 60" and d: "daemonStatus d = status_active"
    and k: "os_kill os (daemonProcessID d) (osw s) = (kr, w1)" and u: "os_suspend os w1 = ((chld, alrm), w2)"
    and w: "os_waitpid os (daemonProcessID d) w2 = ((cp, ws), w3)" and k2: "os_kill os (daemonProcessID d) w2 = (kr2, w4)"
    and c: "c = (sigchld_flag s \<or> chld)" and al: "al = (sigalrm_flag s \<or> alrm)"
  shows "\<exists>s'. legion_stop os a s = Inr (if kr = 0 \<and> (if c then cp \<noteq> -1 else \<not> al) then 1 else 0, s')
    \<and> exit_status s' = exit_status s
    \<and> daemons s' = changed i (if kr \<noteq> 0 then status_stopping
          else if c then (if cp = -1 then status_crashed else status_exited)
          else if al then status_stopping else status_exited)
        (if kr = 0 \<and> c \<and> cp = -1 then 0 else daemonProcessID d) (daemons s)"
proof -
  have st: "status_active \<noteq> status_exited" "status_active \<noteq> status_crashed" by (simp_all add: status_defs)
  note ss = legion_stop_def e act_simps n i d_def
  note oo = k [unfolded d_def] u w [unfolded d_def] k2 [unfolded d_def] d [unfolded d_def] st
  consider "kr \<noteq> 0" | "kr = 0" "c" "cp = -1" | "kr = 0" "c" "cp \<noteq> -1" | "kr = 0" "\<not> c" "al"
    | "kr = 0" "\<not> c" "\<not> al" by blast
  then show ?thesis
  proof cases
    case 1 then show ?thesis using len by (simp add: ss oo)
  next
    case 2 then show ?thesis using len by (auto simp: ss oo c)
  next
    case 3 then show ?thesis using len by (auto simp: ss oo c)
  next
    case 4 then show ?thesis using len by (auto simp: ss oo c al)
  next
    case 5 then show ?thesis using len by (auto simp: ss oo c al)
  qed
qed

lemma run_stop:
  assumes run: "legion_stop os a s = Inr (r, s')"
  shows "exit_status s' = exit_status s \<and> (daemons s' = daemons s
    \<or> (\<exists>i pid. i < length (daemons s) \<and> daemonStatus (daemons s ! i) \<in> {status_exited, status_crashed}
        \<and> daemons s' = changed i status_inactive pid (daemons s))
    \<or> (\<exists>i st pid. i < length (daemons s) \<and> daemonStatus (daemons s ! i) = status_active
        \<and> st \<in> {status_stopping, status_exited, status_crashed}
        \<and> daemons s' = changed i st pid (daemons s)))"
proof -
  from run obtain x s0 where e0: "legion_daemon_name_exists a s = Inr (x, s0)"
    by (auto simp: legion_stop_def bnd_eq_Inr)
  have "x \<noteq> None" using run e0 by (cases x) (auto simp: legion_stop_def bnd_def)
  then obtain i where i: "i < length (daemons s)" and e: "legion_daemon_name_exists a s = Inr (Some i, s)"
    using run_exists [OF e0] e0 by auto
  obtain n where n: "deref_arg a = (ret n :: ('a, string) act)"
    using run e i by (cases a) (auto simp: legion_stop_def bnd_def m_simps deref_arg_def)
  obtain kr w1 where k: "os_kill os (daemonProcessID (daemons s ! i)) (osw s) = (kr, w1)" by force
  obtain chld alrm w2 where u: "os_suspend os w1 = ((chld, alrm), w2)" by (metis prod.collapse)
  obtain cp ws w3 where w: "os_waitpid os (daemonProcessID (daemons s ! i)) w2 = ((cp, ws), w3)" by (metis prod.collapse)
  obtain kr2 w4 where k2: "os_kill os (daemonProcessID (daemons s ! i)) w2 = (kr2, w4)" by force
  have st: "status_active \<noteq> status_exited" "status_active \<noteq> status_crashed" by (simp_all add: status_defs)
  note ss = legion_stop_def e act_simps n i k u w k2 st
  consider "daemonStatus (daemons s ! i) \<in> {status_exited, status_crashed}"
    | "daemonStatus (daemons s ! i) \<notin> {status_exited, status_crashed, status_active}"
    | "daemonStatus (daemons s ! i) = status_active" "kr \<noteq> 0"
    | "daemonStatus (daemons s ! i) = status_active" "kr = 0" "sigchld_flag s \<or> chld" "cp = -1"
    | "daemonStatus (daemons s ! i) = status_active" "kr = 0" "sigchld_flag s \<or> chld" "cp \<noteq> -1"
    | "daemonStatus (daemons s ! i) = status_active" "kr = 0" "\<not> (sigchld_flag s \<or> chld)" by blast
  then show ?thesis
  proof cases
    case 1
    then have "exit_status s' = exit_status s
        \<and> daemons s' = changed i status_inactive (daemonProcessID (daemons s ! i)) (daemons s)"
      using run by (auto simp: ss)
    then show ?thesis using 1 i by blast
  next
    case 2
    then show ?thesis using run by (auto simp: ss)
  next
    case 3
    then have "exit_status s' = exit_status s
        \<and> daemons s' = changed i status_stopping (daemonProcessID (daemons s ! i)) (daemons s)"
      using run by (auto simp: ss split: if_splits)
    then show ?thesis using 3 i by blast
  next
    case 4
    then have "exit_status s' = exit_status s \<and> daemons s' = changed i status_crashed 0 (daemons s)"
      using run by (auto simp: ss split: if_splits)
    then show ?thesis using 4 i by blast
  next
    case 5
    then have "exit_status s' = exit_status s
        \<and> daemons s' = changed i status_exited (daemonProcessID (daemons s ! i)) (daemons s)"
      using run by (auto simp: ss)
    then show ?thesis using 5 i by blast
  next
    case 6
    then have "exit_status s' = exit_status s
        \<and> daemons s' = changed i (if sigalrm_flag s \<or> alrm then status_stopping else status_exited)
             (daemonProcessID (daemons s ! i)) (daemons s)"
      using run by (auto simp: ss split: if_splits)
    moreover have "(if sigalrm_flag s \<or> alrm then status_stopping else status_exited)
        \<in> {status_stopping, status_exited, status_crashed}" by simp
    ultimately show ?thesis using 6(1) i by blast
  qed
qed

lemma follows_start [follows_intros]: "follows (legion_start os a v)"
  unfolding follows_def
proof (intro allI impI)
  fix s r s' assume "legion_start os a v s = Inr (r, s')" "exit_status s' = None"
  with run_start [OF this(1)] show "exit_status s = None \<and> daemon_step\<^sup>*\<^sup>* (daemons s) (daemons s')"
    using daemon_step.start r_into_rtranclp [of daemon_step] by (elim conjE disjE exE) (auto simp del: insert_iff)
qed

lemma follows_stop [follows_intros]: "follows (legion_stop os a)"
  unfolding follows_def
proof (intro allI impI)
  fix s r s' assume "legion_stop os a s = Inr (r, s')" "exit_status s' = None"
  with run_stop [OF this(1)] show "exit_status s = None \<and> daemon_step\<^sup>*\<^sup>* (daemons s) (daemons s')"
    using daemon_step.stop daemon_step.reset r_into_rtranclp [of daemon_step]
    by (elim conjE disjE exE) (auto simp del: insert_iff)
qed

lemma follows_case [follows_intros]:
  "follows m \<Longrightarrow> (\<And>i. follows (k i)) \<Longrightarrow> follows (case x of None \<Rightarrow> m | Some i \<Rightarrow> k i)"
  "(\<And>u v. follows (q u v)) \<Longrightarrow> follows (case y of (u, v) \<Rightarrow> q u v)"
  "follows m \<Longrightarrow> follows n \<Longrightarrow> follows (case z of SigInt \<Rightarrow> m | SigTstp \<Rightarrow> n | Line l \<Rightarrow> j l) \<Longrightarrow>
     follows (case z of SigInt \<Rightarrow> m | SigTstp \<Rightarrow> n | Line l \<Rightarrow> j l)"
  by (auto split: option.split prod.split)

lemma follows_modifies [follows_intros]:
  "follows (modify (\<lambda>s. s\<lparr>log_files := fs\<rparr>))" "follows (modify (\<lambda>s. s\<lparr>argArrIdx := k\<rparr>))"
  "follows (modify (\<lambda>s. s\<lparr>argArrIdx := k, argArr := g\<rparr>))" "follows (modify (\<lambda>s. s\<lparr>argArr := h s\<rparr>))"
  by (rule follows_modify; simp)+

lemma follows_logrotate [follows_intros]: "follows (legion_logrotate os a)"
  unfolding legion_logrotate_def Let_def by (intro follows_intros)

lemma follows_quit [follows_intros]: "follows (legion_quit os)"
  by (auto simp: follows_def legion_quit_def bnd_eq_Inr sq_def)

lemma follows_unregister [follows_intros]: "follows (legion_unregister a)"
  unfolding follows_def
proof (intro allI impI)
  fix s r s' assume r: "legion_unregister a s = Inr (r, s')" and n: "exit_status s' = None"
  then obtain x s0 where e: "legion_daemon_name_exists a s = Inr (x, s0)"
    by (auto simp: legion_unregister_def bnd_eq_Inr)
  note f = run_exists [OF e]
  show "exit_status s = None \<and> daemon_step\<^sup>*\<^sup>* (daemons s) (daemons s')"
  proof (cases x)
    case None
    then show ?thesis using r n e f by (auto simp: legion_unregister_def bnd_def)
  next
    case (Some i)
    then have i: "i < length (daemons s)" "s0 = s" using f by auto
    show ?thesis
    proof (cases "daemonStatus (daemons s ! i) = status_inactive")
      case True
      then have "daemons s' = take i (daemons s) @ drop (i + 1) (daemons s) \<and> exit_status s' = exit_status s"
        using r e i Some by (auto simp: legion_unregister_def bnd_def sq_def m_simps)
      then show ?thesis using daemon_step.unregister [OF i(1) True] n by auto
    next
      case False
      then show ?thesis using r e i Some n by (auto simp: legion_unregister_def bnd_def sq_def m_simps)
    qed
  qed
qed

lemma register_run:
  "legion_register a1 a2 a3 s = Inr (r, s') \<Longrightarrow> \<exists>n d. a1 = ArgStr n \<and> daemonName d = strncpy100 n
     \<and> daemonStatus d = status_inactive \<and> daemonProcessID d = 0 \<and> daemons s' = d # daemons s
     \<and> exit_status s' = exit_status s"
  by (auto simp: legion_register_def bnd_eq_Inr sq_def Let_def m_simps dest!: run_deref split: if_splits)

lemma follows_register [follows_intros]:
  assumes "follows (m :: ('w, unit) act)"
  shows "follows (bnd (legion_daemon_name_exists a1) (\<lambda>r. if r = None then sq (legion_register a1 a2 a3) (ret ()) else m))"
  unfolding follows_def
proof (intro allI impI)
  fix s :: "'w legion" and u s'
  assume r: "bnd (legion_daemon_name_exists a1) (\<lambda>r. if r = None then sq (legion_register a1 a2 a3) (ret ()) else m) s
      = Inr (u, s')" and n: "exit_status s' = None"
  then obtain x s0 where e: "legion_daemon_name_exists a1 s = Inr (x, s0)" by (auto simp: bnd_eq_Inr)
  have s0: "s0 = s" using run_exists [OF e] by simp
  show "exit_status s = None \<and> daemon_step\<^sup>*\<^sup>* (daemons s) (daemons s')"
  proof (cases x)
    case None
    then obtain q where "legion_register a1 a2 a3 s = Inr (q, s')"
      using r e s0 by (auto simp: bnd_def sq_def split: sum.splits)
    from register_run [OF this] obtain nm d where d: "a1 = ArgStr nm" "daemonName d = strncpy100 nm"
      "daemonStatus d = status_inactive" "daemonProcessID d = 0" "daemons s' = d # daemons s"
      "exit_status s' = exit_status s" by blast
    have "find_name nm (daemons s) = None" using run_exists [OF e] None d(1) by simp
    from daemon_step.register [OF this d(3,2,4)] d(5,6) n show ?thesis by auto
  next
    case (Some i)
    then have "m s = Inr (u, s')" using r e s0 by (simp add: bnd_def)
    then show ?thesis using assms n unfolding follows_def by blast
  qed
qed

lemma follows_status_loop [follows_intros]: "follows (status_loop ds)"
proof (induction ds)
  case Nil
  show ?case unfolding status_loop.simps by (intro follows_intros)
next
  case (Cons d ds)
  show ?case unfolding status_loop.simps by (intro follows_intros Cons.IH)
qed

lemma follows_print_err [follows_intros]:
  "follows (legion_check_args_print_err g q c)" "follows (exec_error c)" "follows legion_status_all"
  unfolding legion_check_args_print_err_def exec_error_def legion_status_all_def by (intro follows_intros)+

lemma follows_wrappers [follows_intros]:
  "follows m \<Longrightarrow> follows e \<Longrightarrow> follows (on_zero m e)" "follows m2 \<Longrightarrow> follows (one_arg c k q m2)"
  unfolding on_zero_def one_arg_def by (intro follows_intros; assumption)+

lemma follows_check_args [follows_intros]: "follows (legion_check_args os)"
  unfolding legion_check_args_def Let_def by (intro follows_intros)

lemma follows_parse_args [follows_intros]: "follows (legion_parse_args os l)"
  unfolding legion_parse_args_def by (intro follows_intros)

lemma follows_cli_step [follows_intros]: "follows (cli_step os e)"
  by (cases e) (auto simp: cli_step_def intro!: follows_intros)

lemma follows_cli: "follows (run_cli os es)"
proof (induction es)
  case Nil
  show ?case unfolding run_cli.simps by (intro follows_intros)
next
  case (Cons e es)
  show ?case unfolding run_cli.simps by (intro follows_intros Cons.IH)
qed

subsection \<open>Properties\<close>

definition demo_os :: "unit os_api" where
  "demo_os = \<lparr>os_pipe = (\<lambda>w. (True, w)), os_fork = (\<lambda>w. (77, w)), os_read = (\<lambda>w. ((0, False, True), w)),
     os_kill = (\<lambda>p w. (0, w)), os_suspend = (\<lambda>w. ((True, False), w)), os_waitpid = (\<lambda>p w. ((p, 0), w))\<rparr>"

definition demo_daemon :: "int \<Rightarrow> daemon" where
  "demo_daemon st = \<lparr>daemonName = strncpy100 ''lazy'', daemonExe = strncpy100 ''lazy'', daemonArgs = strncpy100 [],
     daemonStatus = st, daemonProcessID = 0\<rparr>"

definition demo_legion :: "int \<Rightarrow> unit legion" where
  "demo_legion st = (legion_start_state ())\<lparr>daemons := [demo_daemon st]\<rparr>"

lemma demo_name: "read_name (demo_daemon st) = ''lazy''"
  by (simp add: read_name_def cstr_def demo_daemon_def strncpy100_def DAEMON_NAME_MAX_LENGTH_def NUL_def)

lemma demo_run:
  "case run_cli demo_os [Line (''start lazy'' @ [nl])] (demo_legion 1) of Inl _ \<Rightarrow> False
     | Inr (u, s') \<Rightarrow> exit_status s' = None \<and> map daemonStatus (daemons s') = [2]"
  by code_simp

lemma demo_run_Inr:
  "\<exists>s'. run_cli demo_os [Line (''start lazy'' @ [nl])] (demo_legion 1) = Inr ((), s') \<and> exit_status s' = None
     \<and> map daemonStatus (daemons s') = [2]"
  using demo_run by (auto split: sum.splits)

lemma demo_run2:
  "case run_cli demo_os [Line (''start lazy'' @ [nl])] (demo_legion 2) of Inl _ \<Rightarrow> False | Inr (u, s') \<Rightarrow> exit_status s' = None"
  by code_simp

text \<open>
  C13. The command line interface refines the life-cycle machine of daemons: whatever lines are entered and
  whatever the operating system answers, as long as the program has not quit the list of daemons
  changes only by the steps of \<open>daemon_step\<close> - registration under a name not in the list, removal of an
  inactive daemon, a start from inactive, a stop from active, a reset from exited or crashed - and no
  daemon ever has a status outside inactive .. crashed.
\<close>

theorem cli_refines_life_cycle:
  assumes "run_cli os es s = Inr (u, s')" and "exit_status s' = None"
  shows "daemon_step\<^sup>*\<^sup>* (daemons s) (daemons s')
    \<and> (list_all status_ok (daemons s) \<longrightarrow> list_all status_ok (daemons s'))"
proof -
  have r: "daemon_step\<^sup>*\<^sup>* (daemons s) (daemons s')" using follows_cli assms unfolding follows_def by blast
  moreover from r have "list_all status_ok (daemons s) \<longrightarrow> list_all status_ok (daemons s')"
    by (induction rule: rtranclp_induct) (auto intro: step_status)
  ultimately show ?thesis by blast
qed

theorem cli_refines_life_cycle_witness:
  "\<exists>s'. run_cli demo_os [Line (''start lazy'' @ [nl])] (demo_legion 1) = Inr ((), s')
     \<and> daemon_step\<^sup>*\<^sup>* (daemons (demo_legion 1)) (daemons s') \<and> map daemonStatus (daemons s') = [2]"
proof -
  obtain s' where s': "run_cli demo_os [Line (''start lazy'' @ [nl])] (demo_legion 1) = Inr ((), s')" "exit_status s' = None"
    "map daemonStatus (daemons s') = [2]" using demo_run_Inr by (elim exE conjE that)
  from cli_refines_life_cycle [OF s'(1,2)] s'(1,3) show ?thesis by (intro exI [of _ s'] conjI) (elim conjE, assumption)+
qed

text \<open>
  C37. Two statuses are dead ends: a daemon that is starting (its process ended without reporting) or
  stopping (its process could not be signalled, or had to be killed) stays in the list, as it is, through
  any further commands: it can be neither started, stopped, reset nor unregistered until the program quits.
\<close>

theorem cli_stuck_forever:
  assumes "run_cli os es s = Inr (u, s')" and "exit_status s' = None" and "d \<in> set (daemons s)" and "stuck d"
  shows "d \<in> set (daemons s')"
proof -
  have "daemon_step\<^sup>*\<^sup>* (daemons s) (daemons s')" using follows_cli assms(1,2) unfolding follows_def by blast
  then show ?thesis using assms(3,4) by (induction rule: rtranclp_induct) (auto intro: step_stuck)
qed

theorem cli_stuck_forever_witness:
  "\<exists>s'. run_cli demo_os [Line (''start lazy'' @ [nl])] (demo_legion 2) = Inr ((), s') \<and> demo_daemon 2 \<in> set (daemons s')"
proof -
  obtain s' where s': "run_cli demo_os [Line (''start lazy'' @ [nl])] (demo_legion 2) = Inr ((), s')" "exit_status s' = None" using demo_run2 by (auto split: sum.splits)
  have "demo_daemon 2 \<in> set (daemons (demo_legion 2))" "stuck (demo_daemon 2)"
    by (simp_all add: demo_legion_def stuck_def demo_daemon_def status_defs)
  from cli_stuck_forever [OF s' this] s'(1) show ?thesis by (intro exI [of _ s'] conjI)
qed

text \<open>
  C15. Starting an inactive daemon whose process could be forked: with the report in time it becomes active
  under the new process; when the process ends without reporting it stays starting and the call still
  succeeds, with no event; when the time runs out it has crashed, and the call fails - but since an
  interrupted \<open>read\<close> returns -1, the start and active events have been sent before.
\<close>

theorem legion_start_spec:
  assumes "find_name n (daemons s) = Some i" and "daemonStatus (daemons s ! i) = status_inactive"
    and "os_pipe os (osw s) = (True, w1)" and "os_fork os w1 = (pid, w2)" and "pid \<noteq> -1"
    and "os_read os w2 = ((k, alrm, opened), w3)"
  shows "\<exists>s'. legion_start os (ArgStr n) v s = Inr (if sigalrm_flag s \<or> alrm then 0 else 1, s')
    \<and> daemons s' = changed i (if sigalrm_flag s \<or> alrm then status_crashed else if k = 0 then status_starting else status_active)
        (if k = 0 then daemonProcessID (daemons s ! i) else pid) (daemons s)
    \<and> events s' = events s @ (if k = 0 then [] else [EvStart (read_name (daemons s ! i)), EvActive (read_name (daemons s ! i)) pid])
        @ (if sigalrm_flag s \<or> alrm then [EvStop (read_name (daemons s ! i)) pid] else [])"
proof -
  have "legion_daemon_name_exists (ArgStr n) s = Inr (Some i, s)"
    using assms(1) by (cases "daemons s") (auto simp: legion_daemon_name_exists_def deref_arg_def)
  from start_run [OF this find_name_lt [OF assms(1)] refl assms(2-6) refl, of v] show ?thesis by blast
qed

lemma demo_find: "find_name ''lazy'' (daemons (demo_legion st)) = Some 0"
  "find_name ''polly'' (daemons (demo_legion st)) = None" "daemons (demo_legion st) ! 0 = demo_daemon st"
  by (simp_all add: demo_legion_def demo_name)

theorem legion_start_spec_witness:
  "\<exists>s'. legion_start demo_os (ArgStr ''lazy'') 0 (demo_legion 1) = Inr (1, s') \<and> events s' = []
     \<and> map daemonStatus (daemons s') = [status_starting]"
proof -
  have "daemonStatus (daemons (demo_legion 1) ! 0) = status_inactive"
    by (simp add: demo_find demo_daemon_def status_defs)
  from legion_start_spec [OF demo_find(1) this, of demo_os "()" 77 "()" 0 False True "()" 0]
  show ?thesis by (auto simp: demo_os_def demo_legion_def legion_start_state_def changed_def)
qed



lemma log_path_inj: "i < 200 \<Longrightarrow> j < 200 \<Longrightarrow> log_path n i = log_path n j \<longleftrightarrow> i = j"
proof -
  assume a: "i < 200" "j < 200"
  have "of_char (char_of (k + 48 :: nat)) = k + 48" if "k < 200" for k :: nat
    using that by (simp add: of_char_of take_bit_eq_mod)
  then have "char_of (i + 48) = (char_of (j + 48) :: char) \<longleftrightarrow> i = j" using a by (metis add_right_cancel)
  then show ?thesis by (simp add: log_path_def)
qed

lemma rotate_all:
  "k < 100 \<Longrightarrow> (\<And>i. i < k \<Longrightarrow> fs (log_path n i) \<noteq> None) \<Longrightarrow>
   \<exists>fs'. rotate_loop n k fs = (True, fs') \<and> (0 < k \<longrightarrow> fs' (log_path n 0) = None)
     \<and> (\<forall>i<k. fs' (log_path n (i + 1)) = fs (log_path n i))
     \<and> (\<forall>p. (\<forall>i\<le>k. p \<noteq> log_path n i) \<longrightarrow> fs' p = fs p)"
proof (induction k arbitrary: fs)
  case (Suc k)
  obtain x where x: "fs (log_path n k) = Some x" using Suc.prems(2) [of k] by auto
  let ?fs1 = "fs(log_path n (k + 1) := Some x, log_path n k := None)"
  have ne: "log_path n i \<noteq> log_path n k" "log_path n i \<noteq> log_path n (k + 1)" if "i < k" for i
    using log_path_inj [of i k n] log_path_inj [of i "k + 1" n] that Suc.prems(1) by simp_all
  have kk: "log_path n (k + 1) \<noteq> log_path n k" using log_path_inj [of "k + 1" k n] Suc.prems(1) by simp
  have "?fs1 (log_path n i) \<noteq> None" if "i < k" for i using that ne Suc.prems(2) [of i] by simp
  then have "\<exists>fs'. rotate_loop n k ?fs1 = (True, fs') \<and> (0 < k \<longrightarrow> fs' (log_path n 0) = None)
     \<and> (\<forall>i<k. fs' (log_path n (i + 1)) = ?fs1 (log_path n i))
     \<and> (\<forall>p. (\<forall>i\<le>k. p \<noteq> log_path n i) \<longrightarrow> fs' p = ?fs1 p)"
    using Suc.prems(1) by (intro Suc.IH) simp_all
  then obtain fs' where r0: "rotate_loop n k ?fs1 = (True, fs') \<and> (0 < k \<longrightarrow> fs' (log_path n 0) = None)
     \<and> (\<forall>i<k. fs' (log_path n (i + 1)) = ?fs1 (log_path n i))
     \<and> (\<forall>p. (\<forall>i\<le>k. p \<noteq> log_path n i) \<longrightarrow> fs' p = ?fs1 p)" by (rule exE)
  have r: "rotate_loop n k ?fs1 = (True, fs')" "0 < k \<longrightarrow> fs' (log_path n 0) = None"
    "\<And>i. i < k \<Longrightarrow> fs' (log_path n (i + 1)) = ?fs1 (log_path n i)"
    "\<And>p. (\<forall>i\<le>k. p \<noteq> log_path n i) \<Longrightarrow> fs' p = ?fs1 p"
    using r0 by blast+
  have a: "rotate_loop n (Suc k) fs = (True, fs')" using r(1) x by simp
  have b: "fs' (log_path n 0) = None" using r(2) r(1) by (cases k) auto
  have c: "fs' (log_path n (i + 1)) = fs (log_path n i)" if "i < Suc k" for i
  proof (cases "i = k")
    case True
    have "fs' (log_path n (k + 1)) = ?fs1 (log_path n (k + 1))"
      by (rule r(4)) (use log_path_inj [of "k + 1" _ n] Suc.prems(1) in auto)
    then show ?thesis using True kk x by simp
  next
    case False
    then show ?thesis using r(3) [of i] ne [of i] that by simp
  qed
  have "fs' p = fs p" if "\<forall>i\<le>Suc k. p \<noteq> log_path n i" for p
    using r(4) [of p] that by auto
  then show ?case using a b c by blast
qed simp

lemma next_version_first:
  "(\<exists>j. v \<le> j \<and> j < v + k \<and> fs (log_path n j) = None) \<Longrightarrow>
   fs (log_path n (next_version k v n fs)) = None \<and> (\<forall>j. v \<le> j \<and> j < next_version k v n fs \<longrightarrow> fs (log_path n j) \<noteq> None)"
proof (induction k arbitrary: v)
  case (Suc k)
  show ?case
  proof (cases "fs (log_path n v) = None")
    case False
    with Suc.prems have "\<exists>j. v + 1 \<le> j \<and> j < v + 1 + k \<and> fs (log_path n j) = None"
      by (metis Suc_eq_plus1 add_Suc_right add_Suc_shift le_neq_implies_less less_eq_Suc_le)
    from Suc.IH [OF this] False show ?thesis
      by (auto simp: not_less_eq_eq) (metis Suc_leI le_neq_implies_less option.distinct(1))
  qed auto
qed auto



text \<open>
  The child never gets as far as replacing itself within its buffers: for every search path, every
  name of up to 900 characters and every log version, one of the two strings it builds overflows the
  buffer it computed for it (or it reads a missing or too short path).
\<close>

theorem child_strings_overflow:
  assumes "length curName \<le> 900"
  shows "child_strings path curName v = Inl MemFault"
proof -
  have "length curName + 6 < length (take 999 (log_path curName v)) + 1"
    using assms by (simp add: log_path_def LOGFILE_DIR_def)
  then show ?thesis
    by (cases path) (auto simp: child_strings_def Let_def LOGFILE_DIR_def)
qed

theorem child_strings_overflow_witness: "child_strings (Some ''/usr/bin:/bin'') ''lazy'' 0 = Inl MemFault"
  by (rule child_strings_overflow) simp

end
