(* ===== verification/LegionParse.thy ===== *)
theory LegionParse
  imports Legion
begin

section \<open>What the daemon shell understands (hw4/src/cli.c, legion_parse_args)\<close>

text \<open>
  Lines written as fields with one space between them, plain or in quotes, and what
  \<open>legion_parse_args\<close> (theory \<open>Legion\<close>) makes of them.
\<close>

datatype field = Plain string | Quoted string

fun field_text :: "field \<Rightarrow> string" where
  "field_text (Plain s) = s"
| "field_text (Quoted s) = s"

fun field_ok :: "field \<Rightarrow> bool" where
  "field_ok (Plain s) \<longleftrightarrow> s \<noteq> [] \<and> hd s \<noteq> CHR ''<'' \<and> hd s \<noteq> CHR 0x27 \<and> CHR '' '' \<notin> set s
     \<and> nl \<notin> set s \<and> CHR ''@'' \<notin> set s \<and> NUL \<notin> set s"
| "field_ok (Quoted s) \<longleftrightarrow> s \<noteq> [] \<and> CHR 0x27 \<notin> set s \<and> nl \<notin> set s \<and> CHR ''@'' \<notin> set s \<and> NUL \<notin> set s"

fun render_field :: "field \<Rightarrow> string" where
  "render_field (Plain s) = s"
| "render_field (Quoted s) = CHR 0x27 # s @ [CHR 0x27]"

fun render_line :: "field list \<Rightarrow> string" where
  "render_line [] = []"
| "render_line [f] = render_field f"
| "render_line (f # fs) = render_field f @ CHR '' '' # render_line fs"

text \<open>Texts with a character between them.\<close>

fun join :: "char \<Rightarrow> string list \<Rightarrow> string" where
  "join c [] = []"
| "join c [t] = t"
| "join c (t # ts) = t @ c # join c ts"

subsection \<open>The copying loop and the tokens\<close>

declare copy_fields.simps(2) [simp del]

lemma takeWhile_until: "x \<notin> set s \<Longrightarrow> takeWhile (\<lambda>d. d \<noteq> x) (s @ x # r) = s"
  "x \<notin> set s \<Longrightarrow> takeWhile (\<lambda>d. d \<noteq> x) s = s"
  by (induction s) auto

lemma render_line_Cons: "fs \<noteq> [] \<Longrightarrow> render_line (f # fs) = render_field f @ CHR '' '' # render_line fs"
  by (cases fs) auto

lemma join_Cons: "ts \<noteq> [] \<Longrightarrow> join c (t # ts) = t @ c # join c ts"
  by (cases ts) auto

lemma render_field_head: "field_ok f \<Longrightarrow> \<exists>c s. render_field f = c # s \<and> c \<noteq> CHR '' ''"
  by (cases f; cases "field_text f") auto

lemma render_line_head: "fs \<noteq> [] \<Longrightarrow> field_ok (hd fs) \<Longrightarrow> \<exists>c s. render_line fs = c # s \<and> c \<noteq> CHR '' ''"
proof (cases fs)
  case (Cons f gs)
  assume "field_ok (hd fs)"
  then have "field_ok f" using Cons by simp
  from render_field_head [OF this] obtain c s where c: "render_field f = c # s" "c \<noteq> CHR '' ''" by (elim exE conjE)
  have "\<exists>t. render_line fs = c # t" using Cons c(1) by (cases gs) simp_all
  then show ?thesis using c(2) by (elim exE) (intro exI conjI)
qed simp

text \<open>\<open>rest\<close> is the end of the line or begins with a space.\<close>

lemma copy_field:
  assumes "field_ok f" and "rest = [] \<or> rest = CHR '' '' # r \<and> (\<exists>c s. r = c # s \<and> c \<noteq> CHR '' '')"
  shows "copy_fields (render_field f @ rest)
    = map_option (\<lambda>t. field_text f @ CHR ''@'' # t) (copy_fields (drop 1 rest))"
proof -
  have d: "dropWhile (\<lambda>d. d = CHR '' '') rest = drop 1 rest" and q: "dropWhile (\<lambda>d. d = CHR 0x27) rest = rest"
    using assms(2) by (elim disjE exE conjE; simp)+
  show ?thesis
  proof (cases f)
    case (Plain p)
    then obtain c s where p: "p = c # s" "c \<noteq> CHR ''<''" "c \<noteq> CHR 0x27" using assms(1) by (cases p) auto
    have sp: "CHR '' '' \<notin> set p" using assms(1) Plain by simp
    have "takeWhile (\<lambda>d. d \<noteq> CHR '' '') (p @ rest) = p"
      using assms(2) takeWhile_until [OF sp] by (elim disjE conjE) simp_all
    then have "takeWhile (\<lambda>d. d \<noteq> CHR '' '') (c # s @ rest) = c # s" by (simp only: p(1) append_Cons)
    then have "copy_fields (c # s @ rest) = map_option (\<lambda>t. (c # s) @ [CHR ''@''] @ t) (copy_fields (drop 1 rest))"
      using p(2,3) by (subst copy_fields.simps) (simp add: Let_def d)
    then show ?thesis using Plain p(1) by (simp)
  next
    case (Quoted t)
    have "takeWhile (\<lambda>d. d \<noteq> CHR 0x27) (t @ CHR 0x27 # rest) = t"
      using assms(1) Quoted takeWhile_until(1) [of "CHR 0x27" t] by simp
    then have "copy_fields (CHR 0x27 # t @ CHR 0x27 # rest)
        = map_option (\<lambda>u. t @ [CHR ''@''] @ u) (copy_fields (drop 1 rest))"
      by (subst copy_fields.simps) (simp add: Let_def d q)
    then show ?thesis using Quoted by (simp)
  qed
qed

lemma copy_line:
  "fs \<noteq> [] \<Longrightarrow> \<forall>f \<in> set fs. field_ok f \<Longrightarrow>
   copy_fields (render_line fs) = Some (concat (map (\<lambda>f. field_text f @ [CHR ''@'']) fs))"
proof (induction fs rule: render_line.induct)
  case (2 f)
  then show ?case using copy_field [of f "[]"] by simp
next
  case (3 f g fs)
  have "\<exists>c s. render_line (g # fs) = c # s \<and> c \<noteq> CHR '' ''" using 3(3) by (intro render_line_head) auto
  then have "copy_fields (render_field f @ CHR '' '' # render_line (g # fs))
      = map_option (\<lambda>t. field_text f @ CHR ''@'' # t) (copy_fields (render_line (g # fs)))"
    using copy_field [of f "CHR '' '' # render_line (g # fs)" "render_line (g # fs)"] 3(3) by simp
  then show ?case using 3 by simp
qed simp

lemma field_text_ok: "field_ok f \<Longrightarrow> field_text f \<noteq> [] \<and> CHR ''@'' \<notin> set (field_text f) \<and> NUL \<notin> set (field_text f)"
  by (cases f) auto

lemma tokens_fields:
  "\<forall>t \<in> set ts. t \<noteq> [] \<and> CHR ''@'' \<notin> set t \<Longrightarrow> tokens (concat (map (\<lambda>t. t @ [CHR ''@'']) ts)) = ts"
proof (induction ts)
  case Nil
  then show ?case by (subst tokens.simps) simp
next
  case (Cons t ts)
  let ?r = "concat (map (\<lambda>t. t @ [CHR ''@'']) ts)"
  have t: "t \<noteq> []" "CHR ''@'' \<notin> set t" using Cons.prems by auto
  then have d: "dropWhile (\<lambda>c. c = CHR ''@'') (t @ CHR ''@'' # ?r) = t @ CHR ''@'' # ?r" by (cases t) auto
  have w: "takeWhile (\<lambda>c. c \<noteq> CHR ''@'') (t @ CHR ''@'' # ?r) = t" by (rule takeWhile_until(1) [OF t(2)])
  have e: "dropWhile (\<lambda>c. c \<noteq> CHR ''@'') (t @ CHR ''@'' # ?r) = CHR ''@'' # ?r"
    using t(2) by (subst dropWhile_append2) auto
  have "tokens (CHR ''@'' # ?r) = tokens ?r" by (subst (1 2) tokens.simps) simp
  then have "tokens (t @ CHR ''@'' # ?r) = t # ts"
    using Cons t(1) by (subst tokens.simps) (simp add: d w e Let_def)
  then show ?case by simp
qed

subsection \<open>The arguments\<close>

lemma join_merge: "join c ((u @ c # t) # ts) = join c (u # t # ts)"
  by (cases ts) simp_all

lemma join_length: "ts \<noteq> [] \<Longrightarrow> length t \<le> length (join c (t # ts))"
  by (simp add: join_Cons)

lemma store_rest:
  "length (join (CHR '' '') (u # ts)) < 500 \<Longrightarrow> store_args ts (Some u) 3 arr
     = Inr (3, if ts = [] then arr else arr(3 := ArgStr (join (CHR '' '') (u # ts))))"
proof (induction ts arbitrary: u arr)
  case (Cons t ts)
  let ?v = "u @ CHR '' '' # t" and ?j = "join (CHR '' '') (u # t # ts)"
  have j: "join (CHR '' '') (?v # ts) = ?j" by (simp only: join_merge)
  have v: "length ?v + 1 \<le> ARG_CONTAINER"
    using Cons.prems join_length [of ts ?v "CHR '' ''"] unfolding j by (cases "ts = []") (simp_all add: ARG_CONTAINER_def)
  have "store_args (t # ts) (Some u) 3 arr = store_args ts (Some ?v) 3 (arr(3 := ArgStr ?v))"
    using v by (simp add: Let_def)
  also have "\<dots> = Inr (3, if ts = [] then arr(3 := ArgStr ?v) else (arr(3 := ArgStr ?v))(3 := ArgStr ?j))"
    by (rule Cons.IH [of ?v "arr(3 := ArgStr ?v)", unfolded j, OF Cons.prems])
  also have "\<dots> = Inr (3, arr(3 := ArgStr ?j))" by (cases "ts = []") simp_all
  finally show ?case by (simp only: list.distinct if_False)
qed simp

text \<open>Entries 0 to 2 are the first three fields, entry 3 the others; the rest stays as it was.\<close>

definition args_of :: "string list \<Rightarrow> (nat \<Rightarrow> argp) \<Rightarrow> nat \<Rightarrow> argp" where
  "args_of ts arr i = (if i < 3 \<and> i < length ts then ArgStr (ts ! i)
     else if i = 3 \<and> 3 < length ts then ArgStr (join (CHR '' '') (drop 3 ts)) else arr i)"

lemma store_fields:
  assumes "length (join (CHR '' '') (drop 3 ts)) < 500"
  shows "store_args ts None 0 arr = Inr (min 3 (length ts), args_of ts arr)"
proof -
  consider "length ts \<le> 3" | a b c d r where "ts = a # b # c # d # r"
    by (metis One_nat_def Suc_le_length_iff not_less_eq_eq numeral_3_eq_3)
  then show ?thesis
  proof cases
    case 1
    then consider "ts = []" | a where "ts = [a]" | a b where "ts = [a, b]" | a b c where "ts = [a, b, c]"
      by (cases ts; cases "tl ts"; cases "tl (tl ts)") auto
    then show ?thesis by cases (auto simp: args_of_def fun_eq_iff less_Suc_eq numeral_3_eq_3)
  next
    case 2
    have d: "drop 3 ts = d # r" by (simp add: 2 numeral_3_eq_3)
    then have len: "length (join (CHR '' '') (d # r)) < 500" using assms by simp
    then have "length d + 1 \<le> ARG_CONTAINER"
      using join_length [of r d "CHR '' ''"] by (cases "r = []") (simp_all add: ARG_CONTAINER_def)
    then have "store_args ts None 0 arr
        = store_args r (Some d) 3 (arr(0 := ArgStr a, 1 := ArgStr b, 2 := ArgStr c, 3 := ArgStr d))"
      by (simp add: 2 numeral_3_eq_3 numeral_2_eq_2)
    also have "\<dots> = Inr (3, args_of ts arr)"
    proof -
      have "(if r = [] then arr(0 := ArgStr a, 1 := ArgStr b, 2 := ArgStr c, 3 := ArgStr d)
          else (arr(0 := ArgStr a, 1 := ArgStr b, 2 := ArgStr c, 3 := ArgStr d))(3 := ArgStr (join (CHR '' '') (d # r)))) i
        = args_of ts arr i" for i
      proof -
        consider "i = 0" | "i = 1" | "i = 2" | "i = 3" | "3 < i" by linarith
        then show ?thesis by cases (simp_all add: args_of_def d, simp_all add: 2)
      qed
      then show ?thesis unfolding store_rest [OF len] by (simp only: prod.inject sum.inject) (intro conjI refl ext)
    qed
    finally show ?thesis by (simp add: 2)
  qed
qed

subsection \<open>Properties\<close>

lemma render_line_chars:
  "\<forall>f \<in> set fs. field_ok f \<Longrightarrow> nl \<notin> set (render_line fs)"
proof (induction fs rule: render_line.induct)
  case (2 f)
  then show ?case by (cases f) (auto simp: nl_def)
next
  case (3 f g fs)
  then show ?case by (cases f) (auto simp: nl_def)
qed simp

lemma length_render_line:
  "length (concat (map (\<lambda>f. field_text f @ [CHR ''@'']) fs)) \<le> length (render_line fs) + 1"
proof (induction fs rule: render_line.induct)
  case (2 f)
  then show ?case by (cases f) auto
next
  case (3 f g fs)
  then show ?case by (cases f) auto
qed simp



end
